(* ===== verification/Montage_Prelude.thy ===== *)
theory Montage_Prelude
  imports Main "HOL-Library.Word"
begin

unbundle bit_operations_syntax

text \<open>
  Shared vocabulary of the development: 64-bit words for \<^verbatim>\<open>uint64_t\<close>, \<^verbatim>\<open>size_t\<close> and
  pointers, errors as values, sequencing of fallible state transformers, bounded loops over
  words, and the word and list lemmas the component theories use.
\<close>

section \<open>Machine words\<close>

type_synonym u64 = "64 word"
type_synonym addr = u64

definition UINT64_MAX :: u64 where
  "UINT64_MAX = - 1"

named_theorems u64_arith "facts that move goals on 64-bit words to natural numbers"

lemma unat_max [u64_arith]: "unat UINT64_MAX = 2 ^ 64 - 1"
  by (simp add: UINT64_MAX_def unsigned_minus_1_eq_mask mask_eq_exp_minus_1)

lemma le_max [simp]: "x \<le> UINT64_MAX"
  by (simp add: UINT64_MAX_def)

lemma max_le_iff [simp]: "UINT64_MAX \<le> x \<longleftrightarrow> x = UINT64_MAX"
  by (simp add: UINT64_MAX_def word_order.extremum_unique)

lemma unat_bound [simp]: "unat (x :: u64) < 2 ^ 64"
  using unsigned_less [of x] by simp

lemma unat_inc: "x \<noteq> UINT64_MAX \<Longrightarrow> unat (x + 1) = Suc (unat x)"
  using unatSuc [of x] by (simp add: UINT64_MAX_def add.commute eq_neg_iff_add_eq_0)

lemma unat_dec [u64_arith]: "(b :: u64) \<le> a \<Longrightarrow> unat (a - b) = unat a - unat b"
  by (rule unat_sub)

lemma unat_add_small: "unat (a :: u64) + unat b < 2 ^ 64 \<Longrightarrow> unat (a + b) = unat a + unat b"
  using unat_add_lem [of a b] by simp

lemma unat_add_num:
  "unat (a :: u64) + k < 2 ^ 64 \<Longrightarrow> unat (a + of_nat k) = unat a + k"
  by (simp add: unat_word_ariths unat_of_nat)

lemma unat_sub_num:
  "k \<le> unat (a :: u64) \<Longrightarrow> unat (a - of_nat k) = unat a - k"
proof -
  assume k: "k \<le> unat a"
  then have "k < 2 ^ 64" using unat_bound [of a] by linarith
  then have u: "unat (of_nat k :: u64) = k" by (simp add: unat_of_nat)
  have "(of_nat k :: u64) \<le> a" using k u by (simp add: word_le_nat_alt)
  then show ?thesis by (simp add: unat_dec u)
qed

section \<open>Epoch constants\<close>

definition NULL_EPOCH :: u64 where
  [simp]: "NULL_EPOCH = 0"

definition INIT_EPOCH :: u64 where
  [simp]: "INIT_EPOCH = 3"

definition EPOCH_WINDOW :: nat where
  [simp]: "EPOCH_WINDOW = 4"

text \<open>The window slot of an epoch, \<^verbatim>\<open>c % EPOCH_WINDOW\<close>.\<close>

definition slot :: "u64 \<Rightarrow> nat" where
  "slot c = unat c mod EPOCH_WINDOW"

lemma slot_less [simp]: "slot c < 4" "slot c < EPOCH_WINDOW"
  by (simp_all add: slot_def)

lemma slot_eq_close:
  assumes "slot a = slot b" and "unat a < unat b + 4" and "unat b < unat a + 4"
  shows "a = b"
proof -
  obtain p q where "unat a = 4 * p + slot a" and "unat b = 4 * q + slot b"
    by (metis EPOCH_WINDOW_def mult_div_mod_eq slot_def)
  with assms have "unat a = unat b" by auto
  then show ?thesis by (rule word_unat_eq_iff [THEN iffD2])
qed

section \<open>Errors as values\<close>

text \<open>
  \<^verbatim>\<open>errexit\<close> prints its message and throws; an \<^verbatim>\<open>assert\<close> aborts;
  \<^verbatim>\<open>OldSeeNewException\<close> is thrown by the epoch system; reading through a null pointer or
  outside an array is undefined behaviour; a loop that never leaves is \<^verbatim>\<open>Diverges\<close>.
\<close>

datatype err =
    ErrExit string
  | Assertion
  | OldSeeNewException
  | EpochVerifyException
  | BadAccess
  | Diverges

type_synonym 'a res = "err + 'a"

definition rbind :: "'a res \<Rightarrow> ('a \<Rightarrow> 'b res) \<Rightarrow> 'b res" where
  "rbind m f = (case m of Inl e \<Rightarrow> Inl e | Inr x \<Rightarrow> f x)"

lemma rbind_Inl [simp]: "rbind (Inl e) f = Inl e"
  by (simp add: rbind_def)

lemma rbind_Inr [simp]: "rbind (Inr x) f = f x"
  by (simp add: rbind_def)

lemma rbind_eq_Inr_iff: "rbind m f = Inr y \<longleftrightarrow> (\<exists>x. m = Inr x \<and> f x = Inr y)"
  by (cases m) auto

lemma rbind_eq_Inl_iff: "rbind m f = Inl e \<longleftrightarrow> m = Inl e \<or> (\<exists>x. m = Inr x \<and> f x = Inl e)"
  by (cases m) auto

lemma rbind_cong [fundef_cong]:
  "m = m' \<Longrightarrow> (\<And>x. m' = Inr x \<Longrightarrow> f x = f' x) \<Longrightarrow> rbind m f = rbind m' f'"
  by (cases m') auto

definition rassert :: "bool \<Rightarrow> 'a res \<Rightarrow> 'a res" where
  "rassert b m = (if b then m else Inl Assertion)"

lemma rassert_True [simp]: "rassert True m = m"
  by (simp add: rassert_def)

lemma rassert_False [simp]: "rassert False m = Inl Assertion"
  by (simp add: rassert_def)

lemma rassert_eq_Inr_iff: "rassert b m = Inr y \<longleftrightarrow> b \<and> m = Inr y"
  by (simp add: rassert_def)

text \<open>A loop over a list of items whose body may fail.\<close>

fun rfold :: "('a \<Rightarrow> 's \<Rightarrow> 's res) \<Rightarrow> 'a list \<Rightarrow> 's \<Rightarrow> 's res" where
  "rfold f [] s = Inr s"
| "rfold f (x # xs) s = rbind (f x s) (rfold f xs)"

lemma rfold_append: "rfold f (xs @ ys) s = rbind (rfold f xs s) (rfold f ys)"
  by (induction xs arbitrary: s) (auto simp: rbind_def split: sum.splits)

lemma rfold_inv:
  assumes "rfold f xs s = Inr s'" and "P s"
    and "\<And>x s s'. x \<in> set xs \<Longrightarrow> P s \<Longrightarrow> f x s = Inr s' \<Longrightarrow> P s'"
  shows "P s'"
  using assms
proof (induction xs arbitrary: s)
  case Nil
  then show ?case by simp
next
  case (Cons x xs)
  then obtain s1 where s1: "f x s = Inr s1" "rfold f xs s1 = Inr s'"
    by (auto simp: rbind_eq_Inr_iff)
  have "P s1" using Cons.prems(2,3) s1(1) by auto
  with s1(2) Cons.IH Cons.prems(3) show ?case by (metis list.set_intros(2))
qed

text \<open>Reading an array cell; out of range is undefined behaviour.\<close>

definition rnth :: "'a list \<Rightarrow> nat \<Rightarrow> 'a res" where
  "rnth xs i = (if i < length xs then Inr (xs ! i) else Inl BadAccess)"

lemma rnth_Inr [simp]: "i < length xs \<Longrightarrow> rnth xs i = Inr (xs ! i)"
  by (simp add: rnth_def)

lemma rnth_eq_Inr_iff: "rnth xs i = Inr x \<longleftrightarrow> i < length xs \<and> xs ! i = x"
  by (auto simp: rnth_def)

section \<open>Loops over words\<close>

text \<open>
  \<^verbatim>\<open>for (uint64_t i = lo; i <= hi; i++) body(i)\<close>: the words the loop visits. The test
  never fails when \<^verbatim>\<open>hi\<close> is the largest word, so the loop does not end then.
\<close>

function words_from_to :: "u64 \<Rightarrow> u64 \<Rightarrow> u64 list" where
  "words_from_to lo hi =
     (if lo < hi then lo # words_from_to (lo + 1) hi else if lo = hi then [lo] else [])"
  by pat_completeness auto
termination
proof (relation "measure (\<lambda>(lo, hi). unat hi - unat lo)")
  fix lo hi :: u64
  assume "lo < hi"
  then have "unat lo < unat hi" and "lo \<noteq> UINT64_MAX"
    using le_max [of hi] by (auto simp: word_less_nat_alt [symmetric] simp del: le_max)
  moreover from this have "unat (lo + 1) = Suc (unat lo)" by (intro unat_inc)
  ultimately show "((lo + 1, hi), lo, hi) \<in> measure (\<lambda>(lo, hi). unat hi - unat lo)"
    by simp
qed simp

declare words_from_to.simps [simp del]

lemma set_words_from_to: "set (words_from_to lo hi) = {lo..hi}"
proof (induction lo hi rule: words_from_to.induct)
  case (1 lo hi)
  consider "lo < hi" | "lo = hi" | "hi < lo" by fastforce
  then show ?case
  proof cases
    case 1
    then have "{lo..hi} = insert lo {lo + 1..hi}"
      by (auto simp: inc_less_eq_iff)
    with 1 "1.IH" show ?thesis by (simp add: words_from_to.simps [of lo hi])
  qed (auto simp: words_from_to.simps)
qed

definition for_le :: "u64 \<Rightarrow> u64 \<Rightarrow> (u64 \<Rightarrow> 's \<Rightarrow> 's res) \<Rightarrow> 's \<Rightarrow> 's res" where
  "for_le lo hi body s =
     (if hi = UINT64_MAX then Inl Diverges else rfold body (words_from_to lo hi) s)"

section \<open>Lists\<close>

lemma map_update_same [simp]: "i < length xs \<Longrightarrow> xs[i := xs ! i] = xs"
  by simp

lemma nth_upd: "xs[i := x] ! j = (if i = j \<and> i < length xs then x else xs ! j)"
  by (cases "i < length xs") (simp_all add: nth_list_update list_update_beyond)

lemma set_update_subset: "set (xs[i := x]) \<subseteq> insert x (set xs)"
  by (rule set_update_subset_insert)

lemma in_set_updateI: "i < length xs \<Longrightarrow> x \<in> set (xs[i := x])"
  by (simp add: set_update_memI)

lemma in_set_update_other:
  "y \<in> set xs \<Longrightarrow> y \<noteq> xs ! i \<Longrightarrow> y \<in> set (xs[i := x])"
  by (metis in_set_conv_nth length_list_update nth_list_update_neq)

lemma update_set_union:
  assumes "i < length xs"
  shows "set (xs[i := x]) \<union> {xs ! i} = insert x (set xs)"
proof -
  have "y \<in> set (xs[i := x])" if "y \<in> set xs" "y \<noteq> xs ! i" for y
    using that by (rule in_set_update_other)
  with assms set_update_subset [of xs i x] in_set_updateI [of i xs x] nth_mem [of i xs]
  show ?thesis by blast
qed

section \<open>Invariants of step relations\<close>

locale step_invariant =
  fixes step :: "'s \<Rightarrow> 's \<Rightarrow> bool"
    and invariant :: "'s \<Rightarrow> bool"
  assumes preserved: "invariant s \<Longrightarrow> step s s' \<Longrightarrow> invariant s'"
begin

lemma always: "step\<^sup>*\<^sup>* s s' \<Longrightarrow> invariant s \<Longrightarrow> invariant s'"
  by (induction rule: rtranclp_induct) (auto intro: preserved)

end

end
