(* ===== verification/Container_Specs.thy ===== *)
theory Container_Specs
  imports Montage_Prelude
begin

text \<open>
  The interfaces between Montage's buffers and their clients: an unbounded FIFO queue, the buffer
  of one thread that may hand entries to its callback when it is full, and the container that
  holds one such buffer per thread and epoch slot.  What a client may rely on is proved inside
  each locale; the component theories interpret them on the buffers of the source.
\<close>

section \<open>FIFO queues\<close>

datatype 'a qop = Push 'a | TryPop

text \<open>A run of operations on a queue: the values popped, in order, and the final queue.\<close>

fun qrun :: "('a \<Rightarrow> 'q \<Rightarrow> 'q) \<Rightarrow> ('q \<Rightarrow> 'a option \<times> 'q) \<Rightarrow> 'a qop list \<Rightarrow> 'q \<Rightarrow> 'a option list \<times> 'q" where
  "qrun push pop [] q = ([], q)"
| "qrun push pop (Push x # ops) q = qrun push pop ops (push x q)"
| "qrun push pop (TryPop # ops) q =
     (case pop q of (r, q1) \<Rightarrow> case qrun push pop ops q1 of (rs, q2) \<Rightarrow> (r # rs, q2))"

text \<open>The reference queue.\<close>

definition lpush :: "'a \<Rightarrow> 'a list \<Rightarrow> 'a list" where
  "lpush x q = q @ [x]"

definition lpop :: "'a list \<Rightarrow> 'a option \<times> 'a list" where
  "lpop q = (case q of [] \<Rightarrow> (None, []) | x # xs \<Rightarrow> (Some x, xs))"

locale fifo_queue =
  fixes empty :: 'q
    and push :: "'a \<Rightarrow> 'q \<Rightarrow> 'q"
    and pop :: "'q \<Rightarrow> 'a option \<times> 'q"
    and qinv :: "'q \<Rightarrow> bool"
    and contents :: "'q \<Rightarrow> 'a list"
  assumes empty_inv: "qinv empty" and empty_contents: "contents empty = []"
    and push_inv: "qinv q \<Longrightarrow> qinv (push x q)"
    and push_contents: "qinv q \<Longrightarrow> contents (push x q) = contents q @ [x]"
    and pop_inv: "qinv q \<Longrightarrow> qinv (snd (pop q))"
    and pop_contents: "qinv q \<Longrightarrow> (fst (pop q), contents (snd (pop q))) = lpop (contents q)"
begin

lemma run_refines:
  assumes "qinv q" and "qrun push pop ops q = (rs, q')"
  shows "qrun lpush lpop ops (contents q) = (rs, contents q') \<and> qinv q'"
  using assms
proof (induction ops arbitrary: q rs)
  case Nil
  then show ?case by simp
next
  case (Cons op ops)
  show ?case
  proof (cases op)
    case (Push x)
    then show ?thesis
      using Cons.IH [of "push x q" rs] Cons.prems push_inv [of q x] push_contents [of q x]
      by (simp add: lpush_def)
  next
    case TryPop
    obtain r q1 where p: "pop q = (r, q1)" by (cases "pop q")
    obtain rs1 where rs: "qrun push pop ops q1 = (rs1, q')" "rs = r # rs1"
      using Cons.prems TryPop p by (auto split: prod.splits)
    have "lpop (contents q) = (r, contents q1)" "qinv q1"
      using pop_contents [of q] pop_inv [of q] p Cons.prems by auto
    then show ?thesis using Cons.IH [OF _ rs(1)] rs(2) TryPop by simp
  qed
qed

lemma fresh_run_refines:
  "fst (qrun push pop ops empty) = fst (qrun lpush lpop ops [])"
  using run_refines [OF empty_inv, of ops] empty_contents
  by (metis fst_conv prod.collapse)

end

section \<open>The buffer of one thread\<close>

text \<open>
  \<^term>\<open>binv n b\<close> says that \<^term>\<open>b\<close> is well formed and can still take \<^term>\<open>n\<close> pushes before its
  counters run out.  A push returns the entries it handed to the callback to make room;
  \<^verbatim>\<open>pop_all\<close> hands all entries to the callback and may leave entries behind.
\<close>

locale thread_buffer =
  fixes push :: "'a \<Rightarrow> 'b \<Rightarrow> ('a list \<times> 'b) res"
    and pop_all :: "'b \<Rightarrow> ('a list \<times> 'b) res"
    and binv :: "nat \<Rightarrow> 'b \<Rightarrow> bool"
    and entries :: "'b \<Rightarrow> 'a set"
    and valid :: "'a \<Rightarrow> bool"
  assumes weaken: "binv (Suc n) b \<Longrightarrow> binv n b"
    and push_law: "binv (Suc n) b \<Longrightarrow> valid x \<Longrightarrow>
      \<exists>cs b'. push x b = Inr (cs, b') \<and> binv n b' \<and> set cs \<union> entries b' = insert x (entries b)"
    and pop_all_law: "binv n b \<Longrightarrow>
      \<exists>cs b'. pop_all b = Inr (cs, b') \<and> binv n b' \<and> set cs = entries b \<and> entries b' \<subseteq> entries b"

section \<open>Containers indexed by epoch slot and thread\<close>

text \<open>\<^verbatim>\<open>containers[c % EPOCH_WINDOW][tid]->op(...)\<close>\<close>

definition cell_app :: "('b \<Rightarrow> ('r \<times> 'b) res) \<Rightarrow> nat \<Rightarrow> u64 \<Rightarrow> 'b list list \<Rightarrow> ('r \<times> 'b list list) res" where
  "cell_app f tid c k =
     rbind (rnth k (slot c)) (\<lambda>row. rbind (rnth row tid) (\<lambda>b. rbind (f b) (\<lambda>(r, b').
       Inr (r, k[slot c := row[tid := b']]))))"

text \<open>\<^verbatim>\<open>for (i = 0; i < thread_cnt; i++) containers[c % EPOCH_WINDOW][i]->op(...)\<close>\<close>

fun row_all :: "('b \<Rightarrow> ('a list \<times> 'b) res) \<Rightarrow> 'b list \<Rightarrow> ('a list \<times> 'b list) res" where
  "row_all f [] = Inr ([], [])"
| "row_all f (b # bs) =
     rbind (f b) (\<lambda>(cs, b'). rbind (row_all f bs) (\<lambda>(ds, bs'). Inr (cs @ ds, b' # bs')))"

definition row_app :: "('b \<Rightarrow> ('a list \<times> 'b) res) \<Rightarrow> u64 \<Rightarrow> 'b list list \<Rightarrow> ('a list \<times> 'b list list) res" where
  "row_app f c k =
     rbind (rnth k (slot c)) (\<lambda>row. rbind (row_all f row) (\<lambda>(cs, row').
       Inr (cs, k[slot c := row'])))"

definition cells_inv :: "(nat \<Rightarrow> 'b \<Rightarrow> bool) \<Rightarrow> nat \<Rightarrow> nat \<Rightarrow> 'b list list \<Rightarrow> bool" where
  "cells_inv binv n m k \<longleftrightarrow> length k = EPOCH_WINDOW \<and> (\<forall>row \<in> set k. length row = n \<and> (\<forall>b \<in> set row. binv m b))"

definition cells_entries :: "('b \<Rightarrow> 'a set) \<Rightarrow> 'b list list \<Rightarrow> nat \<Rightarrow> nat \<Rightarrow> 'a set" where
  "cells_entries ents k s t = (if s < length k \<and> t < length (k ! s) then ents (k ! s ! t) else {})"

text \<open>A run of container operations: all entries handed to the callback, and the final container.\<close>

datatype 'a cop = CPush 'a nat u64 | CPopLocal nat u64 | CPop u64

fun crun :: "('a \<Rightarrow> nat \<Rightarrow> u64 \<Rightarrow> 'k \<Rightarrow> ('a list \<times> 'k) res) \<Rightarrow> (nat \<Rightarrow> u64 \<Rightarrow> 'k \<Rightarrow> ('a list \<times> 'k) res)
    \<Rightarrow> (u64 \<Rightarrow> 'k \<Rightarrow> ('a list \<times> 'k) res) \<Rightarrow> 'a cop list \<Rightarrow> 'k \<Rightarrow> ('a list \<times> 'k) res" where
  "crun pu pl pa [] k = Inr ([], k)"
| "crun pu pl pa (op # ops) k =
     rbind (case op of CPush x tid c \<Rightarrow> pu x tid c k | CPopLocal tid c \<Rightarrow> pl tid c k | CPop c \<Rightarrow> pa c k)
       (\<lambda>(cs, k1). rbind (crun pu pl pa ops k1) (\<lambda>(ds, k2). Inr (cs @ ds, k2)))"

fun cop_ok :: "nat \<Rightarrow> ('a \<Rightarrow> bool) \<Rightarrow> 'a cop \<Rightarrow> bool" where
  "cop_ok n ok (CPush x tid c) \<longleftrightarrow> tid < n \<and> ok x"
| "cop_ok n ok (CPopLocal tid c) \<longleftrightarrow> tid < n"
| "cop_ok n ok (CPop c) \<longleftrightarrow> True"

definition pushed :: "'a cop list \<Rightarrow> nat \<Rightarrow> nat \<Rightarrow> 'a set" where
  "pushed ops s t = {x. \<exists>c. CPush x t c \<in> set ops \<and> slot c = s}"

locale epoch_container =
  fixes push :: "'a \<Rightarrow> nat \<Rightarrow> u64 \<Rightarrow> 'k \<Rightarrow> ('a list \<times> 'k) res"
    and pop_all_local :: "nat \<Rightarrow> u64 \<Rightarrow> 'k \<Rightarrow> ('a list \<times> 'k) res"
    and pop_all :: "u64 \<Rightarrow> 'k \<Rightarrow> ('a list \<times> 'k) res"
    and cinv :: "nat \<Rightarrow> nat \<Rightarrow> 'k \<Rightarrow> bool"
    and held :: "'k \<Rightarrow> nat \<Rightarrow> nat \<Rightarrow> 'a set"
    and ok :: "'a \<Rightarrow> bool"
  assumes push_ok: "cinv n (Suc m) k \<Longrightarrow> tid < n \<Longrightarrow> ok x \<Longrightarrow>
      \<exists>cs k'. push x tid c k = Inr (cs, k') \<and> cinv n m k'
        \<and> set cs \<union> held k' (slot c) tid = insert x (held k (slot c) tid)
        \<and> (\<forall>s t. (s, t) \<noteq> (slot c, tid) \<longrightarrow> held k' s t = held k s t)"
    and pop_local_ok: "cinv n m k \<Longrightarrow> tid < n \<Longrightarrow>
      \<exists>cs k'. pop_all_local tid c k = Inr (cs, k') \<and> cinv n m k'
        \<and> set cs = held k (slot c) tid \<and> held k' (slot c) tid \<subseteq> held k (slot c) tid
        \<and> (\<forall>s t. (s, t) \<noteq> (slot c, tid) \<longrightarrow> held k' s t = held k s t)"
    and pop_ok: "cinv n m k \<Longrightarrow>
      \<exists>cs k'. pop_all c k = Inr (cs, k') \<and> cinv n m k'
        \<and> set cs = (\<Union>t < n. held k (slot c) t) \<and> (\<forall>t. held k' (slot c) t \<subseteq> held k (slot c) t)
        \<and> (\<forall>s t. s \<noteq> slot c \<longrightarrow> held k' s t = held k s t)"
    and held_range: "cinv n m k \<Longrightarrow> n \<le> t \<Longrightarrow> held k s t = {}"
    and fewer: "cinv n (Suc m) k \<Longrightarrow> cinv n m k"
begin

lemma step_law:
  assumes inv: "cinv n (Suc m) k" and op: "cop_ok n ok op"
  shows "\<exists>cs k'. (case op of CPush x tid c \<Rightarrow> push x tid c k | CPopLocal tid c \<Rightarrow> pop_all_local tid c k
                    | CPop c \<Rightarrow> pop_all c k) = Inr (cs, k') \<and> cinv n m k'
       \<and> (\<forall>s t. held k s t \<union> pushed [op] s t \<subseteq> set cs \<union> held k' s t)"
proof (cases op)
  case (CPush x tid c)
  then obtain cs k' where "push x tid c k = Inr (cs, k')" "cinv n m k'"
      "set cs \<union> held k' (slot c) tid = insert x (held k (slot c) tid)"
      "\<forall>s t. (s, t) \<noteq> (slot c, tid) \<longrightarrow> held k' s t = held k s t"
    using push_ok [OF inv, of tid x c] op by auto
  moreover from this have "held k s t \<union> pushed [op] s t \<subseteq> set cs \<union> held k' s t" for s t
    using CPush by (cases "(s, t) = (slot c, tid)") (auto simp: pushed_def)
  ultimately show ?thesis using CPush by auto
next
  case (CPopLocal tid c)
  then obtain cs k' where "pop_all_local tid c k = Inr (cs, k')" "cinv n m k'"
      "set cs = held k (slot c) tid" "\<forall>s t. (s, t) \<noteq> (slot c, tid) \<longrightarrow> held k' s t = held k s t"
    using pop_local_ok [OF fewer [OF inv], of tid c] op by auto
  moreover from this have "held k s t \<union> pushed [op] s t \<subseteq> set cs \<union> held k' s t" for s t
    using CPopLocal by (cases "(s, t) = (slot c, tid)") (auto simp: pushed_def)
  ultimately show ?thesis using CPopLocal by auto
next
  case (CPop c)
  obtain cs k' where p: "pop_all c k = Inr (cs, k')" "cinv n m k'"
      "set cs = (\<Union>t < n. held k (slot c) t)" "\<forall>s t. s \<noteq> slot c \<longrightarrow> held k' s t = held k s t"
    using pop_ok [OF fewer [OF inv], of c] by auto
  have "held k s t \<union> pushed [op] s t \<subseteq> set cs \<union> held k' s t" for s t
    using p(3,4) CPop held_range [OF inv, of t s] by (cases "s = slot c"; cases "t < n") (auto simp: pushed_def)
  then show ?thesis using CPop p by auto
qed

lemma run_keeps:
  assumes "cinv n (length ops + m) k" and "\<forall>op \<in> set ops. cop_ok n ok op"
  shows "\<exists>out k'. crun push pop_all_local pop_all ops k = Inr (out, k') \<and> cinv n m k'
       \<and> (\<forall>s t. held k s t \<union> pushed ops s t \<subseteq> set out \<union> held k' s t)"
  using assms
proof (induction ops arbitrary: k)
  case Nil
  then show ?case by (simp add: pushed_def)
next
  case (Cons op ops)
  obtain cs k1 where k1: "(case op of CPush x tid c \<Rightarrow> push x tid c k | CPopLocal tid c \<Rightarrow> pop_all_local tid c k
                    | CPop c \<Rightarrow> pop_all c k) = Inr (cs, k1)" "cinv n (length ops + m) k1"
      "\<forall>s t. held k s t \<union> pushed [op] s t \<subseteq> set cs \<union> held k1 s t"
    using step_law [of n "length ops + m" k op] Cons.prems by auto
  obtain ds k2 where k2: "crun push pop_all_local pop_all ops k1 = Inr (ds, k2)" "cinv n m k2"
      "\<forall>s t. held k1 s t \<union> pushed ops s t \<subseteq> set ds \<union> held k2 s t"
    using Cons.IH [OF k1(2)] Cons.prems(2) by auto
  have "pushed (op # ops) s t = pushed [op] s t \<union> pushed ops s t" for s t
    by (auto simp: pushed_def)
  then have "held k s t \<union> pushed (op # ops) s t \<subseteq> set (cs @ ds) \<union> held k2 s t" for s t
    using k1(3) k2(3) by (simp add: subset_iff) blast
  then show ?case using k1(1) k2(1,2) by auto
qed

text \<open>
  Once a thread's buffer for an epoch is drained, every entry it was given for that slot has been
  handed to the callback at least once.
\<close>

lemma drained_run_complete:
  assumes "cinv n (Suc (length ops)) k" and "\<forall>op \<in> set ops. cop_ok n ok op" and "tid < n"
  shows "\<exists>out k'. crun push pop_all_local pop_all (ops @ [CPopLocal tid c]) k = Inr (out, k')
       \<and> held k (slot c) tid \<union> pushed ops (slot c) tid \<subseteq> set out"
proof -
  have split: "crun push pop_all_local pop_all (ops @ [op]) k =
      rbind (crun push pop_all_local pop_all ops k) (\<lambda>(cs, k1).
        rbind (crun push pop_all_local pop_all [op] k1) (\<lambda>(ds, k2). Inr (cs @ ds, k2)))" for op k
    by (induction ops arbitrary: k) (auto simp: rbind_def split: sum.splits prod.splits)
  obtain out k1 where k1: "crun push pop_all_local pop_all ops k = Inr (out, k1)" "cinv n 1 k1"
      "\<forall>s t. held k s t \<union> pushed ops s t \<subseteq> set out \<union> held k1 s t"
    using run_keeps [of n ops 1 k] assms by auto
  obtain cs k2 where "pop_all_local tid c k1 = Inr (cs, k2)" "set cs = held k1 (slot c) tid"
    using pop_local_ok [OF k1(2) assms(3)] by blast
  then show ?thesis using k1 by (auto simp: split)
qed

end


lemma cell_app_Inr:
  assumes "length k = EPOCH_WINDOW" and "tid < length (k ! slot c)" and "f (k ! slot c ! tid) = Inr (r, b')"
  shows "cell_app f tid c k = Inr (r, k[slot c := (k ! slot c)[tid := b']])"
  using assms by (simp add: cell_app_def)

lemma cells_entries_update:
  assumes "s < length k" and "t < length (k ! s)"
  shows "cells_entries ents (k[s := (k ! s)[t := b]]) s' t'
       = (if (s', t') = (s, t) then ents b else cells_entries ents k s' t')"
  using assms by (auto simp: cells_entries_def nth_list_update)

lemma cells_inv_nth:
  "cells_inv binv n m k \<Longrightarrow> s < EPOCH_WINDOW \<Longrightarrow> t < n \<Longrightarrow> binv m (k ! s ! t) \<and> length (k ! s) = n"
  unfolding cells_inv_def by (metis nth_mem)

lemma cells_inv_update:
  assumes "cells_inv binv n m k" and "binv m' b" and "\<And>b. binv m b \<Longrightarrow> binv m' b"
    and "s < EPOCH_WINDOW" and "t < n"
  shows "cells_inv binv n m' (k[s := (k ! s)[t := b]])"
proof -
  have k: "length k = EPOCH_WINDOW" "\<And>row. row \<in> set k \<Longrightarrow> length row = n \<and> (\<forall>b \<in> set row. binv m b)"
    using assms(1) by (auto simp: cells_inv_def)
  have "length row = n \<and> (\<forall>b \<in> set row. binv m' b)" if "row \<in> set (k[s := (k ! s)[t := b]])" for row
  proof -
    have "row \<in> insert ((k ! s)[t := b]) (set k)" using that set_update_subset_insert by fastforce
    moreover have "length (k ! s) = n \<and> (\<forall>b \<in> set (k ! s). binv m b)"
      using k(2) [of "k ! s"] k(1) assms(4) by simp
    moreover have "set ((k ! s)[t := b]) \<subseteq> insert b (set (k ! s))" by (rule set_update_subset_insert)
    ultimately show ?thesis using k(2) assms(2,3) by auto
  qed
  then show ?thesis using k(1) by (simp add: cells_inv_def)
qed

context thread_buffer
begin

lemma row_all_law:
  "\<forall>b \<in> set row. binv n b \<Longrightarrow>
     \<exists>cs row'. row_all pop_all row = Inr (cs, row') \<and> length row' = length row \<and> (\<forall>b \<in> set row'. binv n b)
       \<and> set cs = (\<Union>t < length row. entries (row ! t))
       \<and> (\<forall>t < length row. entries (row' ! t) \<subseteq> entries (row ! t))"
proof (induction row)
  case Nil
  then show ?case by simp
next
  case (Cons b row)
  obtain cs b' where b: "pop_all b = Inr (cs, b')" "binv n b'" "set cs = entries b" "entries b' \<subseteq> entries b"
    using Cons.prems pop_all_law [of n b] by auto
  obtain ds row' where row: "row_all pop_all row = Inr (ds, row')" "length row' = length row"
      "\<forall>b \<in> set row'. binv n b" "set ds = (\<Union>t < length row. entries (row ! t))"
      "\<forall>t < length row. entries (row' ! t) \<subseteq> entries (row ! t)"
    using Cons.IH Cons.prems by auto
  have "(\<Union>t < Suc (length row). entries ((b # row) ! t)) = entries b \<union> (\<Union>t < length row. entries (row ! t))"
    by (simp add: lessThan_Suc_eq_insert_0 image_image)
  moreover have "entries ((b' # row') ! t) \<subseteq> entries ((b # row) ! t)" if "t < Suc (length row)" for t
    using that b(4) row(5) by (cases t) auto
  ultimately show ?case using b row by auto
qed

lemma cells_push_ok:
  assumes inv: "cells_inv binv n (Suc m) k" and tid: "tid < n" and x: "valid x"
  shows "\<exists>cs k'. cell_app (push x) tid c k = Inr (cs, k') \<and> cells_inv binv n m k'
        \<and> set cs \<union> cells_entries entries k' (slot c) tid = insert x (cells_entries entries k (slot c) tid)
        \<and> (\<forall>s t. (s, t) \<noteq> (slot c, tid) \<longrightarrow> cells_entries entries k' s t = cells_entries entries k s t)"
proof -
  have c: "length k = EPOCH_WINDOW" "length (k ! slot c) = n" "binv (Suc m) (k ! slot c ! tid)"
    using inv cells_inv_nth [OF inv, of "slot c" tid] tid by (auto simp: cells_inv_def)
  obtain cs b' where b: "push x (k ! slot c ! tid) = Inr (cs, b')" "binv m b'"
      "set cs \<union> entries b' = insert x (entries (k ! slot c ! tid))"
    using push_law [OF c(3) x] by auto
  let ?k = "k[slot c := (k ! slot c)[tid := b']]"
  have e: "cells_entries entries ?k s t
      = (if (s, t) = (slot c, tid) then entries b' else cells_entries entries k s t)" for s t
    using c tid by (intro cells_entries_update) auto
  have "cell_app (push x) tid c k = Inr (cs, ?k)" using c tid b by (intro cell_app_Inr) auto
  moreover have "cells_inv binv n m ?k" 
    by (rule cells_inv_update [OF inv b(2) weaken]) (simp_all add: tid)
  moreover have "cells_entries entries k (slot c) tid = entries (k ! slot c ! tid)"
    using c tid by (simp add: cells_entries_def)
  ultimately show ?thesis using b(3) e by auto
qed

lemma cells_pop_local_ok:
  assumes inv: "cells_inv binv n m k" and tid: "tid < n"
  shows "\<exists>cs k'. cell_app pop_all tid c k = Inr (cs, k') \<and> cells_inv binv n m k'
        \<and> set cs = cells_entries entries k (slot c) tid
        \<and> cells_entries entries k' (slot c) tid \<subseteq> cells_entries entries k (slot c) tid
        \<and> (\<forall>s t. (s, t) \<noteq> (slot c, tid) \<longrightarrow> cells_entries entries k' s t = cells_entries entries k s t)"
proof -
  have c: "length k = EPOCH_WINDOW" "length (k ! slot c) = n" "binv m (k ! slot c ! tid)"
    using inv cells_inv_nth [OF inv, of "slot c" tid] tid by (auto simp: cells_inv_def)
  obtain cs b' where b: "pop_all (k ! slot c ! tid) = Inr (cs, b')" "binv m b'"
      "set cs = entries (k ! slot c ! tid)" "entries b' \<subseteq> entries (k ! slot c ! tid)"
    using pop_all_law [OF c(3)] by auto
  let ?k = "k[slot c := (k ! slot c)[tid := b']]"
  have e: "cells_entries entries ?k s t
      = (if (s, t) = (slot c, tid) then entries b' else cells_entries entries k s t)" for s t
    using c tid by (intro cells_entries_update) auto
  have "cell_app pop_all tid c k = Inr (cs, ?k)" using c tid b by (intro cell_app_Inr) auto
  moreover have "cells_inv binv n m ?k" 
    by (rule cells_inv_update [OF inv b(2)]) (simp_all add: tid)
  moreover have "cells_entries entries k (slot c) tid = entries (k ! slot c ! tid)"
    using c tid by (simp add: cells_entries_def)
  ultimately show ?thesis using b(3,4) e by auto
qed

lemma cells_pop_ok:
  assumes inv: "cells_inv binv n m k"
  shows "\<exists>cs k'. row_app pop_all c k = Inr (cs, k') \<and> cells_inv binv n m k'
        \<and> set cs = (\<Union>t < n. cells_entries entries k (slot c) t)
        \<and> (\<forall>t. cells_entries entries k' (slot c) t \<subseteq> cells_entries entries k (slot c) t)
        \<and> (\<forall>s t. s \<noteq> slot c \<longrightarrow> cells_entries entries k' s t = cells_entries entries k s t)"
proof -
  have k: "length k = EPOCH_WINDOW" using inv by (simp add: cells_inv_def)
  then have row: "length (k ! slot c) = n" "\<forall>b \<in> set (k ! slot c). binv m b"
    using inv nth_mem [of "slot c" k] by (auto simp: cells_inv_def)
  obtain cs row' where r: "row_all pop_all (k ! slot c) = Inr (cs, row')" "length row' = n"
      "\<forall>b \<in> set row'. binv m b" "set cs = (\<Union>t < n. entries (k ! slot c ! t))"
      "\<forall>t < n. entries (row' ! t) \<subseteq> entries (k ! slot c ! t)"
    using row_all_law [OF row(2)] row(1) by auto
  have "row_app pop_all c k = Inr (cs, k[slot c := row'])" using r(1) k by (simp add: row_app_def)
  moreover have "cells_inv binv n m (k[slot c := row'])"
    using inv r(2,3) set_update_subset_insert [of k "slot c" row'] unfolding cells_inv_def by auto
  moreover have "set cs = (\<Union>t < n. cells_entries entries k (slot c) t)"
    using r(4) k row(1) by (simp add: cells_entries_def)
  ultimately show ?thesis using r(2,5) k row(1) by (auto simp: cells_entries_def nth_list_update)
qed

end

sublocale thread_buffer \<subseteq> cells: epoch_container
  "\<lambda>x. cell_app (push x)" "cell_app pop_all" "row_app pop_all" "cells_inv binv"
  "cells_entries entries" valid
proof (unfold_locales, goal_cases)
  case 1
  then show ?case by (rule cells_push_ok)
next
  case 2
  then show ?case by (rule cells_pop_local_ok)
next
  case 3
  then show ?case by (rule cells_pop_ok)
next
  case (4 n m k t s)
  then show ?case using nth_mem [of s k] by (auto simp: cells_inv_def cells_entries_def)
next
  case (5 n m k)
  then show ?case using weaken by (auto simp: cells_inv_def)
qed

end
