(* ===== verification/Persist_Utils.thy ===== *)
theory Persist_Utils
  imports Montage_Prelude
begin

text \<open>
  \<^verbatim>\<open>src/persist/persist_utils.hpp\<close>: the identifier generator and the buffers from which the
  per-thread containers are built. A callback \<^verbatim>\<open>func\<close> that a buffer applies to its entries is
  modelled by the list of entries it is applied to, in order; single-entry accesses are atomic
  and a compare-exchange that no other thread disturbs succeeds.
\<close>

lemma unat_half: "unat (drop_bit 1 (x :: u64)) = unat x div 2"
  by (simp add: unat_drop_bit_eq) (simp add: drop_bit_eq_div)

section \<open>UIDGenerator\<close>

record uidgen =
  curr_ids :: "u64 list option"

definition uid_new :: uidgen where
  "uid_new = \<lparr>curr_ids = None\<rparr>"

text \<open>The loop of \<^verbatim>\<open>init\<close>: one bit of \<^verbatim>\<open>buf\<close> per turn.\<close>

function uid_loop :: "u64 \<Rightarrow> int \<Rightarrow> u64 \<Rightarrow> int \<times> u64" where
  "uid_loop buf shift mx =
     (if buf \<noteq> 0 then uid_loop (drop_bit 1 buf) (shift - 1) (push_bit 1 mx) else (shift, mx))"
  by pat_completeness auto
termination
proof (relation "measure (\<lambda>(buf, _). unat buf)")
  fix buf :: u64 and shift :: int and mx :: u64
  assume "buf \<noteq> 0"
  then have "0 < unat buf" by (simp add: unat_gt_0)
  then show "((drop_bit 1 buf, shift - 1, push_bit 1 mx), buf, shift, mx)
      \<in> measure (\<lambda>(buf, _). unat buf)"
    using unat_half [of buf] by simp
qed simp

declare uid_loop.simps [simp del]

definition uid_init :: "u64 \<Rightarrow> uidgen \<Rightarrow> uidgen res" where
  "uid_init task_num g =
     (let (shift, mx) = uid_loop (task_num - 1) 64 1;
          arr = (case curr_ids g of None \<Rightarrow> replicate (unat mx) 0 | Some a \<Rightarrow> a)
      in if unat mx \<le> length arr
         then Inr (g\<lparr>curr_ids := Some (map (\<lambda>i. push_bit (nat shift) (of_nat i)) [0..<unat mx]
                                      @ drop (unat mx) arr)\<rparr>)
         else Inl BadAccess)"

definition uid_get_id :: "nat \<Rightarrow> uidgen \<Rightarrow> (u64 \<times> uidgen) res" where
  "uid_get_id tid g =
     (case curr_ids g of
        None \<Rightarrow> Inl BadAccess
      | Some a \<Rightarrow> rbind (rnth a tid) (\<lambda>v. Inr (v, g\<lparr>curr_ids := Some (a[tid := v + 1])\<rparr>)))"

text \<open>A sequence of calls by the threads named in the list.\<close>

fun uid_run :: "nat list \<Rightarrow> uidgen \<Rightarrow> (u64 list \<times> uidgen) res" where
  "uid_run [] g = Inr ([], g)"
| "uid_run (t # ts) g =
     rbind (uid_get_id t g) (\<lambda>(i, g1). rbind (uid_run ts g1) (\<lambda>(is, g2). Inr (i # is, g2)))"

lemma unat_push_bit_less:
  assumes "unat (x :: u64) * 2 ^ n < 2 ^ 64"
  shows "unat (push_bit n x) = unat x * 2 ^ n"
proof -
  have "unat (push_bit n x) = take_bit 64 (push_bit n (unat x))"
    using unsigned_push_bit_eq [of n x, where ?'a = nat] by simp
  then show ?thesis using assms by (simp add: take_bit_eq_mod push_bit_eq_mult)
qed

lemma uid_loop_spec:
  assumes "unat mx * unat buf < 2 ^ 63"
  shows "\<exists>n. uid_loop buf shift mx = (shift - int n, push_bit n mx) \<and> unat buf < 2 ^ n
             \<and> (buf \<noteq> 0 \<longrightarrow> 2 ^ n \<le> 2 * unat buf) \<and> (buf = 0 \<longrightarrow> n = 0)"
  using assms
proof (induction buf shift mx rule: uid_loop.induct)
  case (1 buf shift mx)
  show ?case
  proof (cases "buf = 0")
    case True
    then show ?thesis by (intro exI [of _ 0]) (simp add: uid_loop.simps)
  next
    case False
    let ?b = "drop_bit 1 buf"
    have b: "unat ?b = unat buf div 2" by (rule unat_half)
    have pos: "0 < unat buf" using False by (simp add: unat_gt_0)
    have "unat mx < 2 ^ 63"
      using "1.prems" pos by (metis Suc_leI le_less_trans mult.right_neutral mult_le_mono2 One_nat_def)
    then have mx: "unat (push_bit 1 mx) = unat mx * 2"
      using unat_push_bit_less [of mx 1] by simp
    have "unat (push_bit 1 mx) * unat ?b \<le> unat mx * unat buf"
      unfolding mx b by (simp add: mult.assoc)
    with "1.prems" have "unat (push_bit 1 mx) * unat ?b < 2 ^ 63" by linarith
    with "1.IH" False obtain n where n: "uid_loop ?b (shift - 1) (push_bit 1 mx)
          = (shift - 1 - int n, push_bit n (push_bit 1 mx))"
        "unat ?b < 2 ^ n" "?b \<noteq> 0 \<longrightarrow> 2 ^ n \<le> 2 * unat ?b" "?b = 0 \<longrightarrow> n = 0"
      by blast
    have "uid_loop buf shift mx = (shift - int (Suc n), push_bit (Suc n) mx)"
      using False n(1) by (simp add: uid_loop.simps [of buf] push_bit_push_bit add.commute)
    moreover have "unat buf < 2 ^ Suc n" using n(2) b by simp
    moreover have "2 ^ Suc n \<le> 2 * unat buf"
    proof (cases "?b = 0")
      case True
      then show ?thesis using n(4) pos by simp
    next
      case False
      then show ?thesis using n(3) b by simp
    qed
    ultimately show ?thesis using False by blast
  qed
qed

text \<open>
  Running threads: in an array whose cell \<^term>\<open>t\<close> holds \<^term>\<open>t * 2 ^ s + k t\<close>, the identifiers
  handed out lie in the block of their thread and are pairwise different.
\<close>

lemma uid_run_blocks:
  assumes "curr_ids g = Some a" and "uid_run ts g = Inr (ids, g')"
    and "\<And>t. t < length a \<Longrightarrow> unat (a ! t) = t * 2 ^ s + k t"
    and "\<And>t. k t + count_list ts t < 2 ^ s" and "length a * 2 ^ s \<le> 2 ^ 64"
  shows "distinct ids \<and> (\<forall>x \<in> set ids. \<exists>t j. t < length a \<and> k t \<le> j \<and> j < k t + count_list ts t
            \<and> unat x = t * 2 ^ s + j)"
  using assms
proof (induction ts arbitrary: g a ids k)
  case Nil
  then show ?case by simp
next
  case (Cons t ts)
  let ?a = "a[t := a ! t + 1]" and ?k = "k(t := Suc (k t))"
  obtain ids1 where run: "t < length a" "ids = a ! t # ids1"
      "uid_run ts (g\<lparr>curr_ids := Some ?a\<rparr>) = Inr (ids1, g')"
    using Cons.prems(1,2) by (auto simp: uid_get_id_def rbind_eq_Inr_iff rnth_eq_Inr_iff)
  have kt: "Suc (k t) < 2 ^ s" using Cons.prems(4) [of t] by simp
  have "t * 2 ^ s + Suc (k t) < Suc t * 2 ^ s" using kt by simp
  also have "\<dots> \<le> 2 ^ 64" using run(1) Cons.prems(5) by (meson Suc_leI le_trans mult_le_mono1)
  finally have un: "unat (a ! t + 1) = t * 2 ^ s + Suc (k t)"
    using unat_add_num [of "a ! t" 1] Cons.prems(3) [OF run(1)] by simp
  have "distinct ids1 \<and> (\<forall>x \<in> set ids1. \<exists>u j. u < length ?a \<and> ?k u \<le> j
      \<and> j < ?k u + count_list ts u \<and> unat x = u * 2 ^ s + j)"
  proof (rule Cons.IH [OF _ run(3)])
    show "unat (?a ! u) = u * 2 ^ s + ?k u" if "u < length ?a" for u
      using that Cons.prems(3) [of u] un by (cases "u = t") auto
    show "?k u + count_list ts u < 2 ^ s" for u using Cons.prems(4) [of u] by auto
  qed (use Cons.prems(5) in simp_all)
  then have IH: "distinct ids1" "\<And>x. x \<in> set ids1 \<Longrightarrow> \<exists>u j. u < length a \<and> ?k u \<le> j
      \<and> j < ?k u + count_list ts u \<and> unat x = u * 2 ^ s + j" by auto
  have fresh: "a ! t \<notin> set ids1"
  proof
    assume "a ! t \<in> set ids1"
    then obtain u j where u: "?k u \<le> j" "j < ?k u + count_list ts u"
        "t * 2 ^ s + k t = u * 2 ^ s + j"
      using IH(2) Cons.prems(3) [OF run(1)] by metis
    have "j < 2 ^ s" using u(2) Cons.prems(4) [of u] by (auto split: if_splits)
    then have "(u * 2 ^ s + j) div 2 ^ s = u" by simp
    moreover have "(t * 2 ^ s + k t) div 2 ^ s = t" using kt by simp
    ultimately have "u = t" using u(3) by simp
    with u(1,3) show False by simp
  qed
  have "\<exists>u j. u < length a \<and> k u \<le> j \<and> j < k u + count_list (t # ts) u \<and> unat x = u * 2 ^ s + j"
    if "x \<in> set ids" for x
  proof (cases "x \<in> set ids1")
    case True
    then show ?thesis using IH(2) [OF True] by (fastforce split: if_splits)
  next
    case False
    then have "x = a ! t" using that run(2) by simp
    then show ?thesis using run(1) Cons.prems(3) [OF run(1)]
      by (intro exI [of _ t] exI [of _ "k t"]) simp
  qed
  with fresh IH(1) run(2) show ?case by simp
qed

lemma uid_init_array:
  assumes "1 \<le> unat n" and "unat n \<le> 2 ^ 63" and "uid_init n uid_new = Inr g"
  obtains a s where "curr_ids g = Some a" and "uid_loop (n - 1) 64 1 = (int s, of_nat (length a))"
    and "unat n \<le> length a" and "length a \<le> 2 * unat n" and "length a * 2 ^ s = 2 ^ 64"
    and "\<And>t. t < length a \<Longrightarrow> unat (a ! t) = t * 2 ^ s"
proof -
  have "(1 :: u64) \<le> n" using assms(1) by (simp add: word_le_nat_alt)
  then have n1: "unat (n - 1) = unat n - 1" by (simp add: unat_dec)
  have "unat (1 :: u64) * unat (n - 1) < 2 ^ 63" using assms(1,2) n1 by simp
  from uid_loop_spec [OF this, of 64]
  obtain k where k: "uid_loop (n - 1) 64 1 = (64 - int k, push_bit k 1)" "unat n - 1 < 2 ^ k"
      "n - 1 \<noteq> 0 \<longrightarrow> 2 ^ k \<le> 2 * unat (n - 1)" "n - 1 = 0 \<longrightarrow> k = 0"
    unfolding n1 by blast
  have k64: "k < 64"
  proof (rule ccontr)
    assume "\<not> k < 64"
    then have "(2 :: nat) ^ 64 \<le> 2 ^ k" by (intro power_increasing) auto
    moreover have "n - 1 \<noteq> 0" using k(4) \<open>\<not> k < 64\<close> by auto
    ultimately have "2 ^ 64 \<le> 2 * (unat n - 1)" using k(3) n1 by simp
    with assms(2) show False by simp
  qed
  then have "(2 :: nat) ^ k < 2 ^ 64" by (intro power_strict_increasing) auto
  then have mx: "unat (push_bit k 1 :: u64) = 2 ^ k" using unat_push_bit_less [of 1 k] by simp
  let ?a = "map (\<lambda>i. push_bit (nat (64 - int k)) (of_nat i)) [0..<2 ^ k] :: u64 list"
  have sh: "nat (64 - int k) = 64 - k" by simp
  have g: "curr_ids g = Some ?a"
    using assms(3) k(1) mx by (auto simp: uid_init_def uid_new_def split: if_splits)
  have pw: "2 ^ k * 2 ^ (64 - k) = (2 :: nat) ^ 64" using k64 by (simp flip: power_add)
  have cell: "unat (?a ! t) = t * 2 ^ (64 - k)" if "t < length ?a" for t
  proof -
    have t: "t < 2 ^ k" using that by simp
    also have "(2 :: nat) ^ k \<le> 2 ^ 64" using k64 by (intro power_increasing) auto
    finally have ut: "unat (of_nat t :: u64) = t" by (simp add: unat_of_nat)
    have "t * 2 ^ (64 - k) < 2 ^ k * 2 ^ (64 - k)" using t by simp
    then have "unat (of_nat t :: u64) * 2 ^ (64 - k) < 2 ^ 64" using pw ut by simp
    then have "unat (push_bit (64 - k) (of_nat t :: u64)) = t * 2 ^ (64 - k)"
      using unat_push_bit_less [of "of_nat t" "64 - k"] ut by simp
    then show ?thesis using t sh by simp
  qed
  show ?thesis
  proof (rule that [OF g])
    show "uid_loop (n - 1) 64 1 = (int (64 - k), of_nat (length ?a))"
      using k(1) k64 by (simp add: push_bit_eq_mult of_nat_diff)
    show "unat n \<le> length ?a" using k(2) by simp
    show "length ?a \<le> 2 * unat n"
    proof (cases "n - 1 = 0")
      case True
      with k(4) assms(1) show ?thesis by simp
    next
      case False
      with k(3) have "2 ^ k \<le> 2 * (unat n - 1)" unfolding n1 by blast
      then have "2 ^ k \<le> 2 * unat n" by linarith
      then show ?thesis by simp
    qed
    show "length ?a * 2 ^ (64 - k) = 2 ^ 64" using pw by simp
  qed (rule cell)
qed

section \<open>FixedCircBuffer\<close>

record 'a fcb =
  fcb_cap :: u64
  fcb_pushed :: u64
  fcb_popped :: u64
  fcb_payloads :: "'a list"

definition fcb_new :: "u64 \<Rightarrow> 'a \<Rightarrow> 'a fcb" where
  "fcb_new c v = \<lparr>fcb_cap = c, fcb_pushed = 0, fcb_popped = 0, fcb_payloads = replicate (unat c) v\<rparr>"

text \<open>
  \<^verbatim>\<open>push\<close>: when the buffer is full its oldest entry is consumed by \<^verbatim>\<open>func\<close> and popped. The first
  component of the result lists the consumed entries. A capacity of 0 divides by zero.
\<close>

definition fcb_push :: "'a \<Rightarrow> 'a fcb \<Rightarrow> ('a list \<times> 'a fcb) res" where
  "fcb_push x b =
     (let curr_pushed = fcb_pushed b; curr_popped = fcb_popped b in
      rassert (curr_pushed \<le> curr_popped + fcb_cap b)
       (if fcb_cap b = 0 then Inl BadAccess
        else
          let (consumed, b1) =
                (if curr_pushed = curr_popped + fcb_cap b
                 then ([fcb_payloads b ! (unat curr_popped mod unat (fcb_cap b))],
                       b\<lparr>fcb_popped := curr_popped + 1\<rparr>)
                 else ([], b))
          in Inr (consumed,
                  b1\<lparr>fcb_payloads := (fcb_payloads b)[unat curr_pushed mod unat (fcb_cap b) := x],
                     fcb_pushed := curr_pushed + 1\<rparr>)))"

definition fcb_try_pop :: "'a fcb \<Rightarrow> ('a option \<times> 'a fcb) res" where
  "fcb_try_pop b =
     (let curr_popped = fcb_popped b; curr_pushed = fcb_pushed b in
      rassert (curr_popped \<le> curr_pushed)
       (if curr_popped = curr_pushed then Inr (None, b)
        else Inr (Some (fcb_payloads b ! (unat curr_popped mod unat (fcb_cap b))),
                  b\<lparr>fcb_popped := curr_popped + 1\<rparr>)))"

text \<open>The loop \<^verbatim>\<open>while (i < end) {func(payloads[i].ui); i++;}\<close>.\<close>

definition fcb_scan :: "'a list \<Rightarrow> nat \<Rightarrow> nat \<Rightarrow> 'a list" where
  "fcb_scan ps i j = map (\<lambda>k. ps ! k) [i..<j]"

definition fcb_pop_all :: "'a fcb \<Rightarrow> ('a list \<times> 'a fcb) res" where
  "fcb_pop_all b =
     (let curr_popped = fcb_popped b; curr_pushed = fcb_pushed b in
      rassert (curr_popped \<le> curr_pushed)
       (if curr_popped = curr_pushed then Inr ([], b)
        else
          let c = unat (fcb_cap b);
              i = unat curr_popped mod c;
              e = (i + unat (curr_pushed - curr_popped)) mod c;
              consumed = (if e \<le> i
                          then fcb_scan (fcb_payloads b) i c @ fcb_scan (fcb_payloads b) 0 e
                          else fcb_scan (fcb_payloads b) i e)
          in Inr (consumed, b\<lparr>fcb_popped := curr_pushed\<rparr>)))"

definition fcb_clear :: "'a fcb \<Rightarrow> 'a fcb" where
  "fcb_clear b = b\<lparr>fcb_pushed := 0, fcb_popped := 0\<rparr>"

text \<open>Invariant and abstraction: the queue of entries between the two counters.\<close>

definition fcb_inv :: "'a fcb \<Rightarrow> bool" where
  "fcb_inv b \<longleftrightarrow> fcb_cap b \<noteq> 0 \<and> length (fcb_payloads b) = unat (fcb_cap b)
     \<and> unat (fcb_popped b) \<le> unat (fcb_pushed b)
     \<and> unat (fcb_pushed b) \<le> unat (fcb_popped b) + unat (fcb_cap b)"

definition fcb_room :: "'a fcb \<Rightarrow> bool" where
  "fcb_room b \<longleftrightarrow> unat (fcb_pushed b) + unat (fcb_cap b) < 2 ^ 64"

definition fcb_contents :: "'a fcb \<Rightarrow> 'a list" where
  "fcb_contents b = map (\<lambda>k. fcb_payloads b ! (k mod unat (fcb_cap b)))
                        [unat (fcb_popped b)..<unat (fcb_pushed b)]"

lemma length_fcb_contents:
  "length (fcb_contents b) = unat (fcb_pushed b) - unat (fcb_popped b)"
  by (simp add: fcb_contents_def)

lemma fcb_new_inv: "c \<noteq> 0 \<Longrightarrow> fcb_inv (fcb_new c v) \<and> fcb_contents (fcb_new c v) = []"
  by (simp add: fcb_new_def fcb_inv_def fcb_contents_def)

lemma mod_inj_window:
  fixes j k c :: nat
  assumes "j mod c = k mod c" and "j < k + c" and "k < j + c"
  shows "j = k"
proof -
  obtain p q where "j = c * p + j mod c" and "k = c * q + k mod c"
    by (metis mult_div_mod_eq)
  moreover have "p = q"
  proof (rule ccontr)
    assume "p \<noteq> q"
    then consider "Suc p \<le> q" | "Suc q \<le> p" by linarith
    then show False
    proof cases
      case 1
      then have "c * Suc p \<le> c * q" by (rule mult_le_mono2)
      with calculation assms show False by simp
    next
      case 2
      then have "c * Suc q \<le> c * p" by (rule mult_le_mono2)
      with calculation assms show False by simp
    qed
  qed
  ultimately show ?thesis using assms(1) by metis
qed

lemma fcb_push_spec:
  assumes inv: "fcb_inv b" and room: "fcb_room b"
  shows "\<exists>consumed b'. fcb_push x b = Inr (consumed, b') \<and> fcb_inv b'
           \<and> fcb_cap b' = fcb_cap b \<and> fcb_pushed b' = fcb_pushed b + 1
           \<and> consumed @ fcb_contents b' = fcb_contents b @ [x]
           \<and> length consumed = (if length (fcb_contents b) = unat (fcb_cap b) then 1 else 0)"
proof -
  let ?P = "unat (fcb_pushed b)" and ?O = "unat (fcb_popped b)" and ?c = "unat (fcb_cap b)"
  let ?ps = "(fcb_payloads b)[?P mod ?c := x]"
  from inv have c: "0 < ?c" "length (fcb_payloads b) = ?c" "?O \<le> ?P" "?P \<le> ?O + ?c"
    by (auto simp: fcb_inv_def unat_gt_0)
  from room c have sum: "unat (fcb_popped b + fcb_cap b) = ?O + ?c"
    and inc: "unat (fcb_pushed b + 1) = Suc ?P"
    using unat_add_small [of "fcb_popped b" "fcb_cap b"] unat_add_num [of "fcb_pushed b" 1]
    by (auto simp: fcb_room_def)
  have asrt: "fcb_pushed b \<le> fcb_popped b + fcb_cap b"
    using c(4) sum by (simp add: word_le_nat_alt)
  have full: "fcb_pushed b = fcb_popped b + fcb_cap b \<longleftrightarrow> ?P = ?O + ?c"
    by (simp add: word_unat_eq_iff sum)
  have keep: "?ps ! (k mod ?c) = fcb_payloads b ! (k mod ?c)" if "?P < k + ?c" "k < ?P" for k
    using that mod_inj_window [of k ?c ?P] by (metis nat_less_le nth_list_update_neq trans_less_add1)
  have new: "?ps ! (?P mod ?c) = x" using c by simp
  show ?thesis
  proof (cases "?P = ?O + ?c")
    case True
    then have lt: "?O < ?P" using c(1) by simp
    have inc2: "unat (fcb_popped b + 1) = Suc ?O"
      using unat_add_num [of "fcb_popped b" 1] lt unat_bound [of "fcb_pushed b"] by simp
    let ?b' = "b\<lparr>fcb_popped := fcb_popped b + 1, fcb_payloads := ?ps, fcb_pushed := fcb_pushed b + 1\<rparr>"
    have "fcb_push x b = Inr ([fcb_payloads b ! (?O mod ?c)], ?b')"
      using asrt full True c(1) by (simp add: fcb_push_def Let_def unat_gt_0)
    moreover have "fcb_inv ?b'" using c inc inc2 True by (simp add: fcb_inv_def unat_gt_0)
    moreover have "[fcb_payloads b ! (?O mod ?c)] @ fcb_contents ?b' = fcb_contents b @ [x]"
    proof -
      have "fcb_contents ?b' = map (\<lambda>k. ?ps ! (k mod ?c)) [Suc ?O..<?P] @ [x]"
        using lt new by (simp add: fcb_contents_def inc inc2)
      moreover have "map (\<lambda>k. ?ps ! (k mod ?c)) [Suc ?O..<?P]
          = map (\<lambda>k. fcb_payloads b ! (k mod ?c)) [Suc ?O..<?P]"
        using keep True by (intro map_cong) auto
      moreover have "fcb_contents b
          = fcb_payloads b ! (?O mod ?c) # map (\<lambda>k. fcb_payloads b ! (k mod ?c)) [Suc ?O..<?P]"
        using lt by (simp add: fcb_contents_def upt_conv_Cons)
      ultimately show ?thesis by simp
    qed
    ultimately show ?thesis using True by (simp add: length_fcb_contents)
  next
    case False
    let ?b' = "b\<lparr>fcb_payloads := ?ps, fcb_pushed := fcb_pushed b + 1\<rparr>"
    have "fcb_push x b = Inr ([], ?b')"
      using asrt full False c(1) by (simp add: fcb_push_def Let_def unat_gt_0)
    moreover have "fcb_inv ?b'" using c inc False by (simp add: fcb_inv_def unat_gt_0)
    moreover have "fcb_contents ?b' = fcb_contents b @ [x]"
    proof -
      have "map (\<lambda>k. ?ps ! (k mod ?c)) [?O..<?P] = map (\<lambda>k. fcb_payloads b ! (k mod ?c)) [?O..<?P]"
        using keep False c(4) by (intro map_cong) auto
      then show ?thesis using c(3) new by (simp add: fcb_contents_def inc)
    qed
    ultimately show ?thesis using False c(3,4) by (simp add: length_fcb_contents)
  qed
qed

lemma mod_below_double: "m < 2 * c \<Longrightarrow> m mod c = (if m < c then m else m - c)" for m c :: nat
  using le_mod_geq [of c m] by auto

text \<open>The indices of a window of a ring, unrolled at the end of the array.\<close>

lemma ring_window:
  fixes c n p :: nat
  assumes "0 < c" and "n \<le> c"
  shows "map (\<lambda>k. k mod c) [p..<p + n] =
     (if p mod c + n < c then [p mod c..<p mod c + n] else [p mod c..<c] @ [0..<p mod c + n - c])"
proof -
  let ?i = "p mod c"
  have "?i < c" using assms(1) by simp
  have el: "(p + k) mod c = (if ?i + k < c then ?i + k else ?i + k - c)" if "k < n" for k
  proof -
    have "(p + k) mod c = (?i + k) mod c" by (simp add: mod_add_left_eq)
    moreover have "?i + k < 2 * c" using \<open>?i < c\<close> that assms(2) by linarith
    ultimately show ?thesis by (simp add: mod_below_double)
  qed
  show ?thesis
  proof (rule nth_equalityI)
    show "length (map (\<lambda>k. k mod c) [p..<p + n]) = length (if ?i + n < c then [?i..<?i + n]
        else [?i..<c] @ [0..<?i + n - c])" using \<open>?i < c\<close> by auto
    show "map (\<lambda>k. k mod c) [p..<p + n] ! k = (if ?i + n < c then [?i..<?i + n]
        else [?i..<c] @ [0..<?i + n - c]) ! k" if "k < length (map (\<lambda>k. k mod c) [p..<p + n])" for k
      using that el [of k] \<open>?i < c\<close> by (auto simp: nth_append)
  qed
qed

lemma fcb_pop_all_spec:
  assumes inv: "fcb_inv b"
  shows "\<exists>b'. fcb_pop_all b = Inr (fcb_contents b, b') \<and> fcb_inv b' \<and> fcb_contents b' = []
           \<and> fcb_cap b' = fcb_cap b \<and> fcb_pushed b' = fcb_pushed b"
proof -
  let ?P = "unat (fcb_pushed b)" and ?O = "unat (fcb_popped b)" and ?c = "unat (fcb_cap b)"
  let ?b' = "b\<lparr>fcb_popped := fcb_pushed b\<rparr>"
  from inv have c: "0 < ?c" "length (fcb_payloads b) = ?c" "?O \<le> ?P" "?P \<le> ?O + ?c"
    by (auto simp: fcb_inv_def unat_gt_0)
  have le: "fcb_popped b \<le> fcb_pushed b" using c(3) by (simp add: word_le_nat_alt)
  have inv': "fcb_inv ?b'" "fcb_contents ?b' = []"
    using inv by (auto simp: fcb_inv_def fcb_contents_def)
  show ?thesis
  proof (cases "?O = ?P")
    case True
    then have "fcb_popped b = fcb_pushed b" by (simp add: word_unat_eq_iff)
    then show ?thesis using inv by (simp add: fcb_pop_all_def fcb_contents_def)
  next
    case False
    let ?i = "?O mod ?c" and ?n = "?P - ?O"
    have n: "0 < ?n" "?n \<le> ?c" "?P = ?O + ?n" using c False by auto
    have i: "?i < ?c" using c(1) by simp
    have diff: "unat (fcb_pushed b - fcb_popped b) = ?n" using le by (simp add: unat_dec)
    have cont: "fcb_contents b = map ((!) (fcb_payloads b)) (map (\<lambda>k. k mod ?c) [?O..<?O + ?n])"
      using n(3) by (simp add: fcb_contents_def comp_def)
    have e: "(?i + ?n) mod ?c = (if ?i + ?n < ?c then ?i + ?n else ?i + ?n - ?c)"
      using i n(2) by (intro mod_below_double) linarith
    have "(let e = (?i + ?n) mod ?c in if e \<le> ?i
            then fcb_scan (fcb_payloads b) ?i ?c @ fcb_scan (fcb_payloads b) 0 e
            else fcb_scan (fcb_payloads b) ?i e) = fcb_contents b"
      unfolding cont ring_window [OF c(1) n(2)] Let_def e
      using i n by (auto simp: fcb_scan_def)
    then show ?thesis using False le inv' diff
      by (auto simp: fcb_pop_all_def Let_def)
  qed
qed

lemma fcb_try_pop_spec:
  assumes inv: "fcb_inv b"
  shows "(fcb_contents b = [] \<longrightarrow> fcb_try_pop b = Inr (None, b))
    \<and> (\<forall>x xs. fcb_contents b = x # xs \<longrightarrow>
         (\<exists>b'. fcb_try_pop b = Inr (Some x, b') \<and> fcb_inv b' \<and> fcb_contents b' = xs))"
proof (intro conjI impI allI)
  assume "fcb_contents b = []"
  with inv have "fcb_popped b = fcb_pushed b"
    by (auto simp: fcb_contents_def fcb_inv_def word_unat_eq_iff)
  then show "fcb_try_pop b = Inr (None, b)" by (simp add: fcb_try_pop_def)
next
  fix x xs
  assume cs: "fcb_contents b = x # xs"
  let ?P = "unat (fcb_pushed b)" and ?O = "unat (fcb_popped b)"
  have lt: "?O < ?P" using length_fcb_contents [of b] cs by simp
  then have ne: "fcb_popped b \<noteq> fcb_pushed b" "fcb_popped b \<le> fcb_pushed b"
    by (auto simp: word_le_nat_alt)
  have inc: "unat (fcb_popped b + 1) = Suc ?O"
    using unat_add_num [of "fcb_popped b" 1] lt unat_bound [of "fcb_pushed b"] by simp
  have hd: "x = fcb_payloads b ! (?O mod unat (fcb_cap b))"
      "xs = map (\<lambda>k. fcb_payloads b ! (k mod unat (fcb_cap b))) [Suc ?O..<?P]"
    using cs lt by (simp_all add: fcb_contents_def upt_conv_Cons)
  show "\<exists>b'. fcb_try_pop b = Inr (Some x, b') \<and> fcb_inv b' \<and> fcb_contents b' = xs"
    using ne inv lt hd by (simp add: fcb_try_pop_def Let_def fcb_inv_def fcb_contents_def inc)
qed

section \<open>FixedHashSet\<close>

text \<open>A null pointer marks an empty cell; \<^verbatim>\<open>last_pop\<close> is an \<^verbatim>\<open>int\<close> that wraps.\<close>

record hashset =
  hs_payloads :: "addr list"
  hs_last_pop :: "32 word"

definition hs_new :: "nat \<Rightarrow> hashset" where
  "hs_new c = \<lparr>hs_payloads = replicate c 0, hs_last_pop = 0\<rparr>"

definition hs_idx :: "hashset \<Rightarrow> addr \<Rightarrow> nat" where
  "hs_idx h x = unat (drop_bit 6 x) mod length (hs_payloads h)"

definition hs_push :: "addr \<Rightarrow> hashset \<Rightarrow> (addr list \<times> hashset) res" where
  "hs_push x h =
     rbind (rnth (hs_payloads h) (hs_idx h x)) (\<lambda>e.
       if e = x then Inr ([], h)
       else Inr (if e \<noteq> 0 then [e] else [],
                 h\<lparr>hs_payloads := (hs_payloads h)[hs_idx h x := x]\<rparr>))"

definition hs_try_pop :: "hashset \<Rightarrow> (addr option \<times> hashset) res" where
  "hs_try_pop h =
     (let v = sint (hs_last_pop h);
          idx = (if 0 \<le> v then v mod int (length (hs_payloads h))
                 else - ((- v) mod int (length (hs_payloads h))));
          h1 = h\<lparr>hs_last_pop := hs_last_pop h + 1\<rparr>
      in if idx < 0 then Inl BadAccess
         else rbind (rnth (hs_payloads h) (nat idx)) (\<lambda>e.
           if e = 0 then Inr (None, h1)
           else Inr (Some e, h1\<lparr>hs_payloads := (hs_payloads h)[nat idx := 0]\<rparr>)))"

text \<open>\<^verbatim>\<open>pop_all\<close> consumes every entry and, as the source notes, leaves them in place.\<close>

definition hs_pop_all :: "hashset \<Rightarrow> addr list" where
  "hs_pop_all h = filter (\<lambda>e. e \<noteq> 0) (hs_payloads h)"

definition hs_clear :: "hashset \<Rightarrow> hashset" where
  "hs_clear h = h\<lparr>hs_payloads := map (\<lambda>_. 0) (hs_payloads h)\<rparr>"

definition hs_entries :: "hashset \<Rightarrow> addr set" where
  "hs_entries h = set (hs_payloads h) - {0}"

lemma hs_push_spec:
  assumes "hs_payloads h \<noteq> []"
  shows "\<exists>consumed h'. hs_push x h = Inr (consumed, h')
           \<and> length (hs_payloads h') = length (hs_payloads h)
           \<and> insert x (hs_entries h) - {0} = hs_entries h' \<union> set consumed
           \<and> (x \<noteq> 0 \<longrightarrow> x \<in> hs_entries h')"
proof -
  obtain i where i: "hs_idx h x = i" "i < length (hs_payloads h)"
    using assms by (simp add: hs_idx_def)
  obtain ps where ps: "hs_payloads h = ps" by simp
  define e where "e = ps ! i"
  have e: "e \<in> set ps" using i(2) ps by (simp add: e_def)
  show ?thesis
  proof (cases "e = x")
    case True
    then have "hs_push x h = Inr ([], h)" using i ps by (simp add: hs_push_def e_def)
    then show ?thesis using True e ps by (auto simp: hs_entries_def)
  next
    case False
    obtain ps' where ps': "ps' = ps[i := x]" by simp
    have push: "hs_push x h = Inr (if e \<noteq> 0 then [e] else [], h\<lparr>hs_payloads := ps'\<rparr>)"
      using False i ps ps' by (simp add: hs_push_def e_def)
    have "set ps' \<union> {e} = insert x (set ps)"
      using update_set_union [of i ps x] i(2) ps by (simp add: ps' e_def)
    moreover have "x \<in> set ps'" using i(2) ps in_set_updateI by (simp add: ps')
    moreover have "length ps' = length ps" by (simp add: ps')
    ultimately show ?thesis using push ps by (auto simp: hs_entries_def)
  qed
qed

section \<open>PerThreadVector\<close>

text \<open>One vector per thread; popping takes the last element first.\<close>

type_synonym 'a ptv = "'a list list"

definition ptv_new :: "nat \<Rightarrow> 'a ptv" where
  "ptv_new task_num = replicate task_num []"

definition ptv_push :: "'a \<Rightarrow> nat \<Rightarrow> 'a ptv \<Rightarrow> 'a ptv res" where
  "ptv_push x tid v = rbind (rnth v tid) (\<lambda>b. Inr (v[tid := b @ [x]]))"

definition ptv_pop_all :: "'a ptv \<Rightarrow> 'a list \<times> 'a ptv" where
  "ptv_pop_all v = (concat (map rev v), map (\<lambda>_. []) v)"

definition ptv_pop_all_local :: "nat \<Rightarrow> 'a ptv \<Rightarrow> ('a list \<times> 'a ptv) res" where
  "ptv_pop_all_local tid v = rbind (rnth v tid) (\<lambda>b. Inr (rev b, v[tid := []]))"

definition ptv_try_pop_local :: "nat \<Rightarrow> 'a ptv \<Rightarrow> ('a option \<times> 'a ptv) res" where
  "ptv_try_pop_local tid v =
     rbind (rnth v tid) (\<lambda>b. if b = [] then Inr (None, v)
                             else Inr (Some (last b), v[tid := butlast b]))"

definition ptv_clear :: "'a ptv \<Rightarrow> 'a ptv" where
  "ptv_clear v = map (\<lambda>_. []) v"

section \<open>Properties\<close>

lemma uid_run_total:
  "curr_ids g = Some a \<Longrightarrow> \<forall>t \<in> set ts. t < length a \<Longrightarrow> \<exists>ids g'. uid_run ts g = Inr (ids, g') \<and> length ids = length ts"
proof (induction ts arbitrary: g a)
  case (Cons t ts)
  let ?g = "g\<lparr>curr_ids := Some (a[t := a ! t + 1])\<rparr>"
  obtain ids g' where "uid_run ts ?g = Inr (ids, g')" "length ids = length ts"
    using Cons.IH [of ?g "a[t := a ! t + 1]"] Cons.prems by auto
  with Cons.prems show ?case by (simp add: uid_get_id_def rnth_def)
qed simp

text \<open>
  C29.  Once initialised for n threads the generator gives out pairwise different identifiers, in
  whatever order the threads call it, as long as each thread takes fewer than about 2^63 / n of
  them; no call fails.  (For n = 1 the code shifts a 64-bit value by 64, which C++ leaves undefined.)
\<close>

theorem uid_distinct:
  assumes "2 \<le> unat n" "unat n \<le> 2 ^ 63" "uid_init n uid_new = Inr g"
    and "\<forall>t \<in> set ts. t < unat n" "\<forall>t. count_list ts t * unat n < 2 ^ 63"
  shows "\<exists>ids g'. uid_run ts g = Inr (ids, g') \<and> length ids = length ts \<and> distinct ids"
proof -
  have n1: "1 \<le> unat n" using assms(1) by simp
  obtain a s where a: "curr_ids g = Some a" "uid_loop (n - 1) 64 1 = (int s, of_nat (length a))"
      "unat n \<le> length a" "length a \<le> 2 * unat n" "length a * 2 ^ s = 2 ^ 64"
      "\<And>t. t < length a \<Longrightarrow> unat (a ! t) = t * 2 ^ s"
    by (rule uid_init_array [OF n1 assms(2,3)], rule that) assumption+
  have "\<forall>t \<in> set ts. t < length a" using assms(4) a(3) by (meson order_less_le_trans)
  from uid_run_total [OF a(1) this] obtain ids g' where run: "uid_run ts g = Inr (ids, g')" "length ids = length ts"
    by blast
  have "0 + count_list ts t < 2 ^ s" for t
  proof -
    have "count_list ts t * length a \<le> count_list ts t * (2 * unat n)" using a(4) by (rule mult_le_mono2)
    also have "\<dots> = 2 * (count_list ts t * unat n)" by simp
    also have "\<dots> < 2 ^ 64" using assms(5) [rule_format, of t] by (simp add: mult.commute)
    finally have "count_list ts t * length a < 2 ^ s * length a" using a(5) by (simp add: mult.commute)
    then show ?thesis by simp
  qed
  with uid_run_blocks [OF a(1) run(1), of s "\<lambda>_. 0"] a(5,6) have "distinct ids" by simp
  with run show ?thesis by blast
qed

theorem uid_distinct_witness:
  "\<exists>g ids g'. uid_init 3 uid_new = Inr g \<and> uid_run [0, 2, 0, 1, 2] g = Inr (ids, g') \<and> distinct ids"
proof -
  have "uid_loop 2 64 1 = (62, 4)" by (simp add: uid_loop.simps drop_bit_Suc push_bit_Suc)
  then obtain g where g: "uid_init 3 uid_new = Inr g" by (simp add: uid_init_def uid_new_def)
  have "\<forall>t \<in> set [0, 2, 0, 1, 2]. t < unat (3 :: u64)" by simp
  moreover have "count_list [0, 2, 0, 1, 2] t * unat (3 :: u64) < 2 ^ 63" for t :: nat
  proof -
    have "count_list [0, 2, 0, 1, 2] t \<le> 5" using count_le_length [of "[0, 2, 0, 1, 2]" t] by simp
    then show ?thesis by simp
  qed
  ultimately show ?thesis using uid_distinct [OF _ _ g, of "[0, 2, 0, 1, 2]"] g by auto
qed

text \<open>Pushing a list of values: what the callback consumes, in order, and the buffer.\<close>

fun fcb_push_list :: "'a list \<Rightarrow> 'a fcb \<Rightarrow> ('a list \<times> 'a fcb) res" where
  "fcb_push_list [] b = Inr ([], b)"
| "fcb_push_list (x # xs) b =
     rbind (fcb_push x b) (\<lambda>(cs, b1). rbind (fcb_push_list xs b1) (\<lambda>(ds, b2). Inr (cs @ ds, b2)))"

lemma fcb_push_list_spec:
  assumes "fcb_inv b" "unat (fcb_pushed b) + unat (fcb_cap b) + length xs \<le> 2 ^ 64"
  shows "\<exists>cs b'. fcb_push_list xs b = Inr (cs, b') \<and> fcb_inv b' \<and> fcb_cap b' = fcb_cap b
    \<and> cs @ fcb_contents b' = fcb_contents b @ xs"
  using assms
proof (induction xs arbitrary: b)
  case (Cons x xs)
  have room: "fcb_room b" using Cons.prems(2) by (simp add: fcb_room_def)
  from fcb_push_spec [OF Cons.prems(1) room, of x] obtain cs b1 where
    b1: "fcb_push x b = Inr (cs, b1)" "fcb_inv b1" "fcb_cap b1 = fcb_cap b" "fcb_pushed b1 = fcb_pushed b + 1"
      "cs @ fcb_contents b1 = fcb_contents b @ [x]" by blast
  have "0 < unat (fcb_cap b)" using Cons.prems(1) by (simp add: fcb_inv_def unat_gt_0)
  then have "unat (fcb_pushed b1) = Suc (unat (fcb_pushed b))"
    using Cons.prems(2) unat_add_num [of "fcb_pushed b" 1] by (simp add: b1(4))
  then obtain ds b2 where "fcb_push_list xs b1 = Inr (ds, b2)" "fcb_inv b2" "fcb_cap b2 = fcb_cap b1"
      "ds @ fcb_contents b2 = fcb_contents b1 @ xs"
    using Cons.IH [OF b1(2)] Cons.prems(2) b1(3) by auto
  with b1 have "(cs @ ds) @ fcb_contents b2 = fcb_contents b @ x # xs" by (metis append_Cons append_Nil append_assoc)
  with b1 \<open>fcb_push_list xs b1 = Inr (ds, b2)\<close> \<open>fcb_inv b2\<close> \<open>fcb_cap b2 = fcb_cap b1\<close> show ?case by simp
qed simp

text \<open>
  C28.  A fixed circular buffer that is pushed a list of values and then drained hands every value
  to the callback exactly once and in order: those it evicted because it was full, then those
  left in the ring.  Nothing is lost when the indices wrap around the ring.
\<close>

theorem FixedCircBuffer_hands_out_all:
  assumes "c \<noteq> 0" "unat c + length xs \<le> 2 ^ 64"
  shows "\<exists>cs b ds b'. fcb_push_list xs (fcb_new c v) = Inr (cs, b) \<and> fcb_pop_all b = Inr (ds, b')
    \<and> cs @ ds = xs \<and> fcb_contents b' = []"
proof -
  have "fcb_inv (fcb_new c v)" "fcb_contents (fcb_new c v) = []" using fcb_new_inv [OF assms(1), of v] by simp_all
  with fcb_push_list_spec [of "fcb_new c v" xs] assms(2) obtain cs b where
    b: "fcb_push_list xs (fcb_new c v) = Inr (cs, b)" "fcb_inv b" "cs @ fcb_contents b = xs"
    by (auto simp: fcb_new_def)
  with fcb_pop_all_spec [OF b(2)] show ?thesis by blast
qed

theorem FixedCircBuffer_hands_out_all_witness:
  "\<exists>cs b ds b'. fcb_push_list [1, 2, 3] (fcb_new 2 (0 :: nat)) = Inr (cs, b) \<and> fcb_pop_all b = Inr (ds, b')
    \<and> cs @ ds = [1, 2, 3] \<and> fcb_contents b' = []"
  using FixedCircBuffer_hands_out_all [of 2 "[1, 2, 3 :: nat]" 0] by simp

end
