(* ===== verification/Circ_Buffer.thy ===== *)
theory Circ_Buffer
  imports Montage_Prelude
begin

text \<open>
  The growable single-producer single-consumer ring \<^verbatim>\<open>CircBuffer\<close> of
  \<^verbatim>\<open>src/persist/persist_utils.hpp\<close>.  The nodes of all allocated blocks form one ring under
  \<^verbatim>\<open>next_node\<close>; pushing appends to the queue whether or not the ring has to grow, and popping
  removes its first element.
\<close>

section \<open>CircBuffer\<close>

text \<open>
  Nodes live in an array of cells; \<^verbatim>\<open>new Node[cap]\<close> appends a block of fresh consecutive cells,
  so that \<^verbatim>\<open>++p\<close> is the next cell.
\<close>

record 'a cb_node =
  nd_payload :: "'a option"
  nd_next :: "nat option"

record 'a circbuf =
  cb_cap :: nat
  cb_nodes :: "'a cb_node list"
  cb_head :: nat
  cb_tail :: nat
  cb_chunks :: "nat list"

definition nd_empty :: "'a cb_node" where
  "nd_empty = \<lparr>nd_payload = None, nd_next = None\<rparr>"

text \<open>A fresh block of \<^term>\<open>c\<close> nodes whose last node points to \<^term>\<open>h\<close>.\<close>

definition cb_block :: "nat \<Rightarrow> nat \<Rightarrow> 'a cb_node list" where
  "cb_block c h = (replicate c nd_empty)[c - 1 := \<lparr>nd_payload = None, nd_next = Some h\<rparr>]"

definition CIRCBUFFER_DEF_CAP :: nat where
  "CIRCBUFFER_DEF_CAP = 64"

definition cb_new :: "'a circbuf" where
  "cb_new = \<lparr>cb_cap = CIRCBUFFER_DEF_CAP, cb_nodes = cb_block CIRCBUFFER_DEF_CAP 0,
             cb_head = 0, cb_tail = 0, cb_chunks = []\<rparr>"

definition next_node :: "'a cb_node list \<Rightarrow> nat \<Rightarrow> nat" where
  "next_node ns p = (case nd_next (ns ! p) of Some q \<Rightarrow> q | None \<Rightarrow> Suc p)"

definition cb_push :: "'a \<Rightarrow> 'a circbuf \<Rightarrow> 'a circbuf" where
  "cb_push x b =
     (let t = cb_tail b;
          ns = (cb_nodes b)[t := (cb_nodes b ! t)\<lparr>nd_payload := Some x\<rparr>];
          next_tail = next_node ns t
      in if next_tail = cb_head b
         then let new = length ns in
              b\<lparr>cb_nodes := ns[t := (ns ! t)\<lparr>nd_next := Some new\<rparr>] @ cb_block (cb_cap b) (cb_head b),
                cb_chunks := cb_chunks b @ [new],
                cb_cap := 2 * cb_cap b,
                cb_tail := new\<rparr>
         else b\<lparr>cb_nodes := ns, cb_tail := next_tail\<rparr>)"

definition cb_try_pop :: "'a circbuf \<Rightarrow> 'a option \<times> 'a circbuf" where
  "cb_try_pop b =
     (if cb_head b = cb_tail b then (None, b)
      else (nd_payload (cb_nodes b ! cb_head b),
            b\<lparr>cb_head := next_node (cb_nodes b) (cb_head b)\<rparr>))"

definition cb_clear :: "'a circbuf \<Rightarrow> 'a circbuf" where
  "cb_clear b = b\<lparr>cb_head := cb_tail b\<rparr>"

text \<open>
  The nodes form one ring \<^term>\<open>r\<close> under \<^verbatim>\<open>next_node\<close>, starting at the head, with the tail at
  position \<^term>\<open>k\<close>; the queue is the payloads of the nodes before the tail.
\<close>

definition cb_ring :: "'a circbuf \<Rightarrow> nat list \<Rightarrow> nat \<Rightarrow> bool" where
  "cb_ring b r k \<longleftrightarrow> distinct r \<and> set r = {..<length (cb_nodes b)} \<and> cb_cap b = length (cb_nodes b)
     \<and> k < length r \<and> r ! 0 = cb_head b \<and> r ! k = cb_tail b
     \<and> (\<forall>i < length r. next_node (cb_nodes b) (r ! i) = r ! (Suc i mod length r))
     \<and> (\<forall>i < k. nd_payload (cb_nodes b ! (r ! i)) \<noteq> None)"

definition cb_inv :: "'a circbuf \<Rightarrow> bool" where
  "cb_inv b \<longleftrightarrow> (\<exists>r k. cb_ring b r k)"

fun cb_walk :: "nat \<Rightarrow> 'a cb_node list \<Rightarrow> nat \<Rightarrow> nat \<Rightarrow> 'a list" where
  "cb_walk 0 ns p t = []"
| "cb_walk (Suc n) ns p t =
     (if p = t then [] else the (nd_payload (ns ! p)) # cb_walk n ns (next_node ns p) t)"

definition cb_contents :: "'a circbuf \<Rightarrow> 'a list" where
  "cb_contents b = cb_walk (length (cb_nodes b)) (cb_nodes b) (cb_head b) (cb_tail b)"

lemma cb_ring_length: "cb_ring b r k \<Longrightarrow> length r = length (cb_nodes b)"
  by (metis cb_ring_def card_lessThan distinct_card)

lemma cb_walk_ring:
  assumes "cb_ring b r k" and "i \<le> k" and "k - i \<le> n"
  shows "cb_walk n (cb_nodes b) (r ! i) (cb_tail b)
    = map (\<lambda>p. the (nd_payload (cb_nodes b ! p))) (drop i (take k r))"
  using assms(2,3)
proof (induction n arbitrary: i)
  case 0
  then show ?case by simp
next
  case (Suc n)
  from assms(1) have r: "distinct r" "k < length r" "r ! k = cb_tail b"
      "\<And>i. i < length r \<Longrightarrow> next_node (cb_nodes b) (r ! i) = r ! (Suc i mod length r)"
    by (auto simp: cb_ring_def)
  show ?case
  proof (cases "i = k")
    case True
    then show ?thesis using r(3) by simp
  next
    case False
    with Suc.prems have i: "i < k" by simp
    then have "r ! i \<noteq> cb_tail b" using r by (metis less_trans nth_eq_iff_index_eq nat_neq_iff)
    moreover have "next_node (cb_nodes b) (r ! i) = r ! Suc i" using r(2,4) i by simp
    moreover have "drop i (take k r) = r ! i # drop (Suc i) (take k r)"
      using i r(2) by (simp add: Cons_nth_drop_Suc [symmetric])
    ultimately show ?thesis using Suc i by simp
  qed
qed

lemma cb_contents_ring:
  assumes "cb_ring b r k"
  shows "cb_contents b = map (\<lambda>p. the (nd_payload (cb_nodes b ! p))) (take k r)"
proof -
  have "r ! 0 = cb_head b" "k < length r" using assms by (auto simp: cb_ring_def)
  then show ?thesis
    using cb_walk_ring [OF assms, of 0 "length (cb_nodes b)"] cb_ring_length [OF assms]
    by (simp add: cb_contents_def)
qed

lemma nth_neq: "distinct r \<Longrightarrow> i < length r \<Longrightarrow> j < length r \<Longrightarrow> i \<noteq> j \<Longrightarrow> r ! i \<noteq> r ! j"
  by (simp add: nth_eq_iff_index_eq)

lemma cb_block_nth:
  "j < c \<Longrightarrow> cb_block c h ! j = (if Suc j = c then \<lparr>nd_payload = None, nd_next = Some h\<rparr> else nd_empty)"
  by (auto simp: cb_block_def nth_list_update)

lemma length_cb_block [simp]: "length (cb_block c h) = c"
  by (simp add: cb_block_def)

lemma cb_new_ring: "cb_ring (cb_new :: 'a circbuf) [0..<CIRCBUFFER_DEF_CAP] 0"
proof -
  have "next_node (cb_block CIRCBUFFER_DEF_CAP 0 :: 'a cb_node list) i
      = [0..<CIRCBUFFER_DEF_CAP] ! (Suc i mod CIRCBUFFER_DEF_CAP)"
    if "i < CIRCBUFFER_DEF_CAP" for i
  proof (cases "Suc i = CIRCBUFFER_DEF_CAP")
    case True
    then show ?thesis using that by (simp add: next_node_def cb_block_nth)
  next
    case False
    then have "Suc i < CIRCBUFFER_DEF_CAP" using that by simp
    then show ?thesis using that by (simp add: next_node_def cb_block_nth nd_empty_def)
  qed
  then show ?thesis
    by (auto simp: cb_ring_def cb_new_def CIRCBUFFER_DEF_CAP_def)
qed

lemma cb_new_spec: "cb_inv cb_new \<and> cb_contents cb_new = []"
  using cb_new_ring cb_contents_ring [OF cb_new_ring] by (auto simp: cb_inv_def)

lemma cb_push_ring_room:
  fixes x :: 'a
  assumes ring: "cb_ring b r k" and room: "Suc k < length r"
  defines "b' \<equiv> cb_push x b"
  shows "cb_ring b' r (Suc k) \<and> cb_contents b' = cb_contents b @ [x]"
proof -
  let ?ns = "(cb_nodes b)[cb_tail b := (cb_nodes b ! cb_tail b)\<lparr>nd_payload := Some x\<rparr>]"
  from ring have r: "distinct r" "set r = {..<length (cb_nodes b)}" "k < length r"
      "r ! 0 = cb_head b" "r ! k = cb_tail b"
      "\<And>i. i < length r \<Longrightarrow> next_node (cb_nodes b) (r ! i) = r ! (Suc i mod length r)"
    by (auto simp: cb_ring_def)
  have t: "cb_tail b < length (cb_nodes b)" using nth_mem [of k r] r(2,3,5) by simp
  have nx: "next_node ?ns p = next_node (cb_nodes b) p" for p
    using t by (cases "p = cb_tail b") (simp_all add: next_node_def)
  have "next_node ?ns (cb_tail b) = r ! Suc k" using r(5) r(6) [of k] room nx by simp
  moreover have "r ! Suc k \<noteq> cb_head b"
    using nth_neq [OF r(1) room, of 0] r(4) room by (cases r) auto
  ultimately have b': "b' = b\<lparr>cb_nodes := ?ns, cb_tail := r ! Suc k\<rparr>"
    by (simp add: b'_def cb_push_def Let_def)
  have keep: "?ns ! (r ! i) = cb_nodes b ! (r ! i)" if "i < k" for i
    using that nth_neq [OF r(1), of i k] r(3,5) by simp
  have ring': "cb_ring b' r (Suc k)"
    using ring room nx keep t r(5) by (auto simp: cb_ring_def b' less_Suc_eq)
  have "cb_contents b' = map (\<lambda>p. the (nd_payload (?ns ! p))) (take k r @ [r ! k])"
    using cb_contents_ring [OF ring'] r(3) by (simp add: b' take_Suc_conv_app_nth)
  also have "\<dots> = cb_contents b @ [x]"
  proof -
    have "map (\<lambda>p. the (nd_payload (?ns ! p))) (take k r)
        = map (\<lambda>p. the (nd_payload (cb_nodes b ! p))) (take k r)"
      using keep r(3) by (auto simp: in_set_conv_nth)
    then show ?thesis using t r(5) by (simp add: cb_contents_ring [OF ring])
  qed
  finally show ?thesis using ring' by simp
qed

lemma cb_push_ring_full:
  fixes x :: 'a
  assumes ring: "cb_ring b r k" and full: "Suc k = length r"
  defines "b' \<equiv> cb_push x b" and "n \<equiv> length (cb_nodes b)"
  shows "cb_ring b' (r @ [n..<n + n]) n \<and> cb_contents b' = cb_contents b @ [x]"
proof -
  let ?t = "cb_tail b" and ?r = "r @ [n..<n + n]"
  let ?nd = "(cb_nodes b ! ?t)\<lparr>nd_payload := Some x\<rparr>"
  let ?ns = "(cb_nodes b)[?t := ?nd]"
  let ?ms = "(cb_nodes b)[?t := ?nd\<lparr>nd_next := Some n\<rparr>] @ cb_block n (cb_head b)"
  from ring have r: "distinct r" "set r = {..<n}" "cb_cap b = n"
      "r ! 0 = cb_head b" "r ! k = ?t" "length r = n"
      "\<And>i. i < n \<Longrightarrow> next_node (cb_nodes b) (r ! i) = r ! (Suc i mod n)"
      "\<And>i. i < k \<Longrightarrow> nd_payload (cb_nodes b ! (r ! i)) \<noteq> None"
    using cb_ring_length [OF ring] by (auto simp: cb_ring_def n_def)
  have k: "k < n" "Suc k = n" using full r(6) by auto
  have t: "?t < n" using nth_mem [of k r] r(2,5,6) k by simp
  have "next_node ?ns ?t = cb_head b"
    using r(4,5) r(7) [of k] k t by (simp add: next_node_def n_def)
  then have b': "b' = b\<lparr>cb_nodes := ?ms, cb_chunks := cb_chunks b @ [n], cb_cap := 2 * n, cb_tail := n\<rparr>"
    using t r(3) by (simp add: b'_def cb_push_def Let_def n_def)
  have old: "?ms ! (r ! i) = cb_nodes b ! (r ! i)" and ri: "r ! i < n" if "i < k" for i
  proof -
    show "r ! i < n" using nth_mem [of i r] that k r(2,6) by simp
    have "r ! i \<noteq> ?t" using that nth_neq [OF r(1), of i k] k r(5,6) by simp
    then show "?ms ! (r ! i) = cb_nodes b ! (r ! i)"
      using \<open>r ! i < n\<close> by (simp add: nth_append n_def)
  qed
  have nt: "?ms ! ?t = ?nd\<lparr>nd_next := Some n\<rparr>" using t by (simp add: nth_append n_def)
  have nb: "?ms ! (n + j) = cb_block n (cb_head b) ! j" for j
    by (simp add: nth_append n_def)
  have nx: "next_node ?ms (?r ! i) = ?r ! (Suc i mod (n + n))" if "i < n + n" for i
  proof -
    consider (1) "i < k" | (2) "i = k" | (3) j where "i = n + j" "Suc j < n"
      | (4) j where "i = n + j" "Suc j = n"
    proof (cases "i < n")
      case True
      then have "i < k \<or> i = k" using k by arith
      then show ?thesis using 1 2 by blast
    next
      case False
      then obtain j where "i = n + j" using le_Suc_ex by (auto simp: not_less)
      moreover from this have "Suc j < n \<or> Suc j = n" using \<open>i < n + n\<close> by arith
      ultimately show ?thesis using 3 4 by blast
    qed
    then show ?thesis
    proof cases
      case 1
      then have "?r ! i = r ! i" "?r ! (Suc i mod (n + n)) = r ! (Suc i mod n)"
        using k r(6) by (simp_all add: nth_append)
      then show ?thesis using old [OF 1] r(7) [of i] 1 k by (simp add: next_node_def)
    next
      case 2
      then have "?r ! i = ?t" "?r ! (Suc i mod (n + n)) = n"
        using k r(5,6) by (simp_all add: nth_append)
      then show ?thesis using nt by (simp add: next_node_def)
    next
      case 3
      then have "?r ! i = n + j" "?r ! (Suc i mod (n + n)) = Suc (n + j)"
        using r(6) by (simp_all add: nth_append)
      then show ?thesis using 3 by (simp add: next_node_def nb cb_block_nth nd_empty_def)
    next
      case 4
      then have "Suc i mod (n + n) = 0" by (metis add_Suc_right mod_self)
      then have "?r ! i = n + j" "?r ! (Suc i mod (n + n)) = cb_head b"
        using 4 r(4,6) k by (simp_all add: nth_append)
      then show ?thesis using 4 by (simp add: next_node_def nb cb_block_nth)
    qed
  qed
  have pl: "nd_payload (?ms ! (?r ! i)) \<noteq> None" if "i < n" for i
    using that old [of i] r(5,6,8) nt k by (cases "i = k") (auto simp: nth_append)
  have ring': "cb_ring b' ?r n"
  proof -
    have len: "length ?ms = n + n" "length ?r = n + n" using r(6) by (simp_all add: n_def)
    have "distinct ?r" using r(1,2) by (simp add: disjoint_iff)
    moreover have "set ?r = {..<n + n}"
      using r(2) ivl_disj_un_one(2) [of n "n + n"] by simp
    moreover have "?r ! 0 = cb_head b" "?r ! n = n" using r(4,6) k by (simp_all add: nth_append)
    moreover have "\<forall>i < length ?r. next_node ?ms (?r ! i) = ?r ! (Suc i mod length ?r)"
      unfolding len using nx by blast
    moreover have "\<forall>i < n. nd_payload (?ms ! (?r ! i)) \<noteq> None" using pl by blast
    moreover have "n < length ?r" "cb_cap b' = length ?ms" unfolding len b' using k by simp_all
    moreover have "cb_nodes b' = ?ms" "cb_head b' = cb_head b" "cb_tail b' = n" by (simp_all add: b')
    ultimately show ?thesis unfolding cb_ring_def by (simp only: len simp_thms)
  qed
  have "cb_contents b' = map (\<lambda>p. the (nd_payload (?ms ! p))) (take k r @ [r ! k])"
  proof -
    have "take n ?r = take k r @ [r ! k]" using r(6) k by (simp add: take_Suc_conv_app_nth [symmetric])
    then show ?thesis using cb_contents_ring [OF ring'] by (simp add: b')
  qed
  also have "\<dots> = cb_contents b @ [x]"
  proof -
    have "map (\<lambda>p. the (nd_payload (?ms ! p))) (take k r)
        = map (\<lambda>p. the (nd_payload (cb_nodes b ! p))) (take k r)"
      using old k r(6) by (auto simp: in_set_conv_nth)
    then show ?thesis using nt r(5) by (simp add: cb_contents_ring [OF ring])
  qed
  finally show ?thesis using ring' by simp
qed

lemma cb_push_spec:
  assumes "cb_inv b"
  shows "cb_inv (cb_push x b) \<and> cb_contents (cb_push x b) = cb_contents b @ [x]"
proof -
  obtain r k where ring: "cb_ring b r k" using assms by (auto simp: cb_inv_def)
  then have "k < length r" by (simp add: cb_ring_def)
  then consider "Suc k < length r" | "Suc k = length r" by linarith
  then show ?thesis
    using cb_push_ring_room [OF ring] cb_push_ring_full [OF ring] by cases (auto simp: cb_inv_def)
qed

lemma cb_try_pop_spec:
  assumes "cb_inv b"
  shows "cb_try_pop b = (case cb_contents b of [] \<Rightarrow> (None, b)
           | x # _ \<Rightarrow> (Some x, snd (cb_try_pop b)))
       \<and> cb_inv (snd (cb_try_pop b)) \<and> cb_contents (snd (cb_try_pop b)) = tl (cb_contents b)"
proof -
  obtain r k where ring: "cb_ring b r k" using assms by (auto simp: cb_inv_def)
  then have r: "distinct r" "k < length r" "r ! 0 = cb_head b" "r ! k = cb_tail b"
      "set r = {..<length (cb_nodes b)}" "cb_cap b = length (cb_nodes b)"
      "\<And>i. i < length r \<Longrightarrow> next_node (cb_nodes b) (r ! i) = r ! (Suc i mod length r)"
      "\<And>i. i < k \<Longrightarrow> nd_payload (cb_nodes b ! (r ! i)) \<noteq> None"
    by (auto simp: cb_ring_def)
  show ?thesis
  proof (cases k)
    case 0
    then have "cb_head b = cb_tail b" using r by simp
    then show ?thesis using assms 0 cb_contents_ring [OF ring] by (simp add: cb_try_pop_def)
  next
    case (Suc j)
    then have ne: "cb_head b \<noteq> cb_tail b"
      using nth_neq [OF r(1), of 0 k] r(2-4) by (metis Zero_not_Suc less_trans zero_less_Suc)
    obtain h rs where rs: "r = h # rs" using r(2) by (cases r) auto
    let ?b = "b\<lparr>cb_head := next_node (cb_nodes b) (cb_head b)\<rparr>" and ?r = "rs @ [h]"
    have pop: "cb_try_pop b = (nd_payload (cb_nodes b ! h), ?b)"
      using ne r(3) rs by (simp add: cb_try_pop_def)
    have len: "length ?r = length r" by (simp add: rs)
    have pos: "Suc i mod length r < length r" "0 < length r" for i by (simp_all add: rs)
    have nth: "?r ! i = r ! (Suc i mod length r)" if "i < length r" for i
      using that rs by (cases "Suc i = length r") (auto simp: nth_append)
    have "cb_ring ?b ?r j"
      unfolding cb_ring_def
    proof (intro conjI allI impI)
      show "?r ! 0 = cb_head ?b" using pos r(3) r(7) [of 0] nth [of 0] by (simp del: length_greater_0_conv)
      show "?r ! j = cb_tail ?b" using nth [of j] r(2,4) Suc by simp
      show "next_node (cb_nodes ?b) (?r ! i) = ?r ! (Suc i mod length ?r)" if "i < length ?r" for i
      proof -
        have "next_node (cb_nodes b) (?r ! i) = r ! (Suc (Suc i mod length r) mod length r)"
          using that len nth [of i] r(7) [of "Suc i mod length r"] pos by simp
        moreover have "?r ! (Suc i mod length r) = r ! (Suc (Suc i mod length r) mod length r)"
          using nth [of "Suc i mod length r"] pos by simp
        ultimately show ?thesis using len by simp
      qed
      show "nd_payload (cb_nodes ?b ! (?r ! i)) \<noteq> None" if "i < j" for i
        using that nth [of i] r(2) r(8) [of "Suc i"] Suc by simp
    qed (use r Suc rs in auto)
    moreover from this have "cb_contents ?b = tl (cb_contents b)"
      using cb_contents_ring [OF ring] cb_contents_ring [of ?b ?r j] Suc r(2) by (simp add: rs)
    moreover have "cb_contents b = the (nd_payload (cb_nodes b ! h)) # tl (cb_contents b)"
      using cb_contents_ring [OF ring] Suc by (simp add: rs)
    moreover have "nd_payload (cb_nodes b ! h) \<noteq> None" using r(8) [of 0] Suc by (simp add: rs)
    ultimately show ?thesis using pop by (cases "cb_contents b") (auto simp: cb_inv_def)
  qed
qed

section \<open>PerThreadCircBuffer\<close>

text \<open>
  One ring per thread.  The loop \<^verbatim>\<open>while (try_pop(func)) {}\<close> is given as many turns as the ring
  has nodes and one more; running out of turns is the value \<^verbatim>\<open>Diverges\<close>, and \<^verbatim>\<open>cb_drain_spec\<close>
  shows that it is never reached.
\<close>

fun cb_drain :: "nat \<Rightarrow> 'a circbuf \<Rightarrow> ('a list \<times> 'a circbuf) res" where
  "cb_drain 0 b = Inl Diverges"
| "cb_drain (Suc n) b =
     (case cb_try_pop b of
        (None, b1) \<Rightarrow> Inr ([], b1)
      | (Some x, b1) \<Rightarrow> rbind (cb_drain n b1) (\<lambda>(xs, b2). Inr (x # xs, b2)))"

definition cb_pop_all :: "'a circbuf \<Rightarrow> ('a list \<times> 'a circbuf) res" where
  "cb_pop_all b = cb_drain (Suc (length (cb_nodes b))) b"

lemma cb_drain_enough:
  "cb_inv b \<Longrightarrow> length (cb_contents b) < n \<Longrightarrow>
     \<exists>b'. cb_drain n b = Inr (cb_contents b, b') \<and> cb_inv b' \<and> cb_contents b' = []"
proof (induction n arbitrary: b)
  case 0
  then show ?case by simp
next
  case (Suc n)
  show ?case
  proof (cases "cb_contents b")
    case Nil
    then show ?thesis using cb_try_pop_spec [OF Suc.prems(1)] Suc.prems by simp
  next
    case (Cons x xs)
    then obtain b1 where b1: "cb_try_pop b = (Some x, b1)" "cb_inv b1" "cb_contents b1 = xs"
      using cb_try_pop_spec [OF Suc.prems(1)] by (metis list.sel(3) list.simps(5) snd_conv)
    then show ?thesis using Suc.IH [of b1] Suc.prems Cons by auto
  qed
qed

lemma cb_pop_all_spec:
  assumes "cb_inv b"
  shows "\<exists>b'. cb_pop_all b = Inr (cb_contents b, b') \<and> cb_inv b' \<and> cb_contents b' = []"
proof -
  obtain r k where ring: "cb_ring b r k" using assms by (auto simp: cb_inv_def)
  then have "length (cb_contents b) \<le> length (cb_nodes b)"
    using cb_contents_ring [OF ring] cb_ring_length [OF ring] by (simp add: min_def)
  then show ?thesis using cb_drain_enough [OF assms] by (simp add: cb_pop_all_def del: cb_drain.simps)
qed

lemma cb_clear_spec: "cb_inv b \<Longrightarrow> cb_inv (cb_clear b) \<and> cb_contents (cb_clear b) = []"
proof -
  assume "cb_inv b"
  then obtain r k where ring: "cb_ring b r k" by (auto simp: cb_inv_def)
  then have n: "k < length r" "length r = length (cb_nodes b)" using cb_ring_length by (auto simp: cb_ring_def)
  let ?r = "rotate k r"
  have nth: "?r ! i = r ! ((k + i) mod length r)" if "i < length r" for i
    using that by (simp add: nth_rotate)
  have hd: "?r ! 0 = cb_tail b" using nth [of 0] n ring by (cases r) (auto simp: cb_ring_def)
  have "cb_ring (cb_clear b) ?r 0"
    unfolding cb_ring_def
  proof (intro conjI allI impI)
    fix i assume i: "i < length ?r"
    have "(k + Suc i mod length r) mod length r = Suc ((k + i) mod length r) mod length r"
      by (metis add_Suc_right mod_Suc_eq mod_add_right_eq)
    moreover have "?r ! (Suc i mod length r) = r ! ((k + Suc i mod length r) mod length r)"
      using n by (intro nth mod_less_divisor) linarith
    moreover have "(k + i) mod length r < length r" using n by (intro mod_less_divisor) linarith
    ultimately show "next_node (cb_nodes (cb_clear b)) (?r ! i) = ?r ! (Suc i mod length ?r)"
      using i nth [of i] ring by (simp add: cb_ring_def cb_clear_def)
  qed (use ring n hd in \<open>auto simp: cb_ring_def cb_clear_def\<close>)
  then show ?thesis using cb_contents_ring by (fastforce simp: cb_inv_def)
qed

type_synonym 'a ptcb = "'a circbuf list"

definition ptcb_new :: "nat \<Rightarrow> 'a ptcb" where
  "ptcb_new task_num = replicate task_num cb_new"

definition ptcb_push :: "'a \<Rightarrow> nat \<Rightarrow> 'a ptcb \<Rightarrow> 'a ptcb res" where
  "ptcb_push x tid v = rbind (rnth v tid) (\<lambda>b. Inr (v[tid := cb_push x b]))"

fun ptcb_pop_all :: "'a ptcb \<Rightarrow> ('a list \<times> 'a ptcb) res" where
  "ptcb_pop_all [] = Inr ([], [])"
| "ptcb_pop_all (b # bs) =
     rbind (cb_pop_all b) (\<lambda>(xs, b1). rbind (ptcb_pop_all bs) (\<lambda>(ys, bs1). Inr (xs @ ys, b1 # bs1)))"

definition ptcb_pop_all_local :: "nat \<Rightarrow> 'a ptcb \<Rightarrow> ('a list \<times> 'a ptcb) res" where
  "ptcb_pop_all_local tid v =
     rbind (rnth v tid) (\<lambda>b. rbind (cb_pop_all b) (\<lambda>(xs, b1). Inr (xs, v[tid := b1])))"

definition ptcb_try_pop_local :: "nat \<Rightarrow> 'a ptcb \<Rightarrow> ('a option \<times> 'a ptcb) res" where
  "ptcb_try_pop_local tid v =
     rbind (rnth v tid) (\<lambda>b. case cb_try_pop b of (x, b1) \<Rightarrow> Inr (x, v[tid := b1]))"

definition ptcb_clear :: "'a ptcb \<Rightarrow> 'a ptcb" where
  "ptcb_clear v = map cb_clear v"

end
