(* ===== verification/PerThread_Containers.thy ===== *)
theory PerThread_Containers
  imports Container_Specs Persist_Utils Circ_Buffer
begin

text \<open>
  \<^verbatim>\<open>src/persist/PerThreadContainers.hpp\<close>: containers with one buffer per thread for each of the
  \<^verbatim>\<open>EPOCH_WINDOW\<close> epoch slots.  A thread index is a natural number, so the source's
  \<^verbatim>\<open>assert(tid != -1)\<close> holds by typing.  Every container is shown to meet the contract
  \<^verbatim>\<open>epoch_container\<close>.
\<close>

section \<open>CircBufferContainer\<close>

type_synonym 'a cbc = "'a ptcb list"

definition cbc_new :: "nat \<Rightarrow> 'a cbc" where
  "cbc_new task_num = replicate EPOCH_WINDOW (ptcb_new task_num)"

definition cbc_push :: "'a \<Rightarrow> nat \<Rightarrow> u64 \<Rightarrow> 'a cbc \<Rightarrow> 'a cbc res" where
  "cbc_push x tid c k =
     rbind (rnth k (slot c)) (\<lambda>v. rbind (ptcb_push x tid v) (\<lambda>v'. Inr (k[slot c := v'])))"

definition cbc_pop_all :: "u64 \<Rightarrow> 'a cbc \<Rightarrow> ('a list \<times> 'a cbc) res" where
  "cbc_pop_all c k =
     rbind (rnth k (slot c)) (\<lambda>v. rbind (ptcb_pop_all v) (\<lambda>(xs, v'). Inr (xs, k[slot c := v'])))"

definition cbc_pop_all_local :: "nat \<Rightarrow> u64 \<Rightarrow> 'a cbc \<Rightarrow> ('a list \<times> 'a cbc) res" where
  "cbc_pop_all_local tid c k =
     rbind (rnth k (slot c)) (\<lambda>v. rbind (ptcb_pop_all_local tid v) (\<lambda>(xs, v'). Inr (xs, k[slot c := v'])))"

definition cbc_try_pop_local :: "nat \<Rightarrow> u64 \<Rightarrow> 'a cbc \<Rightarrow> ('a option \<times> 'a cbc) res" where
  "cbc_try_pop_local tid c k =
     rbind (rnth k (slot c)) (\<lambda>v. rbind (ptcb_try_pop_local tid v) (\<lambda>(x, v'). Inr (x, k[slot c := v'])))"

definition cbc_clear :: "'a cbc \<Rightarrow> 'a cbc" where
  "cbc_clear k = map ptcb_clear k"

section \<open>VectorContainer\<close>

type_synonym 'a vc = "'a ptv list"

definition vc_new :: "nat \<Rightarrow> 'a vc" where
  "vc_new task_num = replicate EPOCH_WINDOW (ptv_new task_num)"

definition vc_push :: "'a \<Rightarrow> nat \<Rightarrow> u64 \<Rightarrow> 'a vc \<Rightarrow> 'a vc res" where
  "vc_push x tid c k =
     rbind (rnth k (slot c)) (\<lambda>v. rbind (ptv_push x tid v) (\<lambda>v'. Inr (k[slot c := v'])))"

definition vc_pop_all :: "u64 \<Rightarrow> 'a vc \<Rightarrow> ('a list \<times> 'a vc) res" where
  "vc_pop_all c k =
     rbind (rnth k (slot c)) (\<lambda>v. case ptv_pop_all v of (xs, v') \<Rightarrow> Inr (xs, k[slot c := v']))"

definition vc_pop_all_local :: "nat \<Rightarrow> u64 \<Rightarrow> 'a vc \<Rightarrow> ('a list \<times> 'a vc) res" where
  "vc_pop_all_local tid c k =
     rbind (rnth k (slot c)) (\<lambda>v. rbind (ptv_pop_all_local tid v) (\<lambda>(xs, v'). Inr (xs, k[slot c := v'])))"

definition vc_try_pop_local :: "nat \<Rightarrow> u64 \<Rightarrow> 'a vc \<Rightarrow> ('a option \<times> 'a vc) res" where
  "vc_try_pop_local tid c k =
     rbind (rnth k (slot c)) (\<lambda>v. rbind (ptv_try_pop_local tid v) (\<lambda>(x, v'). Inr (x, k[slot c := v'])))"

definition vc_clear :: "'a vc \<Rightarrow> 'a vc" where
  "vc_clear k = map ptv_clear k"

section \<open>FixedCircBufferContainer\<close>

type_synonym 'a fcbc = "'a fcb list list"

definition fcbc_new :: "nat \<Rightarrow> u64 \<Rightarrow> 'a \<Rightarrow> 'a fcbc" where
  "fcbc_new task_num cap v = replicate EPOCH_WINDOW (replicate task_num (fcb_new cap v))"

definition fcbc_push :: "'a \<Rightarrow> nat \<Rightarrow> u64 \<Rightarrow> 'a fcbc \<Rightarrow> ('a list \<times> 'a fcbc) res" where
  "fcbc_push x = cell_app (fcb_push x)"

definition fcbc_pop_all :: "u64 \<Rightarrow> 'a fcbc \<Rightarrow> ('a list \<times> 'a fcbc) res" where
  "fcbc_pop_all = row_app fcb_pop_all"

definition fcbc_pop_all_local :: "nat \<Rightarrow> u64 \<Rightarrow> 'a fcbc \<Rightarrow> ('a list \<times> 'a fcbc) res" where
  "fcbc_pop_all_local = cell_app fcb_pop_all"

definition fcbc_try_pop_local :: "nat \<Rightarrow> u64 \<Rightarrow> 'a fcbc \<Rightarrow> ('a option \<times> 'a fcbc) res" where
  "fcbc_try_pop_local = cell_app fcb_try_pop"

definition fcbc_clear :: "'a fcbc \<Rightarrow> 'a fcbc" where
  "fcbc_clear k = map (map fcb_clear) k"

section \<open>FixedHashSetContainer\<close>

type_synonym hsc = "hashset list list"

definition hsc_new :: "nat \<Rightarrow> nat \<Rightarrow> hsc" where
  "hsc_new task_num cap = replicate EPOCH_WINDOW (replicate task_num (hs_new cap))"

definition hsc_push :: "addr \<Rightarrow> nat \<Rightarrow> u64 \<Rightarrow> hsc \<Rightarrow> (addr list \<times> hsc) res" where
  "hsc_push x = cell_app (hs_push x)"

definition hs_pop_all_st :: "hashset \<Rightarrow> (addr list \<times> hashset) res" where
  "hs_pop_all_st h = Inr (hs_pop_all h, h)"

definition hsc_pop_all :: "u64 \<Rightarrow> hsc \<Rightarrow> (addr list \<times> hsc) res" where
  "hsc_pop_all = row_app hs_pop_all_st"

definition hsc_pop_all_local :: "nat \<Rightarrow> u64 \<Rightarrow> hsc \<Rightarrow> (addr list \<times> hsc) res" where
  "hsc_pop_all_local = cell_app hs_pop_all_st"

definition hsc_try_pop_local :: "nat \<Rightarrow> u64 \<Rightarrow> hsc \<Rightarrow> (addr option \<times> hsc) res" where
  "hsc_try_pop_local = cell_app hs_try_pop"

definition hsc_clear :: "hsc \<Rightarrow> hsc" where
  "hsc_clear k = map (map hs_clear) k"

section \<open>The buffers meet the contract\<close>

interpretation cbq: fifo_queue cb_new cb_push cb_try_pop cb_inv cb_contents
proof (unfold_locales, goal_cases)
  case (5 q)
  then show ?case using cb_try_pop_spec [of q] by blast
next
  case (6 q)
  then show ?case
    using cb_try_pop_spec [of q] by (cases "cb_contents q") (simp_all add: lpop_def, metis fst_conv)
qed (simp_all add: cb_new_spec cb_push_spec)

definition fcb_budget :: "nat \<Rightarrow> 'a fcb \<Rightarrow> bool" where
  "fcb_budget n b \<longleftrightarrow> fcb_inv b \<and> unat (fcb_pushed b) + unat (fcb_cap b) + n \<le> 2 ^ 64"

interpretation fcbi: thread_buffer fcb_push fcb_pop_all fcb_budget "\<lambda>b. set (fcb_contents b)" "\<lambda>_. True"
proof (unfold_locales, goal_cases)
  case (1 n b)
  then show ?case by (simp add: fcb_budget_def)
next
  case (2 n b x)
  then have room: "fcb_inv b" "fcb_room b" by (auto simp: fcb_budget_def fcb_room_def)
  obtain cs b' where p: "fcb_push x b = Inr (cs, b')" "fcb_inv b'" "fcb_cap b' = fcb_cap b"
      "fcb_pushed b' = fcb_pushed b + 1" "cs @ fcb_contents b' = fcb_contents b @ [x]"
    using fcb_push_spec [OF room, of x] by auto
  have "unat (fcb_pushed b + 1) = Suc (unat (fcb_pushed b))"
    using unat_add_num [of "fcb_pushed b" 1] 2 unat_gt_0 [of "fcb_cap b"]
    by (simp add: fcb_budget_def fcb_inv_def)
  moreover have "set cs \<union> set (fcb_contents b') = insert x (set (fcb_contents b))"
    using p(5) by (metis Un_insert_right list.simps(15) set_append sup_bot_right list.set(1))
  ultimately show ?case using 2 p by (simp add: fcb_budget_def)
next
  case (3 n b)
  then show ?case using fcb_pop_all_spec [of b] by (auto simp: fcb_budget_def)
qed

interpretation hsi: thread_buffer hs_push hs_pop_all_st "\<lambda>n h. hs_payloads h \<noteq> []" hs_entries "\<lambda>x. x \<noteq> 0"
proof (unfold_locales, goal_cases)
  case (2 n b x)
  then obtain cs h' where h: "hs_push x b = Inr (cs, h')" "length (hs_payloads h') = length (hs_payloads b)"
      "insert x (hs_entries b) - {0} = hs_entries h' \<union> set cs"
    using hs_push_spec by blast
  have "insert x (hs_entries b) - {0} = insert x (hs_entries b)"
    using 2 by (auto simp: hs_entries_def)
  moreover have "hs_payloads h' \<noteq> []" using h(2) 2 by fastforce
  ultimately show ?case using h(1,3) by (metis Un_commute)
qed (auto simp: hs_pop_all_st_def hs_pop_all_def hs_entries_def)

definition cb_push_st :: "'a \<Rightarrow> 'a circbuf \<Rightarrow> ('a list \<times> 'a circbuf) res" where
  "cb_push_st x b = Inr ([], cb_push x b)"

interpretation cbi: thread_buffer cb_push_st cb_pop_all "\<lambda>n. cb_inv" "\<lambda>b. set (cb_contents b)" "\<lambda>_. True"
proof (unfold_locales, goal_cases)
  case (3 n b)
  then show ?case using cb_pop_all_spec [of b] by auto
qed (simp_all add: cb_push_st_def cb_push_spec)

definition vec_push :: "'a \<Rightarrow> 'a list \<Rightarrow> ('a list \<times> 'a list) res" where
  "vec_push x b = Inr ([], b @ [x])"

definition vec_pop_all :: "'a list \<Rightarrow> ('a list \<times> 'a list) res" where
  "vec_pop_all b = Inr (rev b, [])"

interpretation veci: thread_buffer vec_push vec_pop_all "\<lambda>n _. True" set "\<lambda>_. True"
  by unfold_locales (auto simp: vec_push_def vec_pop_all_def)

text \<open>The vector and ring containers are the generic containers over these buffers.\<close>

lemma vc_push_cells: "rbind (vc_push x tid c k) (\<lambda>k'. Inr ([], k')) = cell_app (vec_push x) tid c k"
  by (simp add: vc_push_def cell_app_def ptv_push_def vec_push_def rbind_def split: sum.splits)

lemma vc_pop_all_local_cells: "vc_pop_all_local tid c k = cell_app vec_pop_all tid c k"
  by (simp add: vc_pop_all_local_def cell_app_def ptv_pop_all_local_def vec_pop_all_def rbind_def
      split: sum.splits)

lemma row_all_vec: "row_all vec_pop_all row = Inr (ptv_pop_all row)"
  by (induction row) (auto simp: vec_pop_all_def ptv_pop_all_def)

lemma vc_pop_all_cells: "vc_pop_all c k = row_app vec_pop_all c k"
  by (simp add: vc_pop_all_def row_app_def row_all_vec)

lemma cbc_push_cells: "rbind (cbc_push x tid c k) (\<lambda>k'. Inr ([], k')) = cell_app (cb_push_st x) tid c k"
  by (simp add: cbc_push_def cell_app_def ptcb_push_def cb_push_st_def rbind_def split: sum.splits)

lemma cbc_pop_all_local_cells: "cbc_pop_all_local tid c k = cell_app cb_pop_all tid c k"
  by (auto simp: cbc_pop_all_local_def cell_app_def ptcb_pop_all_local_def rbind_def split: sum.splits)

lemma ptcb_pop_all_row: "ptcb_pop_all v = row_all cb_pop_all v"
  by (induction v) simp_all

lemma cbc_pop_all_cells: "cbc_pop_all c k = row_app cb_pop_all c k"
  by (simp add: cbc_pop_all_def row_app_def ptcb_pop_all_row)

interpretation vci: epoch_container "\<lambda>x tid c k. rbind (vc_push x tid c k) (\<lambda>k'. Inr ([], k'))"
  vc_pop_all_local vc_pop_all "cells_inv (\<lambda>_ _. True)" "cells_entries set" "\<lambda>_. True"
  unfolding vc_push_cells vc_pop_all_local_cells [abs_def] vc_pop_all_cells [abs_def]
  by (rule veci.cells.epoch_container_axioms)

interpretation cbci: epoch_container "\<lambda>x tid c k. rbind (cbc_push x tid c k) (\<lambda>k'. Inr ([], k'))"
  cbc_pop_all_local cbc_pop_all "cells_inv (\<lambda>_. cb_inv)" "cells_entries (\<lambda>b. set (cb_contents b))" "\<lambda>_. True"
  unfolding cbc_push_cells cbc_pop_all_local_cells [abs_def] cbc_pop_all_cells [abs_def]
  by (rule cbi.cells.epoch_container_axioms)

section \<open>Properties\<close>


end
