(* ===== verification/Transaction_Trackers.thy ===== *)
theory Transaction_Trackers
  imports Montage_Prelude
begin

text \<open>
  \<^verbatim>\<open>src/persist/TransactionTrackers.hpp\<close> and \<^verbatim>\<open>TransactionTrackers.cpp\<close>: the trackers that
  know in which epoch each thread has an operation in progress.  The global epoch a tracker reads
  is the argument \<^term>\<open>ge\<close>; \<^term>\<open>tid\<close> is \<^verbatim>\<open>EpochSys::tid\<close>.  Store orders are not modelled:
  \<^verbatim>\<open>FenceBegin\<close> and \<^verbatim>\<open>FenceEnd\<close> differ from \<^verbatim>\<open>NoFence\<close> in them only.
\<close>

section \<open>PerEpochTransactionTracker\<close>

type_synonym per_epoch = "u64 list"

definition pe_new :: "nat \<Rightarrow> per_epoch" where
  "pe_new task_num = replicate task_num NULL_EPOCH"

definition pe_consistent_set :: "nat \<Rightarrow> u64 \<Rightarrow> u64 \<Rightarrow> u64 \<Rightarrow> per_epoch \<Rightarrow> (bool \<times> per_epoch) res" where
  "pe_consistent_set tid target c ge t =
     (if tid < length t
      then let t1 = t[tid := target] in
           if c = ge then Inr (True, t1) else Inr (False, t1[tid := NULL_EPOCH])
      else Inl BadAccess)"

definition pe_unregister :: "nat \<Rightarrow> u64 \<Rightarrow> per_epoch \<Rightarrow> per_epoch res" where
  "pe_unregister tid target t = (if tid < length t then Inr (t[tid := NULL_EPOCH]) else Inl BadAccess)"

definition pe_no_active :: "u64 \<Rightarrow> per_epoch \<Rightarrow> bool" where
  "pe_no_active target t = list_all (\<lambda>curr_epoch. \<not> (target = curr_epoch \<and> curr_epoch \<noteq> NULL_EPOCH)) t"

definition pe_finalize :: "per_epoch \<Rightarrow> per_epoch" where
  "pe_finalize t = map (\<lambda>_. NULL_EPOCH) t"

section \<open>AtomicTransactionTracker\<close>

record atomic_tracker =
  active_transactions :: "u64 list"
  bookkeeping_transactions :: "u64 list"

definition at_new :: atomic_tracker where
  "at_new = \<lparr>active_transactions = replicate EPOCH_WINDOW 0,
             bookkeeping_transactions = replicate EPOCH_WINDOW 0\<rparr>"

definition at_consistent_increment :: "nat \<Rightarrow> u64 \<Rightarrow> u64 \<Rightarrow> u64 list \<Rightarrow> bool \<times> u64 list" where
  "at_consistent_increment i c ge cs =
     (let cs1 = cs[i := cs ! i + 1] in
      if c = ge then (True, cs1) else (False, cs1[i := cs1 ! i - 1]))"

definition at_register_active :: "u64 \<Rightarrow> u64 \<Rightarrow> u64 \<Rightarrow> atomic_tracker \<Rightarrow> bool \<times> atomic_tracker" where
  "at_register_active target c ge t =
     (case at_consistent_increment (slot target) c ge (active_transactions t) of
        (r, cs) \<Rightarrow> (r, t\<lparr>active_transactions := cs\<rparr>))"

definition at_register_bookkeeping :: "u64 \<Rightarrow> u64 \<Rightarrow> u64 \<Rightarrow> atomic_tracker \<Rightarrow> bool \<times> atomic_tracker" where
  "at_register_bookkeeping target c ge t =
     (case at_consistent_increment (slot target) c ge (bookkeeping_transactions t) of
        (r, cs) \<Rightarrow> (r, t\<lparr>bookkeeping_transactions := cs\<rparr>))"

definition at_unregister_active :: "u64 \<Rightarrow> atomic_tracker \<Rightarrow> atomic_tracker" where
  "at_unregister_active target t =
     t\<lparr>active_transactions := (active_transactions t)[slot target := active_transactions t ! slot target - 1]\<rparr>"

definition at_unregister_bookkeeping :: "u64 \<Rightarrow> atomic_tracker \<Rightarrow> atomic_tracker" where
  "at_unregister_bookkeeping target t =
     t\<lparr>bookkeeping_transactions :=
        (bookkeeping_transactions t)[slot target := bookkeeping_transactions t ! slot target - 1]\<rparr>"

definition at_no_active :: "u64 \<Rightarrow> atomic_tracker \<Rightarrow> bool" where
  "at_no_active target t \<longleftrightarrow> active_transactions t ! slot target = 0"

definition at_no_bookkeeping :: "u64 \<Rightarrow> atomic_tracker \<Rightarrow> bool" where
  "at_no_bookkeeping target t \<longleftrightarrow> bookkeeping_transactions t ! slot target = 0"

section \<open>NoFenceTransactionTracker\<close>

record nofence_tracker =
  nf_active :: "bool list list"
  nf_bookkeeping :: "bool list list"

definition nf_new :: "nat \<Rightarrow> nofence_tracker" where
  "nf_new task_num = \<lparr>nf_active = replicate EPOCH_WINDOW (replicate task_num False),
                      nf_bookkeeping = replicate EPOCH_WINDOW (replicate task_num False)\<rparr>"

definition nf_set :: "nat \<Rightarrow> bool \<Rightarrow> bool list \<Rightarrow> bool list res" where
  "nf_set tid b indicators = (if tid < length indicators then Inr (indicators[tid := b]) else Inl BadAccess)"

definition nf_consistent_register :: "nat \<Rightarrow> u64 \<Rightarrow> u64 \<Rightarrow> bool list \<Rightarrow> (bool \<times> bool list) res" where
  "nf_consistent_register tid c ge indicators =
     rbind (nf_set tid True indicators) (\<lambda>ind1.
       if c = ge then Inr (True, ind1)
       else rbind (nf_set tid False ind1) (\<lambda>ind2. Inr (False, ind2)))"

definition nf_all_false :: "bool list \<Rightarrow> bool" where
  "nf_all_false indicators = list_all (\<lambda>b. \<not> b) indicators"

definition nf_register_active :: "nat \<Rightarrow> u64 \<Rightarrow> u64 \<Rightarrow> u64 \<Rightarrow> nofence_tracker \<Rightarrow> (bool \<times> nofence_tracker) res" where
  "nf_register_active tid target c ge t =
     rbind (nf_consistent_register tid c ge (nf_active t ! slot target)) (\<lambda>(r, ind).
       Inr (r, t\<lparr>nf_active := (nf_active t)[slot target := ind]\<rparr>))"

definition nf_register_bookkeeping :: "nat \<Rightarrow> u64 \<Rightarrow> u64 \<Rightarrow> u64 \<Rightarrow> nofence_tracker \<Rightarrow> (bool \<times> nofence_tracker) res" where
  "nf_register_bookkeeping tid target c ge t =
     rbind (nf_consistent_register tid c ge (nf_bookkeeping t ! slot target)) (\<lambda>(r, ind).
       Inr (r, t\<lparr>nf_bookkeeping := (nf_bookkeeping t)[slot target := ind]\<rparr>))"

definition nf_unregister_active :: "nat \<Rightarrow> u64 \<Rightarrow> nofence_tracker \<Rightarrow> nofence_tracker res" where
  "nf_unregister_active tid target t =
     rbind (nf_set tid False (nf_active t ! slot target)) (\<lambda>ind.
       Inr (t\<lparr>nf_active := (nf_active t)[slot target := ind]\<rparr>))"

definition nf_unregister_bookkeeping :: "nat \<Rightarrow> u64 \<Rightarrow> nofence_tracker \<Rightarrow> nofence_tracker res" where
  "nf_unregister_bookkeeping tid target t =
     rbind (nf_set tid False (nf_bookkeeping t ! slot target)) (\<lambda>ind.
       Inr (t\<lparr>nf_bookkeeping := (nf_bookkeeping t)[slot target := ind]\<rparr>))"

definition nf_no_active :: "u64 \<Rightarrow> nofence_tracker \<Rightarrow> bool" where
  "nf_no_active target t = nf_all_false (nf_active t ! slot target)"

definition nf_no_bookkeeping :: "u64 \<Rightarrow> nofence_tracker \<Rightarrow> bool" where
  "nf_no_bookkeeping target t = nf_all_false (nf_bookkeeping t ! slot target)"

section \<open>The contract of a transaction tracker\<close>

text \<open>
  \<^term>\<open>A\<close> maps each thread with an operation in progress to its epoch.  \<^verbatim>\<open>rep n A t\<close> says that
  the tracker \<^term>\<open>t\<close> of \<^term>\<open>n\<close> threads represents \<^term>\<open>A\<close>.  A tracker may answer
  \<^verbatim>\<open>no_active(e)\<close> with \<^verbatim>\<open>false\<close> because of an operation in another epoch of the same slot, but
  never with \<^verbatim>\<open>true\<close> while an operation in \<^term>\<open>e\<close> is in progress.
\<close>

type_synonym activity = "nat \<Rightarrow> u64 option"

datatype tev = TBegin nat u64 u64 | TEnd nat u64

text \<open>
  \<^verbatim>\<open>TBegin tid c ge\<close> is \<^verbatim>\<open>consistent_register_active(c, c)\<close> by thread \<^term>\<open>tid\<close> when the
  global epoch it reads is \<^term>\<open>ge\<close>; \<^verbatim>\<open>TEnd tid e\<close> is \<^verbatim>\<open>unregister_active(e)\<close>.
\<close>

fun trun :: "(nat \<Rightarrow> u64 \<Rightarrow> u64 \<Rightarrow> u64 \<Rightarrow> 't \<Rightarrow> (bool \<times> 't) res) \<Rightarrow> (nat \<Rightarrow> u64 \<Rightarrow> 't \<Rightarrow> 't res)
    \<Rightarrow> tev list \<Rightarrow> 't \<Rightarrow> 't res" where
  "trun rg un [] t = Inr t"
| "trun rg un (TBegin tid c ge # evs) t = rbind (rg tid c c ge t) (\<lambda>(_, t1). trun rg un evs t1)"
| "trun rg un (TEnd tid e # evs) t = rbind (un tid e t) (trun rg un evs)"

fun activity_after :: "tev list \<Rightarrow> activity \<Rightarrow> activity" where
  "activity_after [] A = A"
| "activity_after (TBegin tid c ge # evs) A = activity_after evs (if c = ge then A(tid \<mapsto> c) else A)"
| "activity_after (TEnd tid e # evs) A = activity_after evs (A(tid := None))"

fun well_bracketed :: "nat \<Rightarrow> tev list \<Rightarrow> activity \<Rightarrow> bool" where
  "well_bracketed n [] A = True"
| "well_bracketed n (TBegin tid c ge # evs) A =
     (tid < n \<and> A tid = None \<and> c \<noteq> NULL_EPOCH \<and> well_bracketed n evs (if c = ge then A(tid \<mapsto> c) else A))"
| "well_bracketed n (TEnd tid e # evs) A =
     (tid < n \<and> A tid = Some e \<and> well_bracketed n evs (A(tid := None)))"

locale transaction_tracker =
  fixes reg :: "nat \<Rightarrow> u64 \<Rightarrow> u64 \<Rightarrow> u64 \<Rightarrow> 't \<Rightarrow> (bool \<times> 't) res"
    and unreg :: "nat \<Rightarrow> u64 \<Rightarrow> 't \<Rightarrow> 't res"
    and none :: "u64 \<Rightarrow> 't \<Rightarrow> bool"
    and rep :: "nat \<Rightarrow> activity \<Rightarrow> 't \<Rightarrow> bool"
  assumes reg_law: "rep n A t \<Longrightarrow> tid < n \<Longrightarrow> A tid = None \<Longrightarrow> target \<noteq> NULL_EPOCH \<Longrightarrow>
      \<exists>t'. reg tid target c ge t = Inr (c = ge, t') \<and> rep n (if c = ge then A(tid \<mapsto> target) else A) t'"
    and unreg_law: "rep n A t \<Longrightarrow> tid < n \<Longrightarrow> A tid = Some e \<Longrightarrow>
      \<exists>t'. unreg tid e t = Inr t' \<and> rep n (A(tid := None)) t'"
    and none_sound: "rep n A t \<Longrightarrow> none e t \<Longrightarrow> e \<noteq> NULL_EPOCH \<Longrightarrow> A tid \<noteq> Some e"
    and none_complete: "rep n A t \<Longrightarrow> (\<And>tid e'. A tid = Some e' \<Longrightarrow> slot e' \<noteq> slot e) \<Longrightarrow> none e t"

begin

lemma run_represents:
  assumes "rep n A t" and "well_bracketed n evs A"
  shows "\<exists>t'. trun reg unreg evs t = Inr t' \<and> rep n (activity_after evs A) t'"
  using assms
proof (induction evs arbitrary: A t)
  case Nil
  then show ?case by simp
next
  case (Cons ev evs)
  show ?case
  proof (cases ev)
    case (TBegin tid c ge)
    then obtain t1 where "reg tid c c ge t = Inr (c = ge, t1)"
        "rep n (if c = ge then A(tid \<mapsto> c) else A) t1"
      using reg_law [OF Cons.prems(1), of tid c c ge] Cons.prems(2) by auto
    then show ?thesis using Cons.IH [of "if c = ge then A(tid \<mapsto> c) else A" t1] Cons.prems(2) TBegin by auto
  next
    case (TEnd tid e)
    then obtain t1 where t1: "unreg tid e t = Inr t1" "rep n (A(tid := None)) t1"
      using unreg_law [OF Cons.prems(1), of tid e] Cons.prems(2) by auto
    have "well_bracketed n evs (A(tid := None))" using Cons.prems(2) TEnd by simp
    from Cons.IH [OF t1(2) this] show ?thesis
      unfolding TEnd trun.simps activity_after.simps t1(1) rbind_Inr .
  qed
qed

lemma no_active_after_run:
  assumes "rep n A t" and "well_bracketed n evs A" and "e \<noteq> NULL_EPOCH"
  shows "\<exists>t'. trun reg unreg evs t = Inr t'
    \<and> (none e t' \<longrightarrow> (\<forall>tid. activity_after evs A tid \<noteq> Some e))
    \<and> ((\<forall>tid e'. activity_after evs A tid = Some e' \<longrightarrow> slot e' \<noteq> slot e) \<longrightarrow> none e t')"
  using run_represents [OF assms(1,2)] none_sound none_complete assms(3) by blast

end

section \<open>The trackers meet the contract\<close>

definition pe_rep :: "nat \<Rightarrow> activity \<Rightarrow> per_epoch \<Rightarrow> bool" where
  "pe_rep n A t \<longleftrightarrow> length t = n \<and> (\<forall>tid < n. t ! tid = (case A tid of None \<Rightarrow> NULL_EPOCH | Some e \<Rightarrow> e))
     \<and> (\<forall>tid e. A tid = Some e \<longrightarrow> tid < n \<and> e \<noteq> NULL_EPOCH)"

interpretation pet: transaction_tracker pe_consistent_set pe_unregister pe_no_active pe_rep
proof (unfold_locales, goal_cases)
  case (1 n A t tid target c ge)
  then show ?case
    by (auto simp: pe_consistent_set_def pe_rep_def Let_def nth_list_update split: option.splits)
next
  case (2 n A t tid e)
  then show ?case
    by (auto simp: pe_unregister_def pe_rep_def nth_list_update split: option.splits)
next
  case (3 n A t e tid)
  then have "t ! tid = e" "tid < length t" if "A tid = Some e"
    using that by (auto simp: pe_rep_def)
  then show ?case using 3 by (auto simp: pe_no_active_def list_all_length)
next
  case (4 n A t e)
  then show ?case
    by (auto simp: pe_no_active_def pe_rep_def list_all_length split: option.splits)
qed

definition nf_rep :: "nat \<Rightarrow> activity \<Rightarrow> nofence_tracker \<Rightarrow> bool" where
  "nf_rep n A t \<longleftrightarrow> length (nf_active t) = EPOCH_WINDOW
     \<and> (\<forall>s < EPOCH_WINDOW. length (nf_active t ! s) = n
          \<and> (\<forall>tid < n. nf_active t ! s ! tid \<longleftrightarrow> (\<exists>e. A tid = Some e \<and> slot e = s)))
     \<and> (\<forall>tid e. A tid = Some e \<longrightarrow> tid < n)"

interpretation nft: transaction_tracker nf_register_active nf_unregister_active nf_no_active nf_rep
proof (unfold_locales, goal_cases)
  case (1 n A t tid target c ge)
  then show ?case
    by (auto simp: nf_register_active_def nf_consistent_register_def nf_set_def nf_rep_def
        nth_list_update)
next
  case (2 n A t tid e)
  then show ?case
    by (auto simp: nf_unregister_active_def nf_set_def nf_rep_def nth_list_update)
next
  case (3 n A t e tid)
  then have "nf_active t ! slot e ! tid" "tid < length (nf_active t ! slot e)" if "A tid = Some e"
    using that by (auto simp: nf_rep_def)
  then show ?case using 3 by (auto simp: nf_no_active_def nf_all_false_def list_all_length)
next
  case (4 n A t e)
  then show ?case
    by (auto simp: nf_no_active_def nf_all_false_def nf_rep_def list_all_length)
qed

text \<open>The counters of the atomic tracker count the operations in each slot.\<close>

definition in_slot :: "activity \<Rightarrow> nat \<Rightarrow> nat set" where
  "in_slot A s = {tid. \<exists>e. A tid = Some e \<and> slot e = s}"

definition at_rep :: "nat \<Rightarrow> activity \<Rightarrow> atomic_tracker \<Rightarrow> bool" where
  "at_rep n A t \<longleftrightarrow> length (active_transactions t) = EPOCH_WINDOW \<and> n < 2 ^ 64 \<and> dom A \<subseteq> {..<n}
     \<and> (\<forall>s < EPOCH_WINDOW. unat (active_transactions t ! s) = card (in_slot A s))"

lemma in_slot_finite: "dom A \<subseteq> {..<n} \<Longrightarrow> finite (in_slot A s)"
  by (rule finite_subset [of _ "{..<n}"]) (auto simp: in_slot_def)

lemma in_slot_begin:
  "A tid = None \<Longrightarrow> in_slot (A(tid \<mapsto> e)) s = (if slot e = s then insert tid (in_slot A s) else in_slot A s)"
  by (auto simp: in_slot_def)

lemma in_slot_end:
  "A tid = Some e \<Longrightarrow> in_slot (A(tid := None)) s = (if slot e = s then in_slot A s - {tid} else in_slot A s)"
  by (auto simp: in_slot_def)

interpretation att: transaction_tracker "\<lambda>tid target c ge t. Inr (at_register_active target c ge t)"
  "\<lambda>tid target t. Inr (at_unregister_active target t)" at_no_active at_rep
proof (unfold_locales, goal_cases)
  case (1 n A t tid target c ge)
  let ?a = "active_transactions t"
  have fin: "finite (in_slot A s)" for s using 1 in_slot_finite by (auto simp: at_rep_def)
  have tid: "tid \<notin> in_slot A s" for s using 1 by (simp add: in_slot_def)
  have "insert tid (in_slot A (slot target)) \<subseteq> {..<n}" using 1 by (auto simp: at_rep_def in_slot_def)
  then have "card (insert tid (in_slot A (slot target))) \<le> n"
    using card_mono [of "{..<n}" "insert tid (in_slot A (slot target))"] by simp
  then have "Suc (card (in_slot A (slot target))) < 2 ^ 64" using 1 fin tid by (simp add: at_rep_def)
  then have inc: "unat (?a ! slot target + 1) = Suc (card (in_slot A (slot target)))"
    using unat_add_num [of "?a ! slot target" 1] 1 by (simp add: at_rep_def)
  show ?case
  proof (cases "c = ge")
    case True
    then show ?thesis using 1 inc fin tid
      by (auto simp: at_register_active_def at_consistent_increment_def Let_def at_rep_def
          in_slot_begin nth_list_update)
  next
    case False
    then show ?thesis using 1
      by (auto simp: at_register_active_def at_consistent_increment_def Let_def at_rep_def)
  qed
next
  case (2 n A t tid e)
  let ?a = "active_transactions t"
  have fin: "finite (in_slot A s)" for s using 2 in_slot_finite by (auto simp: at_rep_def)
  have tid: "tid \<in> in_slot A (slot e)" using 2 by (simp add: in_slot_def)
  then have pos: "0 < card (in_slot A (slot e))" using fin card_gt_0_iff by blast
  then have "unat (?a ! slot e - 1) = card (in_slot A (slot e)) - 1"
    using unat_sub_num [of 1 "?a ! slot e"] 2 by (simp add: at_rep_def)
  then show ?case using 2 fin tid
    by (auto simp: at_unregister_active_def at_rep_def in_slot_end nth_list_update)
next
  case (3 n A t e tid)
  have "finite (in_slot A (slot e))" using 3 in_slot_finite by (auto simp: at_rep_def)
  moreover have "card (in_slot A (slot e)) = 0"
    using 3 slot_less(2) [of e] unfolding at_no_active_def at_rep_def by (metis unat_0)
  ultimately show ?case by (auto simp: in_slot_def)
next
  case (4 n A t e)
  then have "in_slot A (slot e) = {}" by (auto simp: in_slot_def)
  then show ?case using 4 slot_less(2) [of e] unfolding at_no_active_def at_rep_def
    by (metis card.empty unat_eq_zero)
qed

section \<open>Properties\<close>

text \<open>What an answer of \<^verbatim>\<open>no_active\<close> has to do with the operations in progress.\<close>

definition answers :: "(u64 \<Rightarrow> 't \<Rightarrow> bool) \<Rightarrow> u64 \<Rightarrow> activity \<Rightarrow> 't \<Rightarrow> bool" where
  "answers none e A t \<longleftrightarrow> (none e t \<longrightarrow> (\<forall>tid. A tid \<noteq> Some e))
     \<and> ((\<forall>tid e'. A tid = Some e' \<longrightarrow> slot e' \<noteq> slot e) \<longrightarrow> none e t)"

lemma new_rep: "pe_rep n Map.empty (pe_new n)" "nf_rep n Map.empty (nf_new n)" "n < 2 ^ 64 \<Longrightarrow> at_rep n Map.empty at_new"
  by (auto simp: pe_rep_def pe_new_def nf_rep_def nf_new_def at_rep_def at_new_def in_slot_def)

text \<open>
  C22.  Each of the three transaction trackers, after any sequence of begins and ends in which a
  thread runs one operation at a time, answers \<^verbatim>\<open>no_active(e)\<close> with true only if no operation of epoch e is in progress,
  and always if none of an epoch with the same slot is; a begin that loses the race against the epoch leaves no trace.
\<close>

theorem trackers_sound:
  assumes "n < 2 ^ 64" "well_bracketed n evs Map.empty" "e \<noteq> NULL_EPOCH"
  shows "(\<exists>t. trun pe_consistent_set pe_unregister evs (pe_new n) = Inr t
            \<and> answers pe_no_active e (activity_after evs Map.empty) t)
    \<and> (\<exists>t. trun nf_register_active nf_unregister_active evs (nf_new n) = Inr t
            \<and> answers nf_no_active e (activity_after evs Map.empty) t)
    \<and> (\<exists>t. trun (\<lambda>tid target c ge t. Inr (at_register_active target c ge t))
              (\<lambda>tid target t. Inr (at_unregister_active target t)) evs at_new = Inr t
            \<and> answers at_no_active e (activity_after evs Map.empty) t)"
  unfolding answers_def
  using pet.no_active_after_run [OF new_rep(1) assms(2,3)] nft.no_active_after_run [OF new_rep(2) assms(2,3)]
    att.no_active_after_run [OF new_rep(3) [OF assms(1)] assms(2,3)] by blast

theorem trackers_sound_witness:
  "\<exists>t. trun pe_consistent_set pe_unregister [TBegin 0 4 4, TBegin 1 4 5, TBegin 1 5 5, TEnd 0 4] (pe_new 2) = Inr t
    \<and> answers pe_no_active 4 (activity_after [TBegin 0 4 4, TBegin 1 4 5, TBegin 1 5 5, TEnd 0 4] Map.empty) t"
  using trackers_sound [of 2 "[TBegin 0 4 4, TBegin 1 4 5, TBegin 1 5 5, TEnd 0 4]" 4] by simp

end
