(* ===== verification/Epoch_Protocol.thy ===== *)
theory Epoch_Protocol
  imports Transaction_Trackers
begin

text \<open>
  The interleaving of operations that begin and end with threads that advance the epoch: the loop
  of \<^verbatim>\<open>EpochSys::begin_transaction\<close> over \<^verbatim>\<open>PerEpochTransactionTracker\<close>, the wait of
  \<^verbatim>\<open>EpochSys::on_epoch_end\<close>, and the compare-exchange on the global epoch in
  \<^verbatim>\<open>EpochAdvancers.cpp\<close>.  Every access to a shared variable is a step of its own, so that a scan of
  \<^verbatim>\<open>curr_epochs\<close> can be overtaken at every index; accesses are sequentially consistent.
\<close>

text \<open>
  A worker has read the global epoch, has announced it in its cell, or has validated it and runs
  an operation.  An advancer scans the cells up to an index, or has found none active.
\<close>

datatype wstate = WIdle | WLoaded u64 | WStored u64 | WActive u64

datatype astate = AIdle | AScan u64 nat | AReady u64

record proto =
  pr_epoch :: u64
  pr_cells :: per_epoch
  pr_workers :: "wstate list"
  pr_advancers :: "astate list"

definition pr_init :: "nat \<Rightarrow> nat \<Rightarrow> proto" where
  "pr_init task_num n_adv =
     \<lparr>pr_epoch = INIT_EPOCH, pr_cells = pe_new task_num,
      pr_workers = replicate task_num WIdle, pr_advancers = replicate n_adv AIdle\<rparr>"

text \<open>
  An advancer starts with a value of the global epoch it has read now or earlier.  The epoch
  counter stops short of wrapping around.
\<close>

inductive pstep :: "proto \<Rightarrow> proto \<Rightarrow> bool" where
  load: "t < length (pr_workers s) \<Longrightarrow> pr_workers s ! t = WIdle \<Longrightarrow>
    pstep s (s\<lparr>pr_workers := (pr_workers s)[t := WLoaded (pr_epoch s)]\<rparr>)"
| announce: "t < length (pr_workers s) \<Longrightarrow> pr_workers s ! t = WLoaded e \<Longrightarrow>
    pstep s (s\<lparr>pr_cells := (pr_cells s)[t := e], pr_workers := (pr_workers s)[t := WStored e]\<rparr>)"
| accept: "t < length (pr_workers s) \<Longrightarrow> pr_workers s ! t = WStored e \<Longrightarrow> e = pr_epoch s \<Longrightarrow>
    pstep s (s\<lparr>pr_workers := (pr_workers s)[t := WActive e]\<rparr>)"
| reject: "t < length (pr_workers s) \<Longrightarrow> pr_workers s ! t = WStored e \<Longrightarrow> e \<noteq> pr_epoch s \<Longrightarrow>
    pstep s (s\<lparr>pr_cells := (pr_cells s)[t := NULL_EPOCH], pr_workers := (pr_workers s)[t := WIdle]\<rparr>)"
| finish: "t < length (pr_workers s) \<Longrightarrow> pr_workers s ! t = WActive e \<Longrightarrow>
    pstep s (s\<lparr>pr_cells := (pr_cells s)[t := NULL_EPOCH], pr_workers := (pr_workers s)[t := WIdle]\<rparr>)"
| start_scan: "a < length (pr_advancers s) \<Longrightarrow> pr_advancers s ! a = AIdle \<Longrightarrow> c \<le> pr_epoch s \<Longrightarrow>
    pstep s (s\<lparr>pr_advancers := (pr_advancers s)[a := AScan c 0]\<rparr>)"
| scan_pass: "a < length (pr_advancers s) \<Longrightarrow> pr_advancers s ! a = AScan c i \<Longrightarrow> i < length (pr_cells s) \<Longrightarrow>
    \<not> (c - 1 = pr_cells s ! i \<and> pr_cells s ! i \<noteq> NULL_EPOCH) \<Longrightarrow>
    pstep s (s\<lparr>pr_advancers := (pr_advancers s)[a := AScan c (Suc i)]\<rparr>)"
| scan_busy: "a < length (pr_advancers s) \<Longrightarrow> pr_advancers s ! a = AScan c i \<Longrightarrow> i < length (pr_cells s) \<Longrightarrow>
    c - 1 = pr_cells s ! i \<Longrightarrow> pr_cells s ! i \<noteq> NULL_EPOCH \<Longrightarrow>
    pstep s (s\<lparr>pr_advancers := (pr_advancers s)[a := AScan c 0]\<rparr>)"
| scan_done: "a < length (pr_advancers s) \<Longrightarrow> pr_advancers s ! a = AScan c i \<Longrightarrow> i = length (pr_cells s) \<Longrightarrow>
    pstep s (s\<lparr>pr_advancers := (pr_advancers s)[a := AReady c]\<rparr>)"
| advance: "a < length (pr_advancers s) \<Longrightarrow> pr_advancers s ! a = AReady c \<Longrightarrow> c = pr_epoch s \<Longrightarrow>
    c \<noteq> UINT64_MAX \<Longrightarrow>
    pstep s (s\<lparr>pr_epoch := c + 1, pr_advancers := (pr_advancers s)[a := AIdle]\<rparr>)"
| overtaken: "a < length (pr_advancers s) \<Longrightarrow> pr_advancers s ! a = AReady c \<Longrightarrow> c \<noteq> pr_epoch s \<Longrightarrow>
    pstep s (s\<lparr>pr_advancers := (pr_advancers s)[a := AIdle]\<rparr>)"

definition pr_reachable :: "nat \<Rightarrow> nat \<Rightarrow> proto \<Rightarrow> bool" where
  "pr_reachable task_num n_adv s \<longleftrightarrow> pstep\<^sup>*\<^sup>* (pr_init task_num n_adv) s"

text \<open>The invariant, one clause per kind of agent.\<close>

fun worker_ok :: "u64 \<Rightarrow> u64 \<Rightarrow> wstate \<Rightarrow> bool" where
  "worker_ok g cell WIdle \<longleftrightarrow> True"
| "worker_ok g cell (WLoaded e) \<longleftrightarrow> 3 \<le> unat e \<and> e \<le> g"
| "worker_ok g cell (WStored e) \<longleftrightarrow> 3 \<le> unat e \<and> e \<le> g \<and> cell = e"
| "worker_ok g cell (WActive e) \<longleftrightarrow> 3 \<le> unat e \<and> cell = e \<and> (g = e \<or> g = e + 1)"

fun advancer_ok :: "u64 \<Rightarrow> wstate list \<Rightarrow> astate \<Rightarrow> bool" where
  "advancer_ok g ws AIdle \<longleftrightarrow> True"
| "advancer_ok g ws (AScan c i) \<longleftrightarrow> c \<le> g \<and> (c = g \<longrightarrow> (\<forall>t < i. t < length ws \<longrightarrow> ws ! t \<noteq> WActive (c - 1)))"
| "advancer_ok g ws (AReady c) \<longleftrightarrow> c \<le> g \<and> (c = g \<longrightarrow> (\<forall>t < length ws. ws ! t \<noteq> WActive (c - 1)))"

definition pr_inv :: "nat \<Rightarrow> proto \<Rightarrow> bool" where
  "pr_inv n s \<longleftrightarrow> length (pr_cells s) = n \<and> length (pr_workers s) = n \<and> 3 \<le> unat (pr_epoch s)
     \<and> (\<forall>t < n. worker_ok (pr_epoch s) (pr_cells s ! t) (pr_workers s ! t))
     \<and> (\<forall>a < length (pr_advancers s). advancer_ok (pr_epoch s) (pr_workers s) (pr_advancers s ! a))"

lemma pr_init_inv: "pr_inv n (pr_init n m)"
  by (simp add: pr_inv_def pr_init_def pe_new_def)

text \<open>Advancers care only about which workers are active.\<close>

lemma advancer_ok_worker:
  assumes "advancer_ok g ws a" and "\<And>e. w = WActive e \<Longrightarrow> e = g \<and> 3 \<le> unat g"
  shows "advancer_ok g (ws[t := w]) a"
proof -
  have "w \<noteq> WActive (g - 1)" using assms(2) [of "g - 1"] by auto
  then show ?thesis using assms(1) by (cases a) (auto simp: nth_upd)
qed

lemma pr_inv_advancer:
  assumes "pr_inv n s" and "advancer_ok (pr_epoch s) (pr_workers s) x"
  shows "pr_inv n (s\<lparr>pr_advancers := (pr_advancers s)[a := x]\<rparr>)"
  using assms by (auto simp: pr_inv_def nth_upd)

lemma pr_inv_worker:
  assumes "pr_inv n s" and "worker_ok (pr_epoch s) v w" and "\<And>e. w = WActive e \<Longrightarrow> e = pr_epoch s"
  shows "pr_inv n (s\<lparr>pr_cells := (pr_cells s)[t := v], pr_workers := (pr_workers s)[t := w]\<rparr>)"
  using assms by (auto simp: pr_inv_def nth_upd intro!: advancer_ok_worker)

lemma pr_inv_worker_only:
  assumes "pr_inv n s" and "t < n" and "worker_ok (pr_epoch s) (pr_cells s ! t) w"
    and "\<And>e. w = WActive e \<Longrightarrow> e = pr_epoch s"
  shows "pr_inv n (s\<lparr>pr_workers := (pr_workers s)[t := w]\<rparr>)"
  using assms by (auto simp: pr_inv_def nth_upd intro!: advancer_ok_worker)

lemma worker_ok_advance:
  assumes "worker_ok c cell w" and "w \<noteq> WActive (c - 1)" and "c \<noteq> UINT64_MAX"
  shows "worker_ok (c + 1) cell w"
proof -
  have "c \<le> c + 1" using assms(3) by (simp add: word_le_nat_alt unat_inc)
  then show ?thesis using assms by (cases w) auto
qed

lemma advancer_ok_advance:
  assumes "advancer_ok c ws a" and "c \<noteq> UINT64_MAX"
  shows "advancer_ok (c + 1) ws a"
proof -
  have "c < c + 1" using assms(2) by (simp add: word_less_nat_alt unat_inc)
  then show ?thesis using assms(1) by (cases a) auto
qed

lemma pr_inv_advance:
  assumes inv: "pr_inv n s" and a: "a < length (pr_advancers s)" "pr_advancers s ! a = AReady (pr_epoch s)"
    and nw: "pr_epoch s \<noteq> UINT64_MAX"
  shows "pr_inv n (s\<lparr>pr_epoch := pr_epoch s + 1, pr_advancers := (pr_advancers s)[a := AIdle]\<rparr>)"
proof -
  have idle: "pr_workers s ! t \<noteq> WActive (pr_epoch s - 1)" if "t < n" for t
    using inv a that by (force simp: pr_inv_def)
  have "advancer_ok (pr_epoch s + 1) (pr_workers s) ((pr_advancers s)[a := AIdle] ! b)"
    if "b < length (pr_advancers s)" for b
    using that inv advancer_ok_advance [OF _ nw] by (auto simp: pr_inv_def nth_upd)
  moreover have "worker_ok (pr_epoch s + 1) (pr_cells s ! t) (pr_workers s ! t)" if "t < n" for t
    using that inv worker_ok_advance [OF _ idle [OF that] nw] by (auto simp: pr_inv_def)
  ultimately show ?thesis using inv nw by (auto simp: pr_inv_def unat_inc)
qed

lemma pr_inv_step:
  assumes inv: "pr_inv n s" and step: "pstep s s'"
  shows "pr_inv n s'"
proof -
  have n: "length (pr_workers s) = n" "length (pr_cells s) = n" "3 \<le> unat (pr_epoch s)"
    using inv by (auto simp: pr_inv_def)
  from step show ?thesis
proof cases
  case (load t)
  then show ?thesis using inv n by (auto intro!: pr_inv_worker_only)
next
  case (announce t e)
  then have "worker_ok (pr_epoch s) e (WStored e)" using inv by (force simp: pr_inv_def)
  then show ?thesis using inv announce by (auto intro!: pr_inv_worker)
next
  case (accept t e)
  then have "worker_ok (pr_epoch s) (pr_cells s ! t) (WStored e)" using inv unfolding pr_inv_def by metis
  then show ?thesis using inv accept n by (auto intro!: pr_inv_worker_only)
next
  case (reject t e)
  then show ?thesis using inv by (auto intro!: pr_inv_worker)
next
  case (finish t e)
  then show ?thesis using inv by (auto intro!: pr_inv_worker)
next
  case (start_scan a c)
  then show ?thesis using inv by (auto intro!: pr_inv_advancer)
next
  case (scan_pass a c i)
  have ok: "advancer_ok (pr_epoch s) (pr_workers s) (AScan c i)"
    using inv scan_pass by (metis pr_inv_def)
  have "worker_ok (pr_epoch s) (pr_cells s ! i) (pr_workers s ! i)"
    using inv scan_pass by (auto simp: pr_inv_def)
  then have "pr_workers s ! i \<noteq> WActive (c - 1)" using scan_pass by auto
  then show ?thesis using inv scan_pass ok by (auto intro!: pr_inv_advancer simp: less_Suc_eq)
next
  case (scan_busy a c i)
  then have "advancer_ok (pr_epoch s) (pr_workers s) (AScan c i)" using inv by (metis pr_inv_def)
  then show ?thesis using inv scan_busy by (auto intro!: pr_inv_advancer)
next
  case (scan_done a c i)
  then have "advancer_ok (pr_epoch s) (pr_workers s) (AScan c i)" using inv by (metis pr_inv_def)
  then show ?thesis using inv scan_done n by (auto intro!: pr_inv_advancer)
next
  case (advance a c)
  then show ?thesis using pr_inv_advance [OF inv] by auto
next
  case (overtaken a c)
  then show ?thesis using inv by (auto intro!: pr_inv_advancer)
qed
qed

interpretation pr: step_invariant pstep "pr_inv n"
  by unfold_locales (rule pr_inv_step)

lemma reachable_inv: "pr_reachable n m s \<Longrightarrow> pr_inv n s"
  unfolding pr_reachable_def by (rule pr.always [OF _ pr_init_inv])

section \<open>Properties\<close>

text \<open>A run of one worker and one advancer: the epoch moves from 3 to 4 under a running operation.\<close>

abbreviation ex_proto :: "u64 \<Rightarrow> u64 \<Rightarrow> wstate \<Rightarrow> astate \<Rightarrow> proto" where
  "ex_proto e c w a \<equiv> \<lparr>pr_epoch = e, pr_cells = [c], pr_workers = [w], pr_advancers = [a]\<rparr>"

lemma ex_steps:
  "pstep (pr_init 1 1) (ex_proto 3 0 (WLoaded 3) AIdle)"
  "pstep (ex_proto 3 0 (WLoaded 3) AIdle) (ex_proto 3 3 (WStored 3) AIdle)"
  "pstep (ex_proto 3 3 (WStored 3) AIdle) (ex_proto 3 3 (WActive 3) AIdle)"
  "pstep (ex_proto 3 3 (WActive 3) AIdle) (ex_proto 3 3 (WActive 3) (AScan 3 0))"
  "pstep (ex_proto 3 3 (WActive 3) (AScan 3 0)) (ex_proto 3 3 (WActive 3) (AScan 3 1))"
  "pstep (ex_proto 3 3 (WActive 3) (AScan 3 1)) (ex_proto 3 3 (WActive 3) (AReady 3))"
  "pstep (ex_proto 3 3 (WActive 3) (AReady 3)) (ex_proto 4 3 (WActive 3) AIdle)"
  using pstep.load [of 0 "pr_init 1 1"] pstep.announce [of 0 "ex_proto 3 0 (WLoaded 3) AIdle" 3]
    pstep.accept [of 0 "ex_proto 3 3 (WStored 3) AIdle" 3]
    pstep.start_scan [of 0 "ex_proto 3 3 (WActive 3) AIdle" 3]
    pstep.scan_pass [of 0 "ex_proto 3 3 (WActive 3) (AScan 3 0)" 3 0]
    pstep.scan_done [of 0 "ex_proto 3 3 (WActive 3) (AScan 3 1)" 3 1]
    pstep.advance [of 0 "ex_proto 3 3 (WActive 3) (AReady 3)" 3]
  by (simp_all add: pr_init_def pe_new_def UINT64_MAX_def)

lemma ex_ready: "pr_reachable 1 1 (ex_proto 3 3 (WActive 3) (AReady 3))"
  unfolding pr_reachable_def using ex_steps(1-6) by (meson rtranclp.intros)

lemma ex_advanced: "pr_reachable 1 1 (ex_proto 4 3 (WActive 3) AIdle)"
  using ex_ready ex_steps(7) unfolding pr_reachable_def by (meson rtranclp.intros)

text \<open>
  C7.  In every interleaving of the workers' begin and end steps with the advancers' scans and
  compare-exchanges, an operation that runs in epoch e sees the global epoch at e or e + 1 and
  no further: the epoch never moves two steps past a running operation.
\<close>

theorem active_epoch_window:
  assumes "pr_reachable n m s" "t < n" "pr_workers s ! t = WActive e"
  shows "pr_epoch s = e \<or> pr_epoch s = e + 1"
proof -
  from reachable_inv [OF assms(1)] assms(2)
  have "worker_ok (pr_epoch s) (pr_cells s ! t) (pr_workers s ! t)" by (simp add: pr_inv_def)
  then show ?thesis by (simp add: assms(3))
qed

theorem active_epoch_window_witness:
  "pr_reachable 1 1 (ex_proto 4 3 (WActive 3) AIdle) \<and> (4 :: u64) = 3 + 1"
  using active_epoch_window [OF ex_advanced, of 0 3] ex_advanced by simp

text \<open>
  C10.  When an advancer that saw the current epoch c has finished its wait, no worker runs an
  operation of epoch c - 1, whatever began or ended while it scanned: what it then writes back of epoch c - 1 is
  complete.
\<close>

theorem advance_quiescent:
  assumes "pr_reachable n m s" "a < length (pr_advancers s)" "pr_advancers s ! a = AReady (pr_epoch s)" "t < n"
  shows "pr_workers s ! t \<noteq> WActive (pr_epoch s - 1)"
proof -
  from reachable_inv [OF assms(1)] assms(2)
  have "advancer_ok (pr_epoch s) (pr_workers s) (pr_advancers s ! a)" "length (pr_workers s) = n"
    by (simp_all add: pr_inv_def)
  then show ?thesis using assms(3,4) by simp
qed

theorem advance_quiescent_witness:
  "pr_reachable 1 1 (ex_proto 3 3 (WActive 3) (AReady 3)) \<and> WActive 3 \<noteq> WActive (3 - 1)"
  using advance_quiescent [OF ex_ready, of 0 0] ex_ready by simp

end
