(* ===== verification/DCSS.thy ===== *)
theory DCSS
  imports Montage_Prelude
begin

text \<open>
  The double-compare-single-swap of nbMontage: \<^verbatim>\<open>lin_var\<close> and \<^verbatim>\<open>sc_desc_t\<close> of
  \<^verbatim>\<open>src/persist/EpochSys.hpp\<close>, \<^verbatim>\<open>try_complete\<close> and \<^verbatim>\<open>try_abort\<close> of \<^verbatim>\<open>EpochSys.cpp\<close>, and the
  operations of \<^verbatim>\<open>atomic_lin_var\<close> of \<^verbatim>\<open>src/persist/api/Recoverable.hpp\<close> without
  \<^verbatim>\<open>VISIBLE_READ\<close> and \<^verbatim>\<open>USE_TSX\<close>.  The low two bits of a counter are its state: in a variable
  \<^verbatim>\<open>00\<close> is a value and \<^verbatim>\<open>01\<close> a descriptor; in a descriptor \<^verbatim>\<open>01\<close> is in progress,
  \<^verbatim>\<open>10\<close> committed and \<^verbatim>\<open>11\<close> aborted.  The global epoch that \<^verbatim>\<open>check_epoch\<close> reads is the
  argument \<^term>\<open>ge\<close>.
\<close>

section \<open>Data\<close>

record lin_var =
  lv_val :: u64
  lv_cnt :: u64

record sc_desc =
  d_old_val :: u64
  d_new_val :: u64
  d_epoch :: u64
  d_tid_sn :: u64
  d_var :: lin_var

record dcss =
  dc_vars :: "addr \<Rightarrow> lin_var"
  dc_descs :: "addr \<Rightarrow> sc_desc"

definition is_desc :: "lin_var \<Rightarrow> bool" where
  "is_desc v \<longleftrightarrow> lv_cnt v AND 3 = 1"

section \<open>Packed thread id and serial number\<close>

definition get_tid :: "u64 \<Rightarrow> u64" where
  "get_tid w = drop_bit 48 (push_bit 48 0xffff AND w)"

definition get_sn :: "u64 \<Rightarrow> u64" where
  "get_sn w = 0xffffffffffff AND w"

definition set_tid_sn :: "u64 \<Rightarrow> u64 \<Rightarrow> u64 res" where
  "set_tid_sn t n =
     rassert (t < 65536 \<and> n \<le> 0xffffffffffff) (Inr (push_bit 48 t OR (n AND 0xffffffffffff)))"

definition set_tid :: "u64 \<Rightarrow> u64 \<Rightarrow> u64 res" where
  "set_tid t w = rassert (t < 65536) (Inr (push_bit 48 t OR (w AND 0xffffffffffff)))"

definition increment_sn :: "u64 \<Rightarrow> u64 res" where
  "increment_sn w = rassert (w AND 0xffffffffffff \<noteq> 0xffffffffffff) (Inr (w + 1))"

section \<open>Descriptors\<close>

definition desc_new :: "u64 \<Rightarrow> sc_desc res" where
  "desc_new t = rbind (set_tid_sn t 0) (\<lambda>w.
     Inr \<lparr>d_old_val = 0, d_new_val = 0, d_epoch = NULL_EPOCH, d_tid_sn = w,
          d_var = \<lparr>lv_val = 0, lv_cnt = 0\<rparr>\<rparr>)"

definition desc_reinit :: "sc_desc \<Rightarrow> sc_desc res" where
  "desc_reinit d = rbind (increment_sn (d_tid_sn d)) (\<lambda>w.
     Inr (d\<lparr>d_tid_sn := w, d_var := \<lparr>lv_val = 0, lv_cnt = 0\<rparr>\<rparr>))"

definition set_up_epoch :: "u64 \<Rightarrow> sc_desc \<Rightarrow> sc_desc" where
  "set_up_epoch e d = d\<lparr>d_epoch := e\<rparr>"

definition set_up_var :: "u64 \<Rightarrow> u64 \<Rightarrow> u64 \<Rightarrow> u64 \<Rightarrow> sc_desc \<Rightarrow> sc_desc" where
  "set_up_var c a old new d = d\<lparr>d_var := \<lparr>lv_val = a, lv_cnt = c\<rparr>, d_old_val := old, d_new_val := new\<rparr>"

definition lv_in_progress :: "lin_var \<Rightarrow> bool" where
  "lv_in_progress v \<longleftrightarrow> lv_cnt v AND 3 = 1"

definition lv_committed :: "lin_var \<Rightarrow> bool" where
  "lv_committed v \<longleftrightarrow> lv_cnt v AND 3 = 2"

definition lv_match :: "lin_var \<Rightarrow> lin_var \<Rightarrow> bool" where
  "lv_match old_d new_d \<longleftrightarrow> lv_cnt old_d AND NOT 3 = lv_cnt new_d AND NOT 3 \<and> lv_val old_d = lv_val new_d"

definition desc_abort :: "lin_var \<Rightarrow> sc_desc \<Rightarrow> bool \<times> sc_desc" where
  "desc_abort d0 d =
     (let expected = \<lparr>lv_val = lv_val d0, lv_cnt = (lv_cnt d0 AND NOT 3) OR 1\<rparr> in
      if d_var d = expected then (True, d\<lparr>d_var := expected\<lparr>lv_cnt := lv_cnt expected + 2\<rparr>\<rparr>)
      else (False, d))"

definition desc_commit :: "lin_var \<Rightarrow> sc_desc \<Rightarrow> bool \<times> sc_desc" where
  "desc_commit d0 d =
     (let expected = \<lparr>lv_val = lv_val d0, lv_cnt = (lv_cnt d0 AND NOT 3) OR 1\<rparr> in
      if d_var d = expected then (True, d\<lparr>d_var := expected\<lparr>lv_cnt := lv_cnt expected + 1\<rparr>\<rparr>)
      else (False, d))"

text \<open>A compare-exchange on a variable.\<close>

definition var_cas :: "addr \<Rightarrow> lin_var \<Rightarrow> lin_var \<Rightarrow> dcss \<Rightarrow> bool \<times> dcss" where
  "var_cas a expected desired s =
     (if dc_vars s a = expected then (True, s\<lparr>dc_vars := (dc_vars s)(a := desired)\<rparr>) else (False, s))"

definition cleanup :: "addr \<Rightarrow> lin_var \<Rightarrow> dcss \<Rightarrow> dcss res" where
  "cleanup da old_d s =
     (let d = dc_descs s da; new_d = d_var d in
      if \<not> lv_match old_d new_d then Inr s
      else rassert (\<not> lv_in_progress new_d)
        (let expected = \<lparr>lv_val = da, lv_cnt = (lv_cnt new_d AND NOT 3) OR 1\<rparr> in
         Inr (snd (var_cas (lv_val new_d) expected
           (if lv_committed new_d then \<lparr>lv_val = d_new_val d, lv_cnt = lv_cnt new_d + 2\<rparr>
            else \<lparr>lv_val = d_old_val d, lv_cnt = lv_cnt new_d + 1\<rparr>) s))))"

definition try_complete :: "u64 \<Rightarrow> addr \<Rightarrow> addr \<Rightarrow> dcss \<Rightarrow> dcss res" where
  "try_complete ge da a s =
     (let d = dc_descs s da; d0 = d_var d in
      if lv_val d0 \<noteq> a then Inr s
      else let d1 = (if lv_in_progress d0
                     then if d_epoch d = ge then snd (desc_commit d0 d) else snd (desc_abort d0 d)
                     else d)
           in cleanup da d0 (s\<lparr>dc_descs := (dc_descs s)(da := d1)\<rparr>))"

definition try_abort :: "u64 \<Rightarrow> sc_desc \<Rightarrow> sc_desc" where
  "try_abort expected_e d =
     (if d_epoch d = expected_e \<and> lv_in_progress (d_var d) then snd (desc_abort (d_var d) d) else d)"

section \<open>Operations on variables\<close>

text \<open>
  Loops re-read the variable; the fuel of \<^verbatim>\<open>lv_load\<close> and \<^verbatim>\<open>lv_store\<close> bounds the number of turns,
  and \<^verbatim>\<open>Diverges\<close> is the value of running out of it.
\<close>

fun lv_load :: "nat \<Rightarrow> u64 \<Rightarrow> addr \<Rightarrow> dcss \<Rightarrow> (u64 \<times> dcss) res" where
  "lv_load 0 ge a s = Inl Diverges"
| "lv_load (Suc n) ge a s =
     (let r = dc_vars s a in
      if is_desc r then rbind (try_complete ge (lv_val r) a s) (lv_load n ge a)
      else Inr (lv_val r, s))"

fun lv_store :: "nat \<Rightarrow> u64 \<Rightarrow> addr \<Rightarrow> u64 \<Rightarrow> dcss \<Rightarrow> dcss res" where
  "lv_store 0 ge a desired s = Inl Diverges"
| "lv_store (Suc n) ge a desired s =
     (let r = dc_vars s a in
      rbind (if is_desc r
             then rbind (try_complete ge (lv_val r) a s) (\<lambda>s1.
               Inr (r\<lparr>lv_cnt := (lv_cnt r AND NOT 3) + 4\<rparr>, s1))
             else Inr (r, s)) (\<lambda>(r1, s1).
        case var_cas a r1 \<lparr>lv_val = desired, lv_cnt = lv_cnt r1 + 4\<rparr> s1 of
          (True, s2) \<Rightarrow> Inr s2
        | (False, s2) \<Rightarrow> lv_store n ge a desired s2))"

text \<open>\<^term>\<open>e\<close> is the epoch of the calling thread's operation.\<close>

fun lv_store_verify :: "nat \<Rightarrow> u64 \<Rightarrow> u64 \<Rightarrow> addr \<Rightarrow> u64 \<Rightarrow> dcss \<Rightarrow> dcss res" where
  "lv_store_verify 0 e ge a desired s = Inl Diverges"
| "lv_store_verify (Suc n) e ge a desired s =
     (let r = dc_vars s a in
      rbind (if is_desc r
             then rbind (try_complete ge (lv_val r) a s) (\<lambda>s1.
               Inr (r\<lparr>lv_cnt := (lv_cnt r AND NOT 3) + 4\<rparr>, s1))
             else Inr (r, s)) (\<lambda>(r1, s1).
        if e = ge
        then case var_cas a r1 \<lparr>lv_val = desired, lv_cnt = lv_cnt r1 + 4\<rparr> s1 of
               (True, s2) \<Rightarrow> Inr s2
             | (False, s2) \<Rightarrow> lv_store_verify n e ge a desired s2
        else Inl EpochVerifyException))"

definition lv_CAS :: "u64 \<Rightarrow> addr \<Rightarrow> u64 \<Rightarrow> u64 \<Rightarrow> dcss \<Rightarrow> (bool \<times> dcss) res" where
  "lv_CAS ge a expected desired s =
     (let r = dc_vars s a in
      if is_desc r then rbind (try_complete ge (lv_val r) a s) (\<lambda>s1. Inr (False, s1))
      else Inr (var_cas a \<lparr>lv_val = expected, lv_cnt = lv_cnt r\<rparr> \<lparr>lv_val = desired, lv_cnt = lv_cnt r + 4\<rparr> s))"

text \<open>
  \<^verbatim>\<open>CAS_verify\<close> in an operation: the first part installs the descriptor \<^term>\<open>da\<close> of the calling
  thread, the second completes it.  Between the two any thread may complete it.
\<close>

definition cas_install :: "u64 \<Rightarrow> addr \<Rightarrow> addr \<Rightarrow> u64 \<Rightarrow> u64 \<Rightarrow> dcss \<Rightarrow> (bool \<times> dcss) res" where
  "cas_install ge da a expected desired s =
     (let r = dc_vars s a in
      if is_desc r then rbind (try_complete ge (lv_val r) a s) (\<lambda>s1. Inr (False, s1))
      else if lv_val r \<noteq> expected then Inr (False, s)
      else rassert (lv_cnt r AND 3 = 0)
        (let s1 = s\<lparr>dc_descs := (dc_descs s)(da := set_up_var (lv_cnt r + 1) a expected desired (dc_descs s da))\<rparr>
         in Inr (var_cas a r \<lparr>lv_val = da, lv_cnt = lv_cnt r + 1\<rparr> s1)))"

definition cas_finish :: "u64 \<Rightarrow> addr \<Rightarrow> addr \<Rightarrow> dcss \<Rightarrow> (bool \<times> dcss) res" where
  "cas_finish ge da a s =
     rbind (try_complete ge da a s) (\<lambda>s1. Inr (lv_committed (d_var (dc_descs s1 da)), s1))"

definition lv_CAS_verify :: "u64 \<Rightarrow> addr \<Rightarrow> addr \<Rightarrow> u64 \<Rightarrow> u64 \<Rightarrow> dcss \<Rightarrow> (bool \<times> dcss) res" where
  "lv_CAS_verify ge da a expected desired s =
     rbind (cas_install ge da a expected desired s) (\<lambda>(installed, s1).
       if installed then cas_finish ge da a s1 else Inr (False, s1))"

section \<open>Counter arithmetic\<close>

lemma and_split: "(x :: u64) = (x AND NOT m) + (x AND m)"
proof -
  have "(x AND NOT m) + (x AND m) = (x AND NOT m) OR (x AND m)"
    by (rule disjunctive_add) (auto simp: bit_simps)
  also have "\<dots> = x" by (rule bit_eqI) (auto simp: bit_simps)
  finally show ?thesis by simp
qed

lemma low_add:
  assumes "(b :: u64) AND 3 = 0" and "k AND 3 = k"
  shows "(b + k) AND 3 = k" "(b + k) AND NOT 3 = b"
proof -
  have m: "(3 :: u64) = mask 2" by (simp add: mask_eq_exp_minus_1)
  show *: "(b + k) AND 3 = k"
    using mask_eqs(1) [of b 2 k] assms by (simp add: m)
  show "(b + k) AND NOT 3 = b" using and_split [of "b + k" 3] * by simp
qed

lemma low_or: "(b :: u64) AND 3 = 0 \<Longrightarrow> b OR 1 = b + 1"
proof -
  assume b: "b AND 3 = 0"
  have "bit (b AND 3) 0 = bit b 0" by (simp add: bit_simps)
  then have "\<not> bit b 0" using b by simp
  then show ?thesis by (intro disjunctive_add [symmetric]) (metis bit_1_iff)
qed

lemma low_consts [simp]: "(1 :: u64) AND 3 = 1" "(2 :: u64) AND 3 = 2" "(3 :: u64) AND 3 = 3"
  by simp_all

lemmas low_simps = low_add [where k = 1, simplified] low_add [where k = 2, simplified]
  low_add [where k = 3, simplified] low_or

lemmas low_simps_comm = low_simps [simplified add.commute [of _ "1 :: u64"] add.commute [of _ "2 :: u64"]
  add.commute [of _ "3 :: u64"]]

section \<open>Completing a descriptor\<close>

lemmas desc_defs = try_complete_def cleanup_def desc_commit_def desc_abort_def lv_in_progress_def
  lv_committed_def lv_match_def var_cas_def Let_def

text \<open>The variable \<^term>\<open>a\<close> with counter \<^term>\<open>b\<close> holds the descriptor \<^term>\<open>da\<close> in progress.\<close>

definition pending :: "addr \<Rightarrow> addr \<Rightarrow> u64 \<Rightarrow> dcss \<Rightarrow> bool" where
  "pending da a b s \<longleftrightarrow> b AND 3 = 0 \<and> dc_vars s a = \<lparr>lv_val = da, lv_cnt = b + 1\<rparr>
     \<and> d_var (dc_descs s da) = \<lparr>lv_val = a, lv_cnt = b + 1\<rparr>"

text \<open>The descriptor is decided, and the variable holds a value again.\<close>

definition resolve :: "bool \<Rightarrow> addr \<Rightarrow> addr \<Rightarrow> u64 \<Rightarrow> dcss \<Rightarrow> dcss" where
  "resolve ok da a b s =
     (let d = dc_descs s da in
      s\<lparr>dc_vars := (dc_vars s)(a := \<lparr>lv_val = (if ok then d_new_val d else d_old_val d), lv_cnt = b + 4\<rparr>),
        dc_descs := (dc_descs s)(da := d\<lparr>d_var := \<lparr>lv_val = a, lv_cnt = b + (if ok then 2 else 3)\<rparr>\<rparr>)\<rparr>)"

definition decided :: "bool \<Rightarrow> addr \<Rightarrow> addr \<Rightarrow> u64 \<Rightarrow> dcss \<Rightarrow> bool" where
  "decided ok da a b s \<longleftrightarrow> b AND 3 = 0 \<and> dc_vars s a \<noteq> \<lparr>lv_val = da, lv_cnt = b + 1\<rparr>
     \<and> d_var (dc_descs s da) = \<lparr>lv_val = a, lv_cnt = b + (if ok then 2 else 3)\<rparr>"

lemma try_complete_pending:
  assumes "pending da a b s"
  shows "try_complete ge da a s = Inr (resolve (d_epoch (dc_descs s da) = ge) da a b s)"
proof -
  have b: "b AND 3 = 0" and v: "dc_vars s a = \<lparr>lv_val = da, lv_cnt = b + 1\<rparr>"
    and d: "d_var (dc_descs s da) = \<lparr>lv_val = a, lv_cnt = b + 1\<rparr>"
    using assms by (auto simp: pending_def)
  show ?thesis
    by (cases "d_epoch (dc_descs s da) = ge")
      (simp_all add: desc_defs d v b low_simps low_simps_comm resolve_def add.commute [of b])
qed

lemma resolve_decided:
  assumes "pending da a b s"
  shows "decided ok da a b (resolve ok da a b s)"
proof -
  have "b + 4 \<noteq> b + (1 :: u64)" by simp
  then show ?thesis using assms by (simp add: decided_def resolve_def Let_def pending_def)
qed

lemma try_complete_decided:
  assumes "decided ok da a b s"
  shows "try_complete ge da a s = Inr s"
proof -
  have b: "b AND 3 = 0" and v: "dc_vars s a \<noteq> \<lparr>lv_val = da, lv_cnt = b + 1\<rparr>"
    and d: "d_var (dc_descs s da) = \<lparr>lv_val = a, lv_cnt = b + (if ok then 2 else 3)\<rparr>"
    using assms by (auto simp: decided_def)
  show ?thesis
    by (cases ok) (simp_all add: desc_defs d v b low_simps low_simps_comm)
qed

text \<open>Any number of threads completing the same descriptor, each with the epoch it reads.\<close>

definition complete_by :: "u64 list \<Rightarrow> addr \<Rightarrow> addr \<Rightarrow> dcss \<Rightarrow> dcss res" where
  "complete_by ges da a s = rfold (\<lambda>ge. try_complete ge da a) ges s"

lemma complete_by_decided: "decided ok da a b s \<Longrightarrow> complete_by ges da a s = Inr s"
  by (induction ges) (simp_all add: complete_by_def try_complete_decided)

lemma complete_by_pending:
  assumes "pending da a b s"
  shows "complete_by (ge # ges) da a s = Inr (resolve (d_epoch (dc_descs s da) = ge) da a b s)"
  using try_complete_pending [OF assms, of ge] complete_by_decided [OF resolve_decided [OF assms]]
  by (simp add: complete_by_def)

lemma try_complete_aborted:
  assumes p: "pending da a b s"
  shows "try_complete ge da a (s\<lparr>dc_descs := (dc_descs s)(da := try_abort (d_epoch (dc_descs s da)) (dc_descs s da))\<rparr>)
       = Inr (resolve False da a b s)"
proof -
  have b: "b AND 3 = 0" and v: "dc_vars s a = \<lparr>lv_val = da, lv_cnt = b + 1\<rparr>"
    and d: "d_var (dc_descs s da) = \<lparr>lv_val = a, lv_cnt = b + 1\<rparr>"
    using assms by (auto simp: pending_def)
  show ?thesis
    by (simp add: desc_defs try_abort_def d v b low_simps low_simps_comm resolve_def add.commute [of b])
qed

section \<open>The operations\<close>

lemma cas_install_pending:
  assumes "\<not> is_desc (dc_vars s a)" and "lv_cnt (dc_vars s a) AND 3 = 0" and "lv_val (dc_vars s a) = expected"
  defines "b \<equiv> lv_cnt (dc_vars s a)"
  shows "\<exists>s'. cas_install ge da a expected desired s = Inr (True, s') \<and> pending da a b s'
     \<and> dc_descs s' da = set_up_var (b + 1) a expected desired (dc_descs s da)
     \<and> (\<forall>x. x \<noteq> a \<longrightarrow> dc_vars s' x = dc_vars s x)"
  using assms by (auto simp: cas_install_def Let_def var_cas_def pending_def b_def set_up_var_def)

lemma set_up_var_sel [simp]:
  "d_epoch (set_up_var c a old new d) = d_epoch d"
  "d_new_val (set_up_var c a old new d) = new"
  "d_old_val (set_up_var c a old new d) = old"
  by (simp_all add: set_up_var_def)

lemma lv_load_value: "\<not> is_desc (dc_vars s a) \<Longrightarrow> lv_load (Suc n) ge a s = Inr (lv_val (dc_vars s a), s)"
  by simp

lemma resolve_not_desc:
  assumes "pending da a b s"
  shows "\<not> is_desc (dc_vars (resolve ok da a b s) a)"
proof -
  have "(b + 4) AND 3 = (0 :: u64)"
    using assms mask_eqs(1) [of b 2 "4 :: u64"] by (simp add: pending_def mask_eq_exp_minus_1)
  then show ?thesis by (simp add: is_desc_def resolve_def Let_def)
qed

section \<open>Packing\<close>

lemma pack_bits:
  assumes "t < 65536"
  shows "get_tid (push_bit 48 t OR (n AND 0xffffffffffff)) = t"
    and "get_sn (push_bit 48 t OR (n AND 0xffffffffffff)) = n AND 0xffffffffffff"
proof -
  have m: "(0xffffffffffff :: u64) = mask 48" "(0xffff :: u64) = mask 16"
    by (simp_all add: mask_eq_exp_minus_1)
  have t: "\<not> bit t i" if "16 \<le> i" for i
  proof -
    have "t AND mask 16 = t" using assms by (intro less_mask_eq) simp
    then show ?thesis using that by (metis bit_and_iff bit_mask_iff not_le)
  qed
  show "get_sn (push_bit 48 t OR (n AND 0xffffffffffff)) = n AND 0xffffffffffff"
    unfolding get_sn_def m by (rule bit_eqI) (auto simp: bit_simps)
  show "get_tid (push_bit 48 t OR (n AND 0xffffffffffff)) = t"
    unfolding get_tid_def m
  proof (rule bit_eqI)
    fix i assume "possible_bit TYPE(64 word) i"
    show "bit (drop_bit 48 (push_bit 48 (mask 16) AND (push_bit 48 t OR n AND mask 48))) i = bit t i"
      using t [of i] by (cases "i < 16") (auto simp: bit_simps)
  qed
qed

section \<open>Properties\<close>

lemma mask48: "(0xffffffffffff :: u64) = mask 48"
  by (simp add: mask_eq_exp_minus_1)

lemma resolve_load:
  assumes "pending da a b s"
  shows "lv_load (Suc n) ge a (resolve ok da a b s)
    = Inr (if ok then d_new_val (dc_descs s da) else d_old_val (dc_descs s da), resolve ok da a b s)"
  using lv_load_value [OF resolve_not_desc [OF assms], of n ge ok] by (simp add: resolve_def Let_def)

lemma cas_finish_pending:
  assumes "pending da a b s"
  shows "cas_finish ge da a s
    = Inr (d_epoch (dc_descs s da) = ge, resolve (d_epoch (dc_descs s da) = ge) da a b s)"
  using assms by (cases "d_epoch (dc_descs s da) = ge")
    (simp_all add: cas_finish_def try_complete_pending [OF assms] resolve_def Let_def lv_committed_def pending_def low_simps)

lemma cas_finish_decided:
  assumes "decided ok da a b s"
  shows "cas_finish ge da a s = Inr (ok, s)"
  using assms by (cases ok)
    (simp_all add: cas_finish_def try_complete_decided [OF assms] lv_committed_def decided_def low_simps)

text \<open>A store for the witnesses: variable 8 holds 5, descriptor 16 is set up for epoch 3.\<close>

definition ex_dcss :: dcss where
  "ex_dcss = \<lparr>dc_vars = (\<lambda>_. \<lparr>lv_val = 5, lv_cnt = 0\<rparr>),
     dc_descs = (\<lambda>_. \<lparr>d_old_val = 0, d_new_val = 0, d_epoch = 3, d_tid_sn = 0, d_var = \<lparr>lv_val = 0, lv_cnt = 0\<rparr>\<rparr>)\<rparr>"

text \<open>
  C8.  \<^verbatim>\<open>CAS_verify\<close> run without interference succeeds exactly if the variable holds the expected
  value and the global epoch is the epoch of the operation; a later load then returns the
  desired value on success and the old one otherwise, and no other variable changes.
\<close>

theorem CAS_verify_correct:
  assumes "\<not> is_desc (dc_vars s a)" "lv_cnt (dc_vars s a) AND 3 = 0"
  shows "\<exists>ok s'. lv_CAS_verify ge da a expected desired s = Inr (ok, s')
    \<and> ok = (lv_val (dc_vars s a) = expected \<and> d_epoch (dc_descs s da) = ge)
    \<and> lv_load 1 ge a s' = Inr (if ok then desired else lv_val (dc_vars s a), s')
    \<and> (\<forall>x. x \<noteq> a \<longrightarrow> dc_vars s' x = dc_vars s x)"
proof (cases "lv_val (dc_vars s a) = expected")
  case True
  from cas_install_pending [OF assms True, of ge da desired] obtain s1 where
    s1: "cas_install ge da a expected desired s = Inr (True, s1)" "pending da a (lv_cnt (dc_vars s a)) s1"
      "dc_descs s1 da = set_up_var (lv_cnt (dc_vars s a) + 1) a expected desired (dc_descs s da)"
      "\<forall>x. x \<noteq> a \<longrightarrow> dc_vars s1 x = dc_vars s x" by blast
  let ?s' = "resolve (d_epoch (dc_descs s da) = ge) da a (lv_cnt (dc_vars s a)) s1"
  have "lv_CAS_verify ge da a expected desired s = Inr (d_epoch (dc_descs s da) = ge, ?s')"
    using cas_finish_pending [OF s1(2), of ge] s1(1,3) by (simp add: lv_CAS_verify_def)
  moreover have "\<forall>x. x \<noteq> a \<longrightarrow> dc_vars ?s' x = dc_vars s x" using s1(4) by (simp add: resolve_def Let_def)
  ultimately show ?thesis using resolve_load [OF s1(2), of 0 ge] s1(3) True by simp
next
  case False
  with assms show ?thesis by (auto simp: lv_CAS_verify_def cas_install_def Let_def)
qed

theorem CAS_verify_correct_witness:
  "\<exists>s'. lv_CAS_verify 3 16 8 5 6 ex_dcss = Inr (True, s') \<and> lv_load 1 3 8 s' = Inr (6, s')"
  using CAS_verify_correct [of ex_dcss 8 3 16 5 6] by (auto simp: ex_dcss_def is_desc_def)



text \<open>
  C30.  A thread id below 65536 and a serial number of 48 bits survive packing into one word, and
  incrementing the serial number of the word, the last value apart, changes nothing else.
\<close>

theorem tid_sn_roundtrip:
  assumes "t < 65536" "n \<le> 0xffffffffffff"
  shows "\<exists>w. set_tid_sn t n = Inr w \<and> get_tid w = t \<and> get_sn w = n
    \<and> (if n = 0xffffffffffff then increment_sn w = Inl Assertion
       else \<exists>w'. increment_sn w = Inr w' \<and> get_tid w' = t \<and> get_sn w' = n + 1)"
proof -
  have low: "k AND 0xffffffffffff = k" if "k \<le> 0xffffffffffff" for k :: u64
  proof -
    have "k < 2 ^ 48" using that by (simp add: word_less_nat_alt word_le_nat_alt)
    then show ?thesis using less_mask_eq [of k 48] by (simp add: mask_eq_exp_minus_1)
  qed
  have pack: "push_bit 48 t OR k = push_bit 48 t + k" if "k \<le> 0xffffffffffff" for k :: u64
  proof (rule disjunctive_add [symmetric])
    fix i show "\<not> bit (push_bit 48 t) i \<or> \<not> bit k i"
      using low [OF that] by (metis bit_and_iff bit_push_bit_iff bit_mask_iff mask48 not_le)
  qed
  let ?w = "push_bit 48 t OR n"
  have w: "set_tid_sn t n = Inr ?w" "get_tid ?w = t" "get_sn ?w = n"
    using assms pack_bits [OF assms(1), of n] low [OF assms(2)] by (simp_all add: set_tid_sn_def rassert_def)
  have sn: "?w AND 0xffffffffffff = n" using w(3) by (simp add: get_sn_def and.commute)
  show ?thesis
  proof (cases "n = 0xffffffffffff")
    case True
    then show ?thesis using w sn by (simp add: increment_sn_def rassert_def)
  next
    case False
    with assms(2) have n1: "n + 1 \<le> 0xffffffffffff" by (metis inc_le order_le_neq_trans)
    have "?w + 1 = push_bit 48 t OR (n + 1)" using pack [OF assms(2)] pack [OF n1] by simp
    then show ?thesis
      using w sn False pack_bits [OF assms(1), of "n + 1"] low [OF n1] by (simp add: increment_sn_def rassert_def)
  qed
qed

theorem tid_sn_roundtrip_witness: "get_tid (push_bit 48 7 OR 9) = 7 \<and> get_sn (push_bit 48 7 OR 9) = 9"
  using tid_sn_roundtrip [of 7 9] by (auto simp: set_tid_sn_def rassert_def)

end
