(* ===== verification/NVM_Model.thy ===== *)
theory NVM_Model
  imports DCSS
begin

text \<open>
  Persistent blocks and memory.  \<^verbatim>\<open>PBlk\<close> of \<^verbatim>\<open>src/persist/EpochSys.hpp\<close> is a header and the
  value of the derived class.  Memory has a volatile view, which the program reads and writes, and
  the image that would be found after a crash; \<^verbatim>\<open>clwb\<close> and \<^verbatim>\<open>clwb_range_nofence\<close> of
  \<^verbatim>\<open>src/utils/PersistFunc.hpp\<close> copy the first cache line, which holds the header, or the whole
  block from the one to the other.  A write-back takes effect at once, so \<^verbatim>\<open>sfence\<close> changes
  nothing.  The allocator is a function from the set of allocated addresses to a new one.
\<close>

section \<open>Write-back of a range\<close>

text \<open>
  The addresses at which \<^verbatim>\<open>clwb_range_nofence(p, sz)\<close> issues a write-back; an address is a natural
  number, since a range that wraps around is not a valid one.
\<close>

definition CACHE_LINE_SIZE :: nat where
  [simp]: "CACHE_LINE_SIZE = 64"

definition CACHE_LINE_MASK :: nat where
  [simp]: "CACHE_LINE_MASK = CACHE_LINE_SIZE - 1"

function clwb_from :: "nat \<Rightarrow> nat \<Rightarrow> nat list" where
  "clwb_from cur bound = (if cur \<le> bound then cur # clwb_from (cur + CACHE_LINE_SIZE) bound else [])"
  by pat_completeness auto
termination by (relation "measure (\<lambda>(cur, bound). Suc bound - cur)") auto

declare clwb_from.simps [simp del]

definition clwb_range_lines :: "nat \<Rightarrow> nat \<Rightarrow> nat list" where
  "clwb_range_lines p sz = clwb_from p ((p + sz) OR CACHE_LINE_MASK)"

lemma clwb_from_mem: "p + 64 * k \<le> bound \<Longrightarrow> p + 64 * k \<in> set (clwb_from p bound)"
proof (induction k arbitrary: p)
  case 0
  then show ?case by (simp add: clwb_from.simps [of p])
next
  case (Suc k)
  then have "p + 64 + 64 * k \<in> set (clwb_from (p + 64) bound)" by simp
  then show ?case using Suc.prems by (simp add: clwb_from.simps [of p] add.assoc)
qed

lemma line_end: "(n :: nat) OR 63 = n div 64 * 64 + 63"
proof -
  have "n OR mask 6 = (n OR mask 6) div 2 ^ 6 * 2 ^ 6 + (n OR mask 6) mod 2 ^ 6" by simp
  also have "(n OR mask 6) div 2 ^ 6 = drop_bit 6 (n OR mask 6)" by (simp add: drop_bit_eq_div)
  also have "drop_bit 6 (n OR mask 6) = n div 2 ^ 6"
    by (simp add: drop_bit_or drop_bit_mask_eq) (simp add: drop_bit_eq_div)
  also have "(n OR mask 6) mod 2 ^ 6 = mask 6"
    unfolding take_bit_eq_mod [symmetric] by (rule bit_eqI) (auto simp: bit_simps)
  finally show ?thesis by (simp add: mask_eq_exp_minus_1)
qed

section \<open>Blocks\<close>

datatype pblktype = INIT | ALLOC | UPDATE | DELETE | RECLAIMED | EPOCH | OWNED | DESC

record phdr =
  pb_retire :: addr
  pb_epoch :: u64
  pb_blktype :: pblktype
  pb_tid_sn :: u64
  pb_id :: u64

text \<open>The default constructor and the copy constructor of \<^verbatim>\<open>PBlk\<close>.\<close>

definition PBlk_new :: phdr where
  "PBlk_new = \<lparr>pb_retire = 0, pb_epoch = NULL_EPOCH, pb_blktype = INIT, pb_tid_sn = 0, pb_id = 0\<rparr>"

definition PBlk_copy :: "phdr \<Rightarrow> phdr" where
  "PBlk_copy oth = \<lparr>pb_retire = 0, pb_epoch = NULL_EPOCH,
     pb_blktype = (if pb_blktype oth = OWNED then OWNED else INIT), pb_tid_sn = 0, pb_id = pb_id oth\<rparr>"

definition PBlk_destroy :: "phdr \<Rightarrow> phdr" where
  "PBlk_destroy b = b\<lparr>pb_epoch := NULL_EPOCH\<rparr>"

definition retired :: "phdr \<Rightarrow> bool" where
  "retired b \<longleftrightarrow> pb_retire b \<noteq> 0"

text \<open>No class of the repository overrides \<^verbatim>\<open>get_data\<close>, which returns \<^verbatim>\<open>nullptr\<close>.\<close>

definition get_data :: "phdr \<Rightarrow> addr" where
  [simp]: "get_data b = 0"

section \<open>Memory\<close>

record 'v pmem =
  m_hdr :: "addr \<Rightarrow> phdr option"
  m_val :: "addr \<Rightarrow> 'v option"
  n_hdr :: "addr \<Rightarrow> phdr option"
  n_val :: "addr \<Rightarrow> 'v option"
  allocated :: "addr set"
  local_descs :: "sc_desc list"
  n_descs :: "sc_desc option list"

definition hdr :: "addr \<Rightarrow> 'v pmem \<Rightarrow> phdr res" where
  "hdr a m = (case m_hdr m a of None \<Rightarrow> Inl BadAccess | Some b \<Rightarrow> Inr b)"

definition set_hdr :: "addr \<Rightarrow> phdr \<Rightarrow> 'v pmem \<Rightarrow> 'v pmem" where
  "set_hdr a b m = m\<lparr>m_hdr := (m_hdr m)(a \<mapsto> b)\<rparr>"

definition set_val :: "addr \<Rightarrow> 'v \<Rightarrow> 'v pmem \<Rightarrow> 'v pmem" where
  "set_val a v m = m\<lparr>m_val := (m_val m)(a \<mapsto> v)\<rparr>"

definition clwb :: "addr \<Rightarrow> 'v pmem \<Rightarrow> 'v pmem" where
  "clwb a m = m\<lparr>n_hdr := (n_hdr m)(a := m_hdr m a)\<rparr>"

definition clwb_range :: "addr \<Rightarrow> 'v pmem \<Rightarrow> 'v pmem" where
  "clwb_range a m = m\<lparr>n_hdr := (n_hdr m)(a := m_hdr m a), n_val := (n_val m)(a := m_val m a)\<rparr>"

definition clwb_desc :: "nat \<Rightarrow> 'v pmem \<Rightarrow> 'v pmem" where
  "clwb_desc tid m = m\<lparr>n_descs := (n_descs m)[tid := Some (local_descs m ! tid)]\<rparr>"

text \<open>\<^verbatim>\<open>_ral->allocate\<close> followed by the constructor.\<close>

definition ral_new :: "(addr set \<Rightarrow> addr) \<Rightarrow> phdr \<Rightarrow> 'v option \<Rightarrow> 'v pmem \<Rightarrow> addr \<times> 'v pmem" where
  "ral_new ral b v m =
     (let a = ral (allocated m) in
      (a, m\<lparr>m_hdr := (m_hdr m)(a \<mapsto> b), m_val := (case v of None \<Rightarrow> m_val m | Some x \<Rightarrow> (m_val m)(a \<mapsto> x)),
            allocated := insert a (allocated m)\<rparr>))"

definition ral_deallocate :: "addr \<Rightarrow> 'v pmem \<Rightarrow> 'v pmem" where
  "ral_deallocate a m = m\<lparr>allocated := allocated m - {a}\<rparr>"

text \<open>The image of a block agrees with the volatile view, in its header or as a whole.\<close>

definition hdr_persisted :: "addr \<Rightarrow> 'v pmem \<Rightarrow> bool" where
  "hdr_persisted a m \<longleftrightarrow> n_hdr m a = m_hdr m a"

definition persisted :: "addr \<Rightarrow> 'v pmem \<Rightarrow> bool" where
  "persisted a m \<longleftrightarrow> n_hdr m a = m_hdr m a \<and> n_val m a = m_val m a"

lemma clwb_view [simp]:
  "m_hdr (clwb a m) = m_hdr m" "m_val (clwb a m) = m_val m" "allocated (clwb a m) = allocated m"
  "n_val (clwb a m) = n_val m" "local_descs (clwb a m) = local_descs m" "n_descs (clwb a m) = n_descs m"
  by (simp_all add: clwb_def)

lemma clwb_range_view [simp]:
  "m_hdr (clwb_range a m) = m_hdr m" "m_val (clwb_range a m) = m_val m"
  "allocated (clwb_range a m) = allocated m" "local_descs (clwb_range a m) = local_descs m"
  "n_descs (clwb_range a m) = n_descs m"
  by (simp_all add: clwb_range_def)

lemma clwb_desc_view [simp]:
  "m_hdr (clwb_desc t m) = m_hdr m" "m_val (clwb_desc t m) = m_val m" "n_hdr (clwb_desc t m) = n_hdr m"
  "n_val (clwb_desc t m) = n_val m" "allocated (clwb_desc t m) = allocated m"
  "local_descs (clwb_desc t m) = local_descs m"
  by (simp_all add: clwb_desc_def)

lemma clwb_range_persists: "persisted a (clwb_range a m)"
  by (simp add: persisted_def clwb_range_def)

lemma clwb_persists: "hdr_persisted a (clwb a m)"
  by (simp add: hdr_persisted_def clwb_def)

text \<open>A write-back never makes the image of another block stale.\<close>

lemma persisted_clwb: "persisted b m \<Longrightarrow> persisted b (clwb a m)"
  by (simp add: persisted_def clwb_def)

lemma persisted_clwb_range: "persisted b m \<Longrightarrow> persisted b (clwb_range a m)"
  by (simp add: persisted_def clwb_range_def)

lemma hdr_persisted_clwb: "hdr_persisted b m \<Longrightarrow> hdr_persisted b (clwb a m)"
  by (simp add: hdr_persisted_def clwb_def)

lemma hdr_persisted_clwb_range: "hdr_persisted b m \<Longrightarrow> hdr_persisted b (clwb_range a m)"
  by (simp add: hdr_persisted_def clwb_range_def)

lemma persisted_hdr: "persisted a m \<Longrightarrow> hdr_persisted a m"
  by (simp add: persisted_def hdr_persisted_def)

section \<open>Properties\<close>

text \<open>
  C27.  \<^verbatim>\<open>clwb_range_nofence(p, sz)\<close> issues a write-back in every cache line that holds a byte of the
  range from p to p + sz, however the range is aligned.
\<close>

theorem clwb_range_covers:
  assumes "p \<le> b" "b \<le> p + sz"
  shows "\<exists>x \<in> set (clwb_range_lines p sz). x div CACHE_LINE_SIZE = b div CACHE_LINE_SIZE"
proof -
  let ?k = "b div 64 - p div 64"
  have div: "p div 64 \<le> b div 64" "b div 64 \<le> (p + sz) div 64" using assms by (simp_all add: div_le_mono)
  then have line: "(p + 64 * ?k) div 64 = b div 64" by simp
  have "p + 64 * ?k \<le> (p + sz) div 64 * 64 + 63"
    using div line by linarith
  then have "p + 64 * ?k \<in> set (clwb_from p ((p + sz) OR 63))"
    using clwb_from_mem [of p ?k] by (simp add: line_end)
  with line show ?thesis by (intro bexI [of _ "p + 64 * ?k"]) (simp_all add: clwb_range_lines_def)
qed

theorem clwb_range_covers_witness:
  "\<exists>x \<in> set (clwb_range_lines 60 10). x div CACHE_LINE_SIZE = 66 div CACHE_LINE_SIZE"
  using clwb_range_covers [of 60 66 10] by simp

end
