(* ===== verification/Epoch_Recovery.thy ===== *)
theory Epoch_Recovery
  imports NVM_Model "HOL-Library.AList"
begin

text \<open>
  \<^verbatim>\<open>EpochSys::recover\<close> and \<^verbatim>\<open>nbEpochSys::recover\<close> of \<^verbatim>\<open>src/persist/EpochSys.cpp\<close>.  The input is
  what the iterators of \<^verbatim>\<open>Ralloc\<close> deliver: for each recovery thread the blocks found in the image,
  in the order of its pass; both passes see the same blocks.  Between the barriers the threads
  work on local data, so each phase is the list of its local results; the merges run one thread
  after the other, as \<^verbatim>\<open>curr_reporting\<close> enforces.  The hash map \<^verbatim>\<open>in_use_local\<close>, which a merge
  iterates over, is an association list.
\<close>

section \<open>Blocks in the image\<close>

text \<open>The fields \<^verbatim>\<open>rb_ge\<close> and \<^verbatim>\<open>rb_desc\<close> are read for an \<^verbatim>\<open>EPOCH\<close> and a \<^verbatim>\<open>DESC\<close> block only.\<close>

record rblk =
  rb_addr :: addr
  rb_hdr :: phdr
  rb_ge :: u64
  rb_desc :: sc_desc

abbreviation rb_type :: "rblk \<Rightarrow> pblktype" where
  "rb_type b \<equiv> pb_blktype (rb_hdr b)"

abbreviation rb_epoch :: "rblk \<Rightarrow> u64" where
  "rb_epoch b \<equiv> pb_epoch (rb_hdr b)"

abbreviation rb_id :: "rblk \<Rightarrow> u64" where
  "rb_id b \<equiv> pb_id (rb_hdr b)"

section \<open>First pass\<close>

record pass1 =
  p1_max_epoch :: u64
  p1_anti :: "rblk list"
  p1_deleted :: "u64 set"
  p1_container :: "u64 option"
  p1_descs :: "u64 \<rightharpoonup> sc_desc"

definition pass1_init :: pass1 where
  "pass1_init = \<lparr>p1_max_epoch = 0, p1_anti = [], p1_deleted = {}, p1_container = None, p1_descs = Map.empty\<rparr>"

definition see_epoch :: "u64 \<Rightarrow> pass1 \<Rightarrow> pass1" where
  "see_epoch e l = l\<lparr>p1_max_epoch := max (p1_max_epoch l) e\<rparr>"

definition see_anti :: "rblk \<Rightarrow> pass1 \<Rightarrow> pass1" where
  "see_anti b l = l\<lparr>p1_anti := p1_anti l @ [b],
     p1_deleted := (if rb_epoch b \<noteq> NULL_EPOCH then insert (rb_id b) (p1_deleted l) else p1_deleted l)\<rparr>"

definition pass1_step :: "bool \<Rightarrow> rblk \<Rightarrow> pass1 \<Rightarrow> pass1 res" where
  "pass1_step clean_start b l =
     rbind (if rb_type b = EPOCH then Inr (see_epoch (rb_ge b) (l\<lparr>p1_container := Some (rb_ge b)\<rparr>))
            else if rb_type b = DELETE
            then (if clean_start then Inl (ErrExit ''delete node appears after a clean exit.'')
                  else Inr (see_anti b l))
            else Inr l)
       (\<lambda>l1. Inr (see_epoch (rb_epoch b) l1))"

text \<open>The nonblocking variant also collects the descriptors and accepts delete nodes always.\<close>

definition nb_pass1_step :: "rblk \<Rightarrow> pass1 \<Rightarrow> pass1" where
  "nb_pass1_step b l =
     see_epoch (rb_epoch b)
       (if rb_type b = EPOCH then see_epoch (rb_ge b) (l\<lparr>p1_container := Some (rb_ge b)\<rparr>)
        else if rb_type b = DESC
        then l\<lparr>p1_descs := (p1_descs l)(get_tid (d_tid_sn (rb_desc b)) \<mapsto> rb_desc b)\<rparr>
        else if rb_type b = DELETE then see_anti b l
        else l)"

text \<open>Each thread's pass; the first error wins.\<close>

fun rmap :: "('a \<Rightarrow> 'b res) \<Rightarrow> 'a list \<Rightarrow> 'b list res" where
  "rmap f [] = Inr []"
| "rmap f (x # xs) = rbind (f x) (\<lambda>y. rbind (rmap f xs) (\<lambda>ys. Inr (y # ys)))"

definition max_of :: "pass1 list \<Rightarrow> u64" where
  "max_of ls = fold (\<lambda>l m. max m (p1_max_epoch l)) ls 0"

text \<open>The pointer \<^verbatim>\<open>epoch_container\<close> is shared; the last thread that found one set it.\<close>

definition container_of :: "pass1 list \<Rightarrow> u64 option" where
  "container_of ls = fold (\<lambda>l c. case p1_container l of None \<Rightarrow> c | Some e \<Rightarrow> Some e) ls None"

section \<open>Deleted identifiers\<close>

text \<open>
  \<^verbatim>\<open>anti_nodes_local.equal_range(e)\<close> for \<^verbatim>\<open>max_epoch\<close> and \<^verbatim>\<open>max_epoch - 1\<close>: the identifiers of
  immature delete nodes are erased, then the threads' sets are merged.
\<close>

definition drop_immature :: "u64 \<Rightarrow> pass1 \<Rightarrow> u64 set" where
  "drop_immature max_epoch l =
     p1_deleted l - rb_id ` set (filter (\<lambda>b. rb_epoch b = max_epoch \<or> rb_epoch b = max_epoch - 1) (p1_anti l))"

definition merge_deleted :: "u64 \<Rightarrow> pass1 list \<Rightarrow> u64 set" where
  "merge_deleted max_epoch ls = (\<Union>l \<in> set ls. drop_immature max_epoch l)"

text \<open>
  \<^verbatim>\<open>descs[curr_tid]\<close> of a thread without descriptor is a null pointer.  A block belongs to an
  operation that did not commit if its serial number is newer than the descriptor's, or is the
  descriptor's own and the descriptor is not committed.
\<close>

definition uncommitted :: "(u64 \<rightharpoonup> sc_desc) \<Rightarrow> rblk \<Rightarrow> bool res" where
  "uncommitted descs b =
     (let tid = get_tid (pb_tid_sn (rb_hdr b)); sn = get_sn (pb_tid_sn (rb_hdr b)) in
      case descs tid of
        None \<Rightarrow> Inl BadAccess
      | Some d \<Rightarrow> Inr (sn > get_sn (d_tid_sn d)
                       \<or> sn = get_sn (d_tid_sn d) \<and> \<not> lv_committed (d_var d)))"

definition nb_drop_immature :: "(u64 \<rightharpoonup> sc_desc) \<Rightarrow> u64 \<Rightarrow> pass1 \<Rightarrow> u64 set res" where
  "nb_drop_immature descs epoch_cap l =
     rfold (\<lambda>b del. rbind (if rb_epoch b > epoch_cap then Inr True else uncommitted descs b) (\<lambda>r.
              Inr (if r then del - {rb_id b} else del)))
       (p1_anti l) (p1_deleted l)"

section \<open>Second pass\<close>

record pass2 =
  p2_in_use :: "(u64 \<times> rblk) list"
  p2_not_in_use :: "rblk list"

definition pass2_init :: pass2 where
  "pass2_init = \<lparr>p2_in_use = [], p2_not_in_use = []\<rparr>"

definition discard :: "rblk \<Rightarrow> pass2 \<Rightarrow> pass2" where
  "discard b l = l\<lparr>p2_not_in_use := p2_not_in_use l @ [b]\<rparr>"

definition elect :: "rblk \<Rightarrow> pass2 \<Rightarrow> pass2" where
  "elect b l = l\<lparr>p2_in_use := AList.update (rb_id b) b (p2_in_use l)\<rparr>"

definition keep_blk :: "bool \<Rightarrow> bool \<Rightarrow> rblk \<Rightarrow> pass2 \<Rightarrow> pass2 res" where
  "keep_blk nb clean_start b l =
     (case rb_type b of
        OWNED \<Rightarrow> Inl (ErrExit ''OWNED isn't a valid blktype in this version.'')
      | ALLOC \<Rightarrow>
          (case map_of (p2_in_use l) (rb_id b) of
             None \<Rightarrow> Inr (elect b l)
           | Some _ \<Rightarrow>
               if clean_start then Inl (ErrExit ''more than one record with the same id after a clean exit.'')
               else Inr (discard b l))
      | UPDATE \<Rightarrow>
          (case map_of (p2_in_use l) (rb_id b) of
             None \<Rightarrow> Inr (elect b l)
           | Some f \<Rightarrow>
               if clean_start then Inl (ErrExit ''more than one record with the same id after a clean exit.'')
               else if rb_epoch b > rb_epoch f then Inr (elect b (discard f l))
               else Inr (discard b l))
      | DELETE \<Rightarrow> Inr l
      | EPOCH \<Rightarrow> Inr l
      | DESC \<Rightarrow> if nb then Inr l else Inr (discard b l)
      | _ \<Rightarrow> Inl (ErrExit ''wrong type of pblk discovered''))"

definition pass2_step :: "bool \<Rightarrow> bool \<Rightarrow> (rblk \<Rightarrow> bool res) \<Rightarrow> u64 \<Rightarrow> u64 set \<Rightarrow> rblk \<Rightarrow> pass2 \<Rightarrow> pass2 res" where
  "pass2_step nb clean_start unc epoch_cap deleted_ids b l =
     rbind (if rb_type b = EPOCH \<or> rb_type b = DESC \<or> rb_type b = DELETE then Inr False
            else if rb_epoch b = NULL_EPOCH \<or> rb_epoch b > epoch_cap \<or> rb_id b \<in> deleted_ids then Inr True
            else unc b)
       (\<lambda>skip. if skip then Inr (discard b l) else keep_blk nb clean_start b l)"

text \<open>The merge of one thread's choice into the common result; the loser is no longer in use.\<close>

record recovered =
  rec_in_use :: "(u64 \<times> rblk) list"
  rec_freed :: "addr list"
  rec_epoch :: u64

definition free_blk :: "rblk \<Rightarrow> recovered \<Rightarrow> recovered" where
  "free_blk b r = r\<lparr>rec_freed := rec_freed r @ [rb_addr b]\<rparr>"

definition merge_one :: "u64 \<times> rblk \<Rightarrow> recovered \<Rightarrow> recovered" where
  "merge_one p r =
     (case map_of (rec_in_use r) (fst p) of
        None \<Rightarrow> r\<lparr>rec_in_use := AList.update (fst p) (snd p) (rec_in_use r)\<rparr>
      | Some f \<Rightarrow>
          if rb_epoch f < rb_epoch (snd p)
          then free_blk f (r\<lparr>rec_in_use := AList.update (fst p) (snd p) (rec_in_use r)\<rparr>)
          else free_blk (snd p) r)"

text \<open>
  \<^verbatim>\<open>rec_epoch\<close> is the value of \<^verbatim>\<open>*global_epoch\<close> when recovery returns: \<^verbatim>\<open>EpochSys\<close> stores \<^verbatim>\<open>max_epoch\<close>
  there, \<^verbatim>\<open>nbEpochSys\<close> leaves what the image holds.
\<close>

text \<open>One thread's turn: the merge, then the deallocation of its discarded blocks and anti-nodes.\<close>

definition finish_thread :: "pass2 \<times> pass1 \<Rightarrow> recovered \<Rightarrow> recovered" where
  "finish_thread t r =
     fold free_blk (p1_anti (snd t))
       (fold free_blk (p2_not_in_use (fst t)) (fold merge_one (p2_in_use (fst t)) r))"

section \<open>Recovery\<close>

definition EpochSys_recover :: "bool \<Rightarrow> rblk list list \<Rightarrow> recovered res" where
  "EpochSys_recover clean_start blks =
     rbind (rmap (\<lambda>bs. rfold (pass1_step clean_start) bs pass1_init) blks) (\<lambda>ls.
     if container_of ls = None then Inl (ErrExit ''epoch container not found during recovery'')
     else let max_epoch = max_of ls; deleted_ids = merge_deleted max_epoch ls in
       rbind (rmap (\<lambda>bs. rfold (pass2_step False clean_start (\<lambda>_. Inr False) (max_epoch - 2) deleted_ids) bs pass2_init)
                blks) (\<lambda>ps.
       Inr (fold finish_thread (zip ps ls) \<lparr>rec_in_use = [], rec_freed = [], rec_epoch = max_epoch\<rparr>)))"

definition merge_descs :: "pass1 list \<Rightarrow> u64 \<rightharpoonup> sc_desc" where
  "merge_descs ls = fold (\<lambda>l d. p1_descs l ++ d) ls Map.empty"

definition nbEpochSys_recover :: "bool \<Rightarrow> rblk list list \<Rightarrow> recovered res" where
  "nbEpochSys_recover clean_start blks =
     (let ls = map (\<lambda>bs. fold nb_pass1_step bs pass1_init) blks in
      case container_of ls of None \<Rightarrow> Inl (ErrExit ''epoch container not found during recovery'')
      | Some global_epoch \<Rightarrow> let max_epoch = max_of ls; epoch_cap = max_epoch - 2; descs = merge_descs ls in
        rbind (rmap (nb_drop_immature descs epoch_cap) ls) (\<lambda>dels.
        let deleted_ids = \<Union> (set dels) in
        rbind (rmap (\<lambda>bs. rfold (pass2_step True clean_start (uncommitted descs) epoch_cap deleted_ids) bs pass2_init)
                 blks) (\<lambda>ps.
        Inr (fold finish_thread (zip ps ls) \<lparr>rec_in_use = [], rec_freed = [], rec_epoch = global_epoch\<rparr>))))"

section \<open>What recovery should choose\<close>

text \<open>
  \<open>best E m\<close>: the map \<open>m\<close> holds, for each identifier that occurs among the blocks \<open>E\<close>, one of
  them with the greatest epoch, and nothing else.
\<close>

definition best :: "rblk set \<Rightarrow> (u64 \<rightharpoonup> rblk) \<Rightarrow> bool" where
  "best E m \<longleftrightarrow> (\<forall>i. case m i of
     None \<Rightarrow> \<forall>b \<in> E. rb_id b \<noteq> i
   | Some b \<Rightarrow> b \<in> E \<and> rb_id b = i \<and> (\<forall>b' \<in> E. rb_id b' = i \<longrightarrow> rb_epoch b' \<le> rb_epoch b))"

definition newer :: "rblk option \<Rightarrow> rblk option \<Rightarrow> rblk option" where
  "newer x y = (case x of None \<Rightarrow> y | Some f \<Rightarrow>
     (case y of None \<Rightarrow> Some f | Some b \<Rightarrow> if rb_epoch f < rb_epoch b then Some b else Some f))"

lemma best_empty [simp]: "best {} m \<longleftrightarrow> m = Map.empty"
  by (auto simp: best_def fun_eq_iff split: option.splits)

lemma best_merge:
  assumes "best E m" "best F n"
  shows "best (E \<union> F) (\<lambda>i. newer (m i) (n i))"
  unfolding best_def
proof
  fix i
  show "case newer (m i) (n i) of None \<Rightarrow> \<forall>b \<in> E \<union> F. rb_id b \<noteq> i
     | Some b \<Rightarrow> b \<in> E \<union> F \<and> rb_id b = i \<and> (\<forall>b' \<in> E \<union> F. rb_id b' = i \<longrightarrow> rb_epoch b' \<le> rb_epoch b)"
    using assms [unfolded best_def, THEN spec, of i]
    by (fastforce simp: newer_def split: option.splits if_splits)
qed

text \<open>Blocks with the same identifier and epoch being one block, the choice is determined.\<close>

lemma best_unique:
  assumes "best E m" "best E n"
    and "\<And>a b. a \<in> E \<Longrightarrow> b \<in> E \<Longrightarrow> rb_id a = rb_id b \<Longrightarrow> rb_epoch a = rb_epoch b \<Longrightarrow> a = b"
  shows "m = n"
proof
  fix i
  show "m i = n i"
    using assms(1,2) [unfolded best_def, THEN spec, of i] assms(3)
    by (auto split: option.splits) (metis order_antisym)
qed

lemma best_one: "best {b} [rb_id b \<mapsto> b]"
  by (auto simp: best_def)

section \<open>First pass: what it saw\<close>

definition blk_max :: "rblk \<Rightarrow> u64" where
  "blk_max b = max (rb_epoch b) (if rb_type b = EPOCH then rb_ge b else 0)"

definition image_epoch :: "rblk set \<Rightarrow> u64" where
  "image_epoch B = Max (insert 0 (blk_max ` B))"

lemma image_epoch_empty [simp]: "image_epoch {} = 0"
  by (simp add: image_epoch_def)

lemma image_epoch_insert [simp]:
  "finite B \<Longrightarrow> image_epoch (insert b B) = max (blk_max b) (image_epoch B)"
  by (simp add: image_epoch_def insert_commute [of 0])

lemma image_epoch_union:
  "finite A \<Longrightarrow> finite B \<Longrightarrow> image_epoch (A \<union> B) = max (image_epoch A) (image_epoch B)"
  by (induction A rule: finite_induct) (auto simp: ac_simps)

lemma image_epoch_ge: "finite B \<Longrightarrow> b \<in> B \<Longrightarrow> rb_epoch b \<le> image_epoch B"
proof -
  assume "finite B" "b \<in> B"
  then have "blk_max b \<le> image_epoch B" unfolding image_epoch_def by (intro Max_ge) auto
  moreover have "rb_epoch b \<le> blk_max b" by (simp add: blk_max_def)
  ultimately show ?thesis by (rule order_trans [rotated])
qed

definition find_container :: "rblk list \<Rightarrow> u64 option" where
  "find_container bs = fold (\<lambda>b c. if rb_type b = EPOCH then Some (rb_ge b) else c) bs None"

lemma find_container_append:
  "find_container (bs @ cs) = (case find_container cs of None \<Rightarrow> find_container bs | Some e \<Rightarrow> Some e)"
  by (induction cs rule: rev_induct) (auto simp: find_container_def split: option.splits)

lemma find_container_cases:
  "case find_container bs of
     None \<Rightarrow> \<forall>b \<in> set bs. rb_type b \<noteq> EPOCH
   | Some e \<Rightarrow> \<exists>b \<in> set bs. rb_type b = EPOCH \<and> rb_ge b = e"
  by (induction bs rule: rev_induct) (auto simp: find_container_def split: option.splits)

definition saw :: "rblk list \<Rightarrow> pass1 \<Rightarrow> bool" where
  "saw bs l \<longleftrightarrow>
     p1_anti l = filter (\<lambda>b. rb_type b = DELETE) bs
   \<and> p1_deleted l = rb_id ` set (filter (\<lambda>b. rb_type b = DELETE \<and> rb_epoch b \<noteq> NULL_EPOCH) bs)
   \<and> p1_container l = find_container bs
   \<and> p1_max_epoch l = image_epoch (set bs)"

lemma saw_init: "saw [] pass1_init"
  by (simp add: saw_def pass1_init_def find_container_def)

lemmas see_defs = see_epoch_def see_anti_def blk_max_def

lemma saw_nb_step: "saw bs l \<Longrightarrow> saw (bs @ [b]) (nb_pass1_step b l)"
  by (cases "rb_type b")
    (simp_all del: set_filter add: saw_def nb_pass1_step_def see_defs find_container_def max.commute max.assoc max.left_commute)

lemma saw_step:
  "saw bs l \<Longrightarrow> \<exists>l'. pass1_step False b l = Inr l' \<and> saw (bs @ [b]) l'"
  by (cases "rb_type b")
    (simp_all del: set_filter add: saw_def pass1_step_def see_defs find_container_def max.commute max.assoc max.left_commute)

lemma nb_pass1_run: "saw bs (fold nb_pass1_step bs pass1_init)"
  by (induction bs rule: rev_induct) (simp_all add: saw_init saw_nb_step)

lemma pass1_run: "\<exists>l. rfold (pass1_step False) bs pass1_init = Inr l \<and> saw bs l"
proof (induction bs rule: rev_induct)
  case Nil
  show ?case by (simp add: saw_init)
next
  case (snoc b bs)
  then obtain l where "rfold (pass1_step False) bs pass1_init = Inr l" "saw bs l" by blast
  with saw_step [of bs l b] show ?case by (auto simp: rfold_append)
qed

lemma rmap_all:
  assumes "\<And>x. x \<in> set xs \<Longrightarrow> \<exists>y. f x = Inr y \<and> P x y"
  shows "\<exists>ys. rmap f xs = Inr ys \<and> list_all2 P xs ys"
  using assms by (induction xs) fastforce+

lemma max_of_saw:
  assumes "list_all2 saw blks ls"
  shows "max_of ls = image_epoch (set (concat blks))"
proof -
  have "fold (\<lambda>l m. max m (p1_max_epoch l)) ls m = max m (image_epoch (set (concat blks)))" for m
    using assms by (induction arbitrary: m rule: list_all2_induct)
      (auto simp: saw_def image_epoch_union ac_simps)
  then show ?thesis by (simp add: max_of_def)
qed

lemma container_of_saw:
  assumes "list_all2 saw blks ls"
  shows "container_of ls = find_container (concat blks)"
proof -
  have "fold (\<lambda>l c. case p1_container l of None \<Rightarrow> c | Some e \<Rightarrow> Some e) ls c
      = (case find_container (concat blks) of None \<Rightarrow> c | Some e \<Rightarrow> Some e)" for c
    using assms by (induction arbitrary: c rule: list_all2_induct)
      (auto simp: saw_def find_container_append split: option.splits, simp add: find_container_def)
  then show ?thesis by (simp add: container_of_def split: option.splits)
qed

section \<open>Second pass: what it chose\<close>

definition data_blk :: "rblk \<Rightarrow> bool" where
  "data_blk b \<longleftrightarrow> rb_type b \<noteq> EPOCH \<and> rb_type b \<noteq> DESC \<and> rb_type b \<noteq> DELETE"

text \<open>The blocks that may be recovered, \<open>u\<close> being those of operations that did not commit.\<close>

definition eligible :: "(rblk \<Rightarrow> bool) \<Rightarrow> u64 \<Rightarrow> u64 set \<Rightarrow> rblk \<Rightarrow> bool" where
  "eligible u epoch_cap deleted_ids b \<longleftrightarrow>
     data_blk b \<and> rb_epoch b \<noteq> NULL_EPOCH \<and> rb_epoch b \<le> epoch_cap \<and> rb_id b \<notin> deleted_ids \<and> \<not> u b"

text \<open>
  What the pass relies on: an eligible block is an \<^verbatim>\<open>ALLOC\<close> or an \<^verbatim>\<open>UPDATE\<close>, and an \<^verbatim>\<open>ALLOC\<close>, the
  first version of its payload, is not newer than another version.
\<close>

definition alloc_first :: "rblk set \<Rightarrow> bool" where
  "alloc_first E \<longleftrightarrow>
     (\<forall>b \<in> E. rb_type b = ALLOC \<or> rb_type b = UPDATE)
   \<and> (\<forall>a \<in> E. \<forall>b \<in> E. rb_type a = ALLOC \<longrightarrow> rb_id a = rb_id b \<longrightarrow> rb_epoch a \<le> rb_epoch b)"

text \<open>The blocks the second pass disposes of when it does not choose them.\<close>

definition handled :: "bool \<Rightarrow> rblk \<Rightarrow> bool" where
  "handled nb b \<longleftrightarrow> data_blk b \<or> rb_type b = DESC \<and> \<not> nb"

definition chose :: "bool \<Rightarrow> (rblk \<Rightarrow> bool) \<Rightarrow> rblk list \<Rightarrow> pass2 \<Rightarrow> bool" where
  "chose nb el bs l \<longleftrightarrow>
     best {b \<in> set bs. el b} (map_of (p2_in_use l))
   \<and> distinct (map fst (p2_in_use l))
   \<and> set (p2_not_in_use l) = {b \<in> set bs. handled nb b \<and> map_of (p2_in_use l) (rb_id b) \<noteq> Some b}"

lemma chose_init: "chose nb el [] pass2_init"
  by (simp add: chose_def pass2_init_def)

lemma chose_skip:
  assumes "chose nb el bs l" "\<not> el b" "b \<notin> set bs"
  shows "chose nb el (bs @ [b]) (if handled nb b then discard b l else l)"
proof -
  have eq: "{x \<in> set (bs @ [b]). el x} = {x \<in> set bs. el x}" using assms(2) by auto
  have "map_of (p2_in_use l) (rb_id b) \<noteq> Some b"
    using assms(1,3) unfolding chose_def best_def by (force split: option.splits)
  with assms(1) show ?thesis
    unfolding chose_def eq by (auto simp: discard_def)
qed

lemma chose_elect:
  assumes "chose nb el bs l" "el b" "b \<notin> set bs" and data: "\<And>x. el x \<Longrightarrow> data_blk x"
    and newest: "\<And>f. f \<in> set bs \<Longrightarrow> el f \<Longrightarrow> rb_id f = rb_id b \<Longrightarrow> rb_epoch f \<le> rb_epoch b"
  shows "chose nb el (bs @ [b])
           (elect b (case map_of (p2_in_use l) (rb_id b) of None \<Rightarrow> l | Some f \<Rightarrow> discard f l))"
proof -
  have eq: "{x \<in> set (bs @ [b]). el x} = insert b {x \<in> set bs. el x}" using assms(2) by auto
  let ?m = "map_of (p2_in_use l)"
  have b: "best {x \<in> set bs. el x} ?m" using assms(1) by (simp add: chose_def)
  have best: "best (insert b {x \<in> set bs. el x}) (?m(rb_id b \<mapsto> b))"
    unfolding best_def
  proof
    fix i
    show "case (?m(rb_id b \<mapsto> b)) i of None \<Rightarrow> \<forall>x \<in> insert b {x \<in> set bs. el x}. rb_id x \<noteq> i
      | Some y \<Rightarrow> y \<in> insert b {x \<in> set bs. el x} \<and> rb_id y = i
          \<and> (\<forall>x \<in> insert b {x \<in> set bs. el x}. rb_id x = i \<longrightarrow> rb_epoch x \<le> rb_epoch y)"
      using b [unfolded best_def, THEN spec, of i] newest by (auto split: option.splits)
  qed
  have sub: "?m i = Some f \<Longrightarrow> f \<in> set bs \<and> el f \<and> rb_id f = i" for i f
    using b [unfolded best_def, THEN spec, of i] by simp
  have h: "el x \<Longrightarrow> handled nb x" for x using data by (simp add: handled_def)
  note c = assms(1) [unfolded chose_def]
  show ?thesis
  proof (cases "?m (rb_id b)")
    case None
    then have "{x \<in> set (bs @ [b]). handled nb x \<and> (?m(rb_id b \<mapsto> b)) (rb_id x) \<noteq> Some x}
        = {x \<in> set bs. handled nb x \<and> ?m (rb_id x) \<noteq> Some x}"
      using assms(3) by auto
    with None c best show ?thesis
      unfolding chose_def eq by (simp add: elect_def update_conv' distinct_update)
  next
    case (Some f)
    have "{x \<in> set (bs @ [b]). handled nb x \<and> (?m(rb_id b \<mapsto> b)) (rb_id x) \<noteq> Some x}
        = insert f {x \<in> set bs. handled nb x \<and> ?m (rb_id x) \<noteq> Some x}"
      using sub [OF Some] h [of f] Some assms(3) by auto
    with Some c best show ?thesis
      unfolding chose_def eq by (simp add: elect_def discard_def update_conv' distinct_update)
  qed
qed

lemma chose_lose:
  assumes "chose nb el bs l" "el b" "b \<notin> set bs" "data_blk b"
    and f: "map_of (p2_in_use l) (rb_id b) = Some f" "rb_epoch b \<le> rb_epoch f"
  shows "chose nb el (bs @ [b]) (discard b l)"
proof -
  have eq: "{x \<in> set (bs @ [b]). el x} = insert b {x \<in> set bs. el x}" using assms(2) by auto
  let ?m = "map_of (p2_in_use l)"
  have b: "best {x \<in> set bs. el x} ?m" using assms(1) by (simp add: chose_def)
  have best: "best (insert b {x \<in> set bs. el x}) ?m"
    unfolding best_def
  proof
    fix i
    show "case ?m i of None \<Rightarrow> \<forall>x \<in> insert b {x \<in> set bs. el x}. rb_id x \<noteq> i
      | Some y \<Rightarrow> y \<in> insert b {x \<in> set bs. el x} \<and> rb_id y = i
          \<and> (\<forall>x \<in> insert b {x \<in> set bs. el x}. rb_id x = i \<longrightarrow> rb_epoch x \<le> rb_epoch y)"
      using b [unfolded best_def, THEN spec, of i] f by (auto split: option.splits)
  qed
  have "f \<in> set bs" using b [unfolded best_def, THEN spec, of "rb_id b"] f by simp
  with assms(3,4) f have "{x \<in> set (bs @ [b]). handled nb x \<and> ?m (rb_id x) \<noteq> Some x}
        = insert b {x \<in> set bs. handled nb x \<and> ?m (rb_id x) \<noteq> Some x}"
    by (auto simp: handled_def)
  with assms(1) best show ?thesis unfolding chose_def eq by (simp add: discard_def)
qed

lemma pass2_step_chose:
  assumes ch: "chose nb (eligible u cap D) bs l"
    and new: "b \<notin> set bs"
    and unc: "data_blk b \<Longrightarrow> unc b = Inr (u b)"
    and alloc: "alloc_first {x \<in> set (bs @ [b]). eligible u cap D x}"
  shows "\<exists>l'. pass2_step nb False unc cap D b l = Inr l' \<and> chose nb (eligible u cap D) (bs @ [b]) l'"
proof (cases "eligible u cap D b")
  case False
  then have "pass2_step nb False unc cap D b l = Inr (if handled nb b then discard b l else l)"
    using unc by (cases "rb_type b")
      (auto simp: eligible_def pass2_step_def keep_blk_def handled_def data_blk_def not_le)
  with chose_skip [OF ch False new] show ?thesis by simp
next
  case True
  let ?E = "{x \<in> set bs. eligible u cap D x}"
  from True unc have step: "pass2_step nb False unc cap D b l = keep_blk nb False b l"
    by (auto simp: eligible_def pass2_step_def data_blk_def not_le)
  have old: "map_of (p2_in_use l) (rb_id b) = Some f \<Longrightarrow>
      f \<in> ?E \<and> rb_id f = rb_id b \<and> (\<forall>x \<in> ?E. rb_id x = rb_id b \<longrightarrow> rb_epoch x \<le> rb_epoch f)" for f
    using ch [unfolded chose_def best_def, THEN conjunct1, THEN spec, of "rb_id b"] by simp
  have none: "map_of (p2_in_use l) (rb_id b) = None \<Longrightarrow> x \<in> ?E \<Longrightarrow> rb_id x \<noteq> rb_id b" for x
    using ch [unfolded chose_def best_def, THEN conjunct1, THEN spec, of "rb_id b"] by auto
  note lose = chose_lose [OF ch True new]
  have db: "data_blk b" "eligible u cap D x \<Longrightarrow> data_blk x" for x using True by (simp_all add: eligible_def)
  have "rb_type b = ALLOC \<or> rb_type b = UPDATE"
    using alloc True by (simp add: alloc_first_def)
  then show ?thesis
  proof
    assume t: "rb_type b = ALLOC"
    show ?thesis
    proof (cases "map_of (p2_in_use l) (rb_id b)")
      case None
      with t step chose_elect [OF ch True new db(2)] none [OF None] show ?thesis
        by (force simp: keep_blk_def)
    next
      case (Some f)
      with alloc True t old [OF Some] have "rb_epoch b \<le> rb_epoch f"
        by (auto simp: alloc_first_def)
      with t step Some lose [OF db(1) Some] show ?thesis by (simp add: keep_blk_def)
    qed
  next
    assume t: "rb_type b = UPDATE"
    show ?thesis
    proof (cases "map_of (p2_in_use l) (rb_id b)")
      case None
      with t step chose_elect [OF ch True new db(2)] none [OF None] show ?thesis
        by (force simp: keep_blk_def)
    next
      case (Some f)
      with t step lose [OF db(1) Some] chose_elect [OF ch True new db(2)] old [OF Some] show ?thesis
        by (force simp: keep_blk_def)
    qed
  qed
qed

lemma alloc_first_mono: "alloc_first E \<Longrightarrow> F \<subseteq> E \<Longrightarrow> alloc_first F"
  by (auto simp: alloc_first_def)

lemma pass2_run:
  assumes "distinct bs" and "\<And>b. b \<in> set bs \<Longrightarrow> data_blk b \<Longrightarrow> unc b = Inr (u b)"
    and "alloc_first {b \<in> set bs. eligible u cap D b}"
  shows "\<exists>l. rfold (pass2_step nb False unc cap D) bs pass2_init = Inr l \<and> chose nb (eligible u cap D) bs l"
  using assms
proof (induction bs rule: rev_induct)
  case Nil
  show ?case by (simp add: chose_init)
next
  case (snoc b bs)
  have "alloc_first {b \<in> set bs. eligible u cap D b}"
    using snoc.prems(3) by (rule alloc_first_mono) auto
  with snoc obtain l where l: "rfold (pass2_step nb False unc cap D) bs pass2_init = Inr l"
      "chose nb (eligible u cap D) bs l" by auto
  from pass2_step_chose [OF l(2), of b unc] snoc.prems
  obtain l' where "pass2_step nb False unc cap D b l = Inr l'" "chose nb (eligible u cap D) (bs @ [b]) l'"
    by auto
  with l(1) show ?case by (simp add: rfold_append)
qed

section \<open>Merging the threads\<close>

definition lost :: "rblk option \<Rightarrow> rblk option \<Rightarrow> rblk set" where
  "lost x y = (case x of None \<Rightarrow> {} | Some b \<Rightarrow>
     (case y of None \<Rightarrow> {} | Some f \<Rightarrow> {if rb_epoch f < rb_epoch b then f else b}))"

definition losers :: "(u64 \<rightharpoonup> rblk) \<Rightarrow> (u64 \<rightharpoonup> rblk) \<Rightarrow> rblk set" where
  "losers n m = (\<Union>i. lost (n i) (m i))"

lemma lost_simps [simp]: "lost None y = {}" "lost x None = {}"
  by (simp_all add: lost_def split: option.split)

lemma fold_free_blk [simp]:
  "rec_in_use (fold free_blk bs r) = rec_in_use r"
  "set (rec_freed (fold free_blk bs r)) = set (rec_freed r) \<union> rb_addr ` set bs"
  "rec_epoch (fold free_blk bs r) = rec_epoch r"
  by (induction bs arbitrary: r) (auto simp: free_blk_def)

lemma losers_upd:
  assumes "n i = None"
  shows "losers (n(i := x)) m = lost x (m i) \<union> losers n m" and "losers n (m(i := y)) = losers n m"
proof -
  have split: "losers n' m' = lost (n' i) (m' i) \<union> (\<Union>j \<in> - {i}. lost (n' j) (m' j))" for n' m'
    unfolding losers_def by auto
  show "losers (n(i := x)) m = lost x (m i) \<union> losers n m"
    using assms split [of "n(i := x)" m] split [of n m] by simp
  show "losers n (m(i := y)) = losers n m"
    using assms split [of n "m(i := y)"] split [of n m] by simp
qed

lemma merge_one_simps:
  "map_of (rec_in_use (merge_one (i, b) r)) = (map_of (rec_in_use r))(i := newer (map_of (rec_in_use r) i) (Some b))"
  "set (rec_freed (merge_one (i, b) r)) = set (rec_freed r) \<union>
     (case map_of (rec_in_use r) i of None \<Rightarrow> {} | Some f \<Rightarrow> {rb_addr (if rb_epoch f < rb_epoch b then f else b)})"
  "rec_epoch (merge_one (i, b) r) = rec_epoch r"
  by (auto simp: merge_one_def free_blk_def update_conv' newer_def fun_upd_idem split: option.split)

lemma fold_merge_one:
  assumes "distinct (map fst xs)"
  shows "map_of (rec_in_use (fold merge_one xs r)) = (\<lambda>i. newer (map_of (rec_in_use r) i) (map_of xs i))"
    and "set (rec_freed (fold merge_one xs r)) = set (rec_freed r) \<union> rb_addr ` losers (map_of xs) (map_of (rec_in_use r))"
    and "rec_epoch (fold merge_one xs r) = rec_epoch r"
  using assms
proof (induction xs arbitrary: r)
  case Nil
  { case 1 show ?case by (simp add: newer_def fun_eq_iff split: option.split) }
  { case 2 show ?case by (simp add: losers_def) }
  { case 3 show ?case by simp }
next
  case (Cons p xs)
  obtain i b where p: "p = (i, b)" by (cases p)
  have fresh: "map_of xs i = None" if "distinct (map fst (p # xs))"
    using that p by (auto simp: map_of_eq_None_iff)
  { case 1
    then have "map_of (rec_in_use (fold merge_one (p # xs) r)) j
        = newer (((map_of (rec_in_use r))(i := newer (map_of (rec_in_use r) i) (Some b))) j) (map_of xs j)" for j
      using Cons.IH(1) by (simp add: p merge_one_simps)
    with fresh [OF 1] show ?case
      by (simp add: p fun_eq_iff) (simp add: newer_def split: option.split) }
  { case 2
    then have f: "map_of xs i = None" and d: "distinct (map fst xs)" using fresh by simp_all
    show ?case
    proof (cases "map_of (rec_in_use r) i")
      case None
      with f Cons.IH(2) [OF d] show ?thesis
        by (simp del: fun_upd_apply add: p merge_one_simps losers_upd)
    next
      case (Some g)
      with f Cons.IH(2) [OF d] show ?thesis
        by (simp del: fun_upd_apply add: p merge_one_simps losers_upd lost_def)
    qed }
  { case 3
    then show ?case using Cons.IH(3) by (simp add: p merge_one_simps) }
qed

text \<open>The state after some threads' turns: the choice so far, and exactly the other blocks freed.\<close>

definition settled :: "bool \<Rightarrow> (rblk \<Rightarrow> bool) \<Rightarrow> rblk set \<Rightarrow> recovered \<Rightarrow> bool" where
  "settled nb el B r \<longleftrightarrow>
     best {b \<in> B. el b} (map_of (rec_in_use r))
   \<and> set (rec_freed r) = rb_addr ` {b \<in> B. (handled nb b \<or> rb_type b = DELETE) \<and> map_of (rec_in_use r) (rb_id b) \<noteq> Some b}"

lemma newer_cases:
  assumes "\<And>f. x = Some f \<Longrightarrow> f \<in> B \<and> h f" "\<And>f. y = Some f \<Longrightarrow> f \<in> C \<and> h f" "b \<notin> B \<or> b \<notin> C"
  shows "(b \<in> B \<or> b \<in> C) \<and> h b \<and> newer x y \<noteq> Some b \<longleftrightarrow>
    b \<in> B \<and> h b \<and> x \<noteq> Some b \<or> b \<in> lost y x \<or> b \<in> C \<and> h b \<and> y \<noteq> Some b"
proof (cases x)
  case None
  then show ?thesis using assms(2,3) by (cases y) (auto simp: newer_def)
next
  case (Some f)
  then have f: "f \<in> B" "h f" using assms(1) by simp_all
  show ?thesis
  proof (cases y)
    case None
    with Some show ?thesis using f assms(3) by (auto simp: newer_def)
  next
    case (Some g)
    then have "g \<in> C" "h g" using assms(2) by simp_all
    with f assms(3) \<open>x = Some f\<close> Some show ?thesis
      by (cases "rb_epoch f < rb_epoch g") (auto simp: newer_def lost_def)
  qed
qed

lemma newer_split:
  assumes m: "best {b \<in> B. el b} m" and n: "best {b \<in> C. el b} n"
    and disj: "B \<inter> C = {}" and el: "\<And>b. el b \<Longrightarrow> h b"
  shows "{b \<in> B \<union> C. h b \<and> newer (m (rb_id b)) (n (rb_id b)) \<noteq> Some b}
    = {b \<in> B. h b \<and> m (rb_id b) \<noteq> Some b} \<union> losers n m \<union> {b \<in> C. h b \<and> n (rb_id b) \<noteq> Some b}" (is "?L = ?R")
proof -
  have m': "m i = Some f \<Longrightarrow> f \<in> B \<and> h f \<and> rb_id f = i" for i f
    using m [unfolded best_def, THEN spec, of i] el by simp
  have n': "n i = Some f \<Longrightarrow> f \<in> C \<and> h f \<and> rb_id f = i" for i f
    using n [unfolded best_def, THEN spec, of i] el by simp
  have "b \<in> lost (n i) (m i) \<Longrightarrow> rb_id b = i" for b i
    using m' [of i] n' [of i] by (cases "n i"; cases "m i") (auto simp: lost_def split: if_splits)
  then have los: "b \<in> losers n m \<longleftrightarrow> b \<in> lost (n (rb_id b)) (m (rb_id b))" for b
    unfolding losers_def by blast
  have "b \<in> ?L \<longleftrightarrow> b \<in> ?R" for b
  proof -
    have "b \<notin> B \<or> b \<notin> C" using disj by blast
    from newer_cases [of "m (rb_id b)" B h "n (rb_id b)" C b, OF _ _ this] m' n'
    have "(b \<in> B \<or> b \<in> C) \<and> h b \<and> newer (m (rb_id b)) (n (rb_id b)) \<noteq> Some b \<longleftrightarrow>
      b \<in> B \<and> h b \<and> m (rb_id b) \<noteq> Some b \<or> b \<in> losers n m \<or> b \<in> C \<and> h b \<and> n (rb_id b) \<noteq> Some b"
      unfolding los by blast
    then show ?thesis by simp
  qed
  then show ?thesis by blast
qed

lemma finish_thread_settled:
  assumes r: "settled nb el B r" and ch: "chose nb el bs p" and sw: "saw bs q"
    and disj: "B \<inter> set bs = {}" and el: "\<And>b. el b \<Longrightarrow> data_blk b"
  shows "settled nb el (B \<union> set bs) (finish_thread (p, q) r)"
    and "rec_epoch (finish_thread (p, q) r) = rec_epoch r"
proof -
  let ?m = "map_of (rec_in_use r)" and ?n = "map_of (p2_in_use p)"
  let ?h = "\<lambda>b. handled nb b \<or> rb_type b = DELETE"
  have d: "distinct (map fst (p2_in_use p))" using ch by (simp add: chose_def)
  have bm: "best {b \<in> B. el b} ?m" and bn: "best {b \<in> set bs. el b} ?n"
    using r ch by (simp_all add: settled_def chose_def)
  have un: "{b \<in> B \<union> set bs. el b} = {b \<in> B. el b} \<union> {b \<in> set bs. el b}" by auto
  have anti: "{b \<in> set bs. ?h b \<and> ?n (rb_id b) \<noteq> Some b} = set (p2_not_in_use p) \<union> set (p1_anti q)"
  proof -
    have "?n (rb_id b) \<noteq> Some b" if "rb_type b = DELETE" for b
      using that bn [unfolded best_def, THEN spec, of "rb_id b"] el [of b] by (auto simp: data_blk_def)
    then show ?thesis using ch sw by (auto simp: chose_def saw_def)
  qed
  have "set (rec_freed (finish_thread (p, q) r))
      = rb_addr ` ({b \<in> B. ?h b \<and> ?m (rb_id b) \<noteq> Some b} \<union> losers ?n ?m
          \<union> {b \<in> set bs. ?h b \<and> ?n (rb_id b) \<noteq> Some b})"
    using r unfolding settled_def anti by (simp add: finish_thread_def fold_merge_one [OF d] image_Un Un_assoc)
  also have "\<dots> = rb_addr ` {b \<in> B \<union> set bs. ?h b \<and> newer (?m (rb_id b)) (?n (rb_id b)) \<noteq> Some b}"
    by (subst newer_split [OF bm bn disj]) (simp_all add: el handled_def)
  finally show "settled nb el (B \<union> set bs) (finish_thread (p, q) r)"
    using best_merge [OF bm bn] unfolding settled_def un
    by (simp add: finish_thread_def fold_merge_one [OF d])
  show "rec_epoch (finish_thread (p, q) r) = rec_epoch r"
    by (simp add: finish_thread_def fold_merge_one [OF d])
qed

lemma finish_threads_settled:
  assumes "list_all2 (chose nb el) blks ps" "list_all2 saw blks ls" "settled nb el B r"
    and "distinct (concat blks)" "B \<inter> set (concat blks) = {}" "\<And>b. el b \<Longrightarrow> data_blk b"
  shows "settled nb el (B \<union> set (concat blks)) (fold finish_thread (zip ps ls) r)
    \<and> rec_epoch (fold finish_thread (zip ps ls) r) = rec_epoch r"
  using assms
proof (induction blks arbitrary: ps ls B r)
  case Nil
  then show ?case by simp
next
  case (Cons bs blks)
  from Cons.prems(1,2) obtain p ps' q ls' where
    eq: "ps = p # ps'" "ls = q # ls'" and p: "chose nb el bs p" "list_all2 (chose nb el) blks ps'"
      "saw bs q" "list_all2 saw blks ls'"
    by (auto simp: list_all2_Cons1)
  have disj: "B \<inter> set bs = {}" "(B \<union> set bs) \<inter> set (concat blks) = {}" "distinct (concat blks)"
    using Cons.prems(4,5) by auto
  note turn = finish_thread_settled [OF Cons.prems(3) p(1,3) disj(1) Cons.prems(6)]
  from Cons.IH [OF p(2,4) turn(1) disj(3,2) Cons.prems(6)] turn(2)
  show ?case by (simp add: eq Un_assoc)
qed

section \<open>Delete nodes\<close>

text \<open>
  An identifier is dead if a delete node of it is old enough and committed.  The erasing loops
  give that set when the delete nodes of one identifier are all mature or all immature.
\<close>

definition immature :: "(rblk \<Rightarrow> bool) \<Rightarrow> u64 \<Rightarrow> rblk \<Rightarrow> bool" where
  "immature u cap b \<longleftrightarrow> rb_epoch b > cap \<or> u b"

definition dead :: "(rblk \<Rightarrow> bool) \<Rightarrow> u64 \<Rightarrow> rblk set \<Rightarrow> u64 set" where
  "dead u cap B = rb_id ` {b \<in> B. rb_type b = DELETE \<and> rb_epoch b \<noteq> NULL_EPOCH \<and> \<not> immature u cap b}"

definition deletes_agree :: "(rblk \<Rightarrow> bool) \<Rightarrow> u64 \<Rightarrow> rblk set \<Rightarrow> bool" where
  "deletes_agree u cap B \<longleftrightarrow>
     (\<forall>a \<in> B. \<forall>b \<in> B. rb_type a = DELETE \<longrightarrow> rb_type b = DELETE \<longrightarrow> rb_id a = rb_id b
        \<longrightarrow> rb_epoch a \<noteq> NULL_EPOCH \<longrightarrow> immature u cap a = immature u cap b)"

lemma dead_thread:
  assumes "deletes_agree u cap B" "set bs \<subseteq> B" "saw bs l"
  shows "p1_deleted l - rb_id ` set (filter (immature u cap) (p1_anti l)) = dead u cap (set bs)"
  using assms unfolding saw_def dead_def deletes_agree_def by (auto simp: image_iff)

lemma dead_Union: "dead u cap (\<Union> (set ` X)) = (\<Union>bs \<in> X. dead u cap (set bs))"
  by (auto simp: dead_def)

lemma late_epoch:
  fixes e m :: u64
  assumes "e \<le> m" "2 \<le> m"
  shows "e = m \<or> e = m - 1 \<longleftrightarrow> e > m - 2"
proof -
  have "1 \<le> m" using assms(2) by (rule order_trans [rotated]) simp
  then have "unat (m - 2) = unat m - 2" "unat (m - 1) = unat m - 1" "2 \<le> unat m"
    using assms(2) by (simp_all add: unat_sub word_le_nat_alt)
  then show ?thesis using assms(1) by (auto simp: word_unat_eq_iff word_less_nat_alt word_le_nat_alt)
qed

lemma merge_deleted_dead:
  assumes sw: "list_all2 saw blks ls"
    and m: "\<And>b. b \<in> set (concat blks) \<Longrightarrow> rb_epoch b \<le> m" "2 \<le> m"
    and agree: "deletes_agree (\<lambda>_. False) (m - 2) (set (concat blks))"
  shows "merge_deleted m ls = dead (\<lambda>_. False) (m - 2) (set (concat blks))"
proof -
  have thread: "drop_immature m l = dead (\<lambda>_. False) (m - 2) (set bs)" if "bs \<in> set blks" "saw bs l" for bs l
  proof -
    have sub: "set bs \<subseteq> set (concat blks)" using that(1) by auto
    have "filter (\<lambda>b. rb_epoch b = m \<or> rb_epoch b = m - 1) (p1_anti l) = filter (immature (\<lambda>_. False) (m - 2)) (p1_anti l)"
      using that(2) sub m late_epoch by (intro filter_cong) (auto simp: saw_def immature_def)
    with dead_thread [OF agree sub that(2)] show ?thesis by (simp add: drop_immature_def)
  qed
  from sw have "(\<Union>l \<in> set ls. drop_immature m l) = (\<Union>bs \<in> set blks. dead (\<lambda>_. False) (m - 2) (set bs))"
    using thread
  proof (induction rule: list_all2_induct)
    case (Cons bs blks l ls)
    then have "drop_immature m l = dead (\<lambda>_. False) (m - 2) (set bs)" by simp
    with Cons.IH Cons.prems show ?case by simp
  qed simp
  then show ?thesis by (simp add: merge_deleted_def dead_Union [symmetric])
qed

section \<open>The outcome of recovery\<close>

text \<open>What recovery after a crash relies on of the image; \<open>u\<close> marks blocks of uncommitted operations.\<close>

definition image_ok :: "(rblk \<Rightarrow> bool) \<Rightarrow> rblk list list \<Rightarrow> bool" where
  "image_ok u blks \<longleftrightarrow>
     (let B = set (concat blks); cap = image_epoch B - 2 in
      distinct (concat blks) \<and> (\<exists>b \<in> B. rb_type b = EPOCH) \<and> 2 \<le> image_epoch B
    \<and> deletes_agree u cap B \<and> alloc_first {b \<in> B. eligible u cap (dead u cap B) b})"

text \<open>
  The outcome: for each identifier the newest block that is neither premature, uncommitted nor
  deleted, and every other block released.  \<^verbatim>\<open>EpochSys\<close> continues in the greatest epoch found,
  \<^verbatim>\<open>nbEpochSys\<close> in the epoch recorded in the epoch container.
\<close>

definition recovers :: "bool \<Rightarrow> (rblk \<Rightarrow> bool) \<Rightarrow> rblk set \<Rightarrow> recovered \<Rightarrow> bool" where
  "recovers nb u B r \<longleftrightarrow>
     (let cap = image_epoch B - 2 in
      (if nb then rec_epoch r \<in> rb_ge ` {b \<in> B. rb_type b = EPOCH} else rec_epoch r = image_epoch B)
    \<and> settled nb (eligible u cap (dead u cap B)) B r)"

lemma second_pass_run:
  assumes "image_ok u blks" and "\<And>b. b \<in> set (concat blks) \<Longrightarrow> data_blk b \<Longrightarrow> unc b = Inr (u b)"
    and "B = set (concat blks)" "cap = image_epoch B - 2"
  shows "\<exists>ps. rmap (\<lambda>bs. rfold (pass2_step nb False unc cap (dead u cap B)) bs pass2_init) blks = Inr ps
    \<and> list_all2 (chose nb (eligible u cap (dead u cap B))) blks ps"
proof (rule rmap_all)
  fix bs assume bs: "bs \<in> set blks"
  have ok: "distinct (concat blks)" "alloc_first {b \<in> B. eligible u cap (dead u cap B) b}"
    using assms(1,3,4) by (simp_all add: image_ok_def Let_def)
  have "alloc_first {b \<in> set bs. eligible u cap (dead u cap B) b}"
    using ok(2) by (rule alloc_first_mono) (use bs assms(3) in auto)
  moreover have "distinct bs" using ok(1) bs by (simp add: distinct_concat_iff)
  ultimately show "\<exists>l. rfold (pass2_step nb False unc cap (dead u cap B)) bs pass2_init = Inr l
      \<and> chose nb (eligible u cap (dead u cap B)) bs l"
    using assms(2) bs by (intro pass2_run) auto
qed

lemma image_container:
  assumes "image_ok u blks"
  obtains g where "find_container (concat blks) = Some g" "g \<in> rb_ge ` {b \<in> set (concat blks). rb_type b = EPOCH}"
proof -
  from assms obtain b where "b \<in> set (concat blks)" "rb_type b = EPOCH"
    unfolding image_ok_def Let_def by blast
  with find_container_cases [of "concat blks"] that show thesis
    by (cases "find_container (concat blks)") (auto simp del: set_concat)
qed

lemma eligible_data: "eligible u cap D b \<Longrightarrow> data_blk b"
  by (simp add: eligible_def)

lemma recover_outcome:
  assumes ok: "image_ok (\<lambda>_. False) blks"
  shows "\<exists>r. EpochSys_recover False blks = Inr r \<and> recovers False (\<lambda>_. False) (set (concat blks)) r"
proof -
  let ?B = "set (concat blks)" and ?u = "\<lambda>_ :: rblk. False"
  let ?cap = "image_epoch ?B - 2" and ?el = "eligible ?u (image_epoch ?B - 2) (dead ?u (image_epoch ?B - 2) ?B)"
  obtain ls where ls: "rmap (\<lambda>bs. rfold (pass1_step False) bs pass1_init) blks = Inr ls" "list_all2 saw blks ls"
    using rmap_all [of blks "\<lambda>bs. rfold (pass1_step False) bs pass1_init" saw] pass1_run by blast
  have max: "max_of ls = image_epoch ?B" using ls(2) by (rule max_of_saw)
  have del: "merge_deleted (image_epoch ?B) ls = dead ?u ?cap ?B"
    using ok by (intro merge_deleted_dead [OF ls(2)] image_epoch_ge) (simp_all add: image_ok_def Let_def)
  obtain ps where ps: "rmap (\<lambda>bs. rfold (pass2_step False False (\<lambda>_. Inr False) ?cap (dead ?u ?cap ?B)) bs pass2_init) blks = Inr ps"
      "list_all2 (chose False ?el) blks ps"
    using second_pass_run [OF ok, of "\<lambda>_. Inr False" ?B ?cap False] by auto
  let ?r = "\<lparr>rec_in_use = [], rec_freed = [], rec_epoch = image_epoch ?B\<rparr>"
  have "EpochSys_recover False blks = Inr (fold finish_thread (zip ps ls) ?r)"
    using ls ps(1) container_of_saw [OF ls(2)] image_container [OF ok]
    by (auto simp del: set_concat simp add: EpochSys_recover_def max del Let_def)
  moreover have "recovers False ?u ?B (fold finish_thread (zip ps ls) ?r)"
    using finish_threads_settled [OF ps(2) ls(2), of "{}" ?r] ok eligible_data
    by (simp del: set_concat add: recovers_def Let_def settled_def image_ok_def)
  ultimately show ?thesis by blast
qed

section \<open>The nonblocking variant\<close>

abbreviation desc_tid :: "rblk \<Rightarrow> u64" where
  "desc_tid b \<equiv> get_tid (d_tid_sn (rb_desc b))"

text \<open>\<open>descs\<close> is the descriptors of the image by thread, one for each thread.\<close>

definition desc_map :: "rblk set \<Rightarrow> (u64 \<rightharpoonup> sc_desc) \<Rightarrow> bool" where
  "desc_map B descs \<longleftrightarrow>
     (\<forall>t. case descs t of
        None \<Rightarrow> \<forall>b \<in> B. rb_type b = DESC \<longrightarrow> desc_tid b \<noteq> t
      | Some d \<Rightarrow> (\<exists>b \<in> B. rb_type b = DESC \<and> desc_tid b = t)
               \<and> (\<forall>b \<in> B. rb_type b = DESC \<longrightarrow> desc_tid b = t \<longrightarrow> rb_desc b = d))"

definition uncommitted_in :: "(u64 \<rightharpoonup> sc_desc) \<Rightarrow> rblk \<Rightarrow> bool" where
  "uncommitted_in descs b \<longleftrightarrow> uncommitted descs b = Inr True"

definition owners_known :: "(u64 \<rightharpoonup> sc_desc) \<Rightarrow> rblk set \<Rightarrow> bool" where
  "owners_known descs B \<longleftrightarrow>
     (\<forall>b \<in> B. data_blk b \<or> rb_type b = DELETE \<longrightarrow> descs (get_tid (pb_tid_sn (rb_hdr b))) \<noteq> None)"

lemma uncommitted_total:
  "owners_known descs B \<Longrightarrow> b \<in> B \<Longrightarrow> data_blk b \<or> rb_type b = DELETE \<Longrightarrow>
   uncommitted descs b = Inr (uncommitted_in descs b)"
  by (auto simp: owners_known_def uncommitted_in_def uncommitted_def Let_def)

text \<open>A map that holds descriptors of \<open>B\<close> and misses none of the threads.\<close>

definition descs_from :: "rblk set \<Rightarrow> (u64 \<rightharpoonup> sc_desc) \<Rightarrow> bool" where
  "descs_from B m \<longleftrightarrow>
     (\<forall>t d. m t = Some d \<longrightarrow> (\<exists>b \<in> B. rb_type b = DESC \<and> desc_tid b = t \<and> rb_desc b = d))
   \<and> (\<forall>b \<in> B. rb_type b = DESC \<longrightarrow> m (desc_tid b) \<noteq> None)"

lemma descs_from_unique:
  assumes "desc_map B descs" "descs_from B m"
  shows "m = descs"
proof
  fix t
  show "m t = descs t"
    using assms(1) [unfolded desc_map_def, THEN spec, of t] assms(2)
    unfolding descs_from_def by (cases "m t"; cases "descs t") fastforce+
qed

lemma nb_pass1_descs: "descs_from (set bs) (p1_descs (fold nb_pass1_step bs pass1_init))"
proof (induction bs rule: rev_induct)
  case Nil
  show ?case by (simp add: descs_from_def pass1_init_def)
next
  case (snoc b bs)
  let ?m = "p1_descs (fold nb_pass1_step bs pass1_init)"
  have "p1_descs (fold nb_pass1_step (bs @ [b]) pass1_init)
      = (if rb_type b = DESC then ?m(desc_tid b \<mapsto> rb_desc b) else ?m)"
    by (simp add: nb_pass1_step_def see_defs)
  with snoc show ?case unfolding descs_from_def by auto
qed

lemma merge_descs_from:
  "descs_from (set (concat blks)) (merge_descs (map (\<lambda>bs. fold nb_pass1_step bs pass1_init) blks))"
proof -
  have "descs_from (A \<union> set (concat blks))
      (fold (\<lambda>l d. p1_descs l ++ d) (map (\<lambda>bs. fold nb_pass1_step bs pass1_init) blks) m)"
    if "descs_from A m" for A m
    using that
  proof (induction blks arbitrary: A m)
    case (Cons bs blks)
    let ?n = "p1_descs (fold nb_pass1_step bs pass1_init)"
    have "descs_from (A \<union> set bs) (?n ++ m)"
      using Cons.prems nb_pass1_descs [of bs] unfolding descs_from_def
      by (auto simp: map_add_def split: option.splits) blast+
    from Cons.IH [OF this] show ?case by (simp add: Un_assoc)
  qed simp
  from this [of "{}" Map.empty] show ?thesis by (simp add: merge_descs_def descs_from_def)
qed

lemma nb_drop_immature_eq:
  assumes "\<And>b. b \<in> set (p1_anti l) \<Longrightarrow> uncommitted descs b = Inr (u b)"
  shows "nb_drop_immature descs cap l = Inr (p1_deleted l - rb_id ` set (filter (immature u cap) (p1_anti l)))"
proof -
  have "rfold (\<lambda>b del. rbind (if rb_epoch b > cap then Inr True else uncommitted descs b) (\<lambda>r.
            Inr (if r then del - {rb_id b} else del))) as D = Inr (D - rb_id ` set (filter (immature u cap) as))"
    if "\<And>b. b \<in> set as \<Longrightarrow> uncommitted descs b = Inr (u b)" for as D
    using that by (induction as arbitrary: D) (auto simp: immature_def)
  then show ?thesis using assms by (simp add: nb_drop_immature_def)
qed

lemma nb_dels:
  assumes own: "owners_known descs B" and u: "u = uncommitted_in descs" and agree: "deletes_agree u cap B"
    and "list_all2 saw blks ls" "set (concat blks) \<subseteq> B"
  shows "rmap (nb_drop_immature descs cap) ls = Inr (map (\<lambda>bs. dead u cap (set bs)) blks)"
  using assms(4,5)
proof (induction rule: list_all2_induct)
  case (Cons bs blks l ls)
  have "uncommitted descs b = Inr (u b)" if "b \<in> set (p1_anti l)" for b
    using that Cons.hyps Cons.prems uncommitted_total [OF own, of b] by (auto simp: saw_def u)
  then have "nb_drop_immature descs cap l = Inr (dead u cap (set bs))"
    using nb_drop_immature_eq [of l descs u cap] dead_thread [OF agree _ Cons.hyps(1)] Cons.prems by auto
  with Cons show ?case by simp
qed simp

lemma nb_recover_outcome:
  assumes ok: "image_ok (uncommitted_in descs) blks"
    and dm: "desc_map (set (concat blks)) descs" and own: "owners_known descs (set (concat blks))"
  shows "\<exists>r. nbEpochSys_recover False blks = Inr r \<and> recovers True (uncommitted_in descs) (set (concat blks)) r"
proof -
  let ?B = "set (concat blks)" and ?u = "uncommitted_in descs"
  let ?cap = "image_epoch ?B - 2" and ?el = "eligible ?u (image_epoch ?B - 2) (dead ?u (image_epoch ?B - 2) ?B)"
  let ?ls = "map (\<lambda>bs. fold nb_pass1_step bs pass1_init) blks"
  have ls: "list_all2 saw blks ?ls" by (simp add: list_all2_conv_all_nth nb_pass1_run)
  have max: "max_of ?ls = image_epoch ?B" using ls by (rule max_of_saw)
  have descs: "merge_descs ?ls = descs"
    using dm merge_descs_from by (rule descs_from_unique)
  have dels: "rmap (nb_drop_immature descs ?cap) ?ls = Inr (map (\<lambda>bs. dead ?u ?cap (set bs)) blks)"
    using nb_dels [OF own refl _ ls] ok by (simp add: image_ok_def Let_def)
  have un: "\<Union> (set (map (\<lambda>bs. dead ?u ?cap (set bs)) blks)) = dead ?u ?cap ?B"
    using dead_Union [of ?u ?cap "set blks"] by simp
  obtain ps where ps: "rmap (\<lambda>bs. rfold (pass2_step True False (uncommitted descs) ?cap (dead ?u ?cap ?B)) bs pass2_init) blks = Inr ps"
      "list_all2 (chose True ?el) blks ps"
    using second_pass_run [OF ok, of "uncommitted descs" ?B ?cap True] uncommitted_total [OF own] by blast
  obtain g where g: "find_container (concat blks) = Some g" "g \<in> rb_ge ` {b \<in> ?B. rb_type b = EPOCH}"
    using image_container [OF ok] .
  let ?r = "\<lparr>rec_in_use = [], rec_freed = [], rec_epoch = g\<rparr>"
  have "nbEpochSys_recover False blks = Inr (fold finish_thread (zip ps ?ls) ?r)"
    using ps(1) container_of_saw [OF ls] dels un g(1)
    by (simp del: set_concat set_map add: nbEpochSys_recover_def max descs Let_def)
  moreover have "recovers True ?u ?B (fold finish_thread (zip ps ?ls) ?r)"
    using finish_threads_settled [OF ps(2) ls, of "{}" ?r] ok eligible_data g(2)
    by (simp del: set_concat add: recovers_def Let_def settled_def image_ok_def)
  ultimately show ?thesis by blast
qed

text \<open>Only the blocks of the image matter for \<open>u\<close>.\<close>

lemma image_ok_cong:
  assumes "\<And>b. b \<in> set (concat blks) \<Longrightarrow> u b = v b"
  shows "image_ok u blks = image_ok v blks"
proof -
  let ?B = "set (concat blks)"
  have "dead u cap ?B = dead v cap ?B" "deletes_agree u cap ?B = deletes_agree v cap ?B"
      "{b \<in> ?B. eligible u cap D b} = {b \<in> ?B. eligible v cap D b}" for cap D
    using assms unfolding dead_def deletes_agree_def eligible_def immature_def by auto
  then show ?thesis by (simp del: set_concat add: image_ok_def)
qed

lemma recovers_same:
  assumes "recovers nb u B r" "recovers nb u B r'"
    and "\<And>a b. a \<in> B \<Longrightarrow> b \<in> B \<Longrightarrow> data_blk a \<Longrightarrow> data_blk b \<Longrightarrow> rb_id a = rb_id b \<Longrightarrow> rb_epoch a = rb_epoch b \<Longrightarrow> a = b"
  shows "map_of (rec_in_use r) = map_of (rec_in_use r')" "set (rec_freed r) = set (rec_freed r')"
proof -
  let ?E = "{b \<in> B. eligible u (image_epoch B - 2) (dead u (image_epoch B - 2) B) b}"
  have "best ?E (map_of (rec_in_use r))" "best ?E (map_of (rec_in_use r'))"
    using assms(1,2) by (simp_all add: recovers_def settled_def Let_def)
  then show eq: "map_of (rec_in_use r) = map_of (rec_in_use r')"
    by (rule best_unique) (use assms(3) eligible_data in blast)
  show "set (rec_freed r) = set (rec_freed r')"
    using assms(1,2) by (simp add: recovers_def settled_def Let_def eq)
qed

section \<open>Properties\<close>

text \<open>
  An image for the witnesses: the epoch container at epoch 5, three versions of payload 7, of which
  the one of epoch 4 is premature, and payload 8, deleted in epoch 3.
\<close>

definition ex_blk :: "addr \<Rightarrow> pblktype \<Rightarrow> u64 \<Rightarrow> u64 \<Rightarrow> rblk" where
  "ex_blk a ty e i =
     \<lparr>rb_addr = a, rb_hdr = PBlk_new\<lparr>pb_epoch := e, pb_blktype := ty, pb_id := i\<rparr>,
      rb_ge = 5,
      rb_desc = \<lparr>d_old_val = 0, d_new_val = 0, d_epoch = 3, d_tid_sn = 0, d_var = \<lparr>lv_val = 0, lv_cnt = 2\<rparr>\<rparr>\<rparr>"

definition ex_image :: "rblk list list" where
  "ex_image =
     [[ex_blk 10 UPDATE 3 7, ex_blk 11 DELETE 3 8, ex_blk 12 EPOCH 0 0, ex_blk 16 DESC 3 0],
      [ex_blk 13 ALLOC 2 8, ex_blk 14 UPDATE 4 7, ex_blk 15 ALLOC 2 7]]"

lemmas ex_image_defs = ex_image_def ex_blk_def PBlk_new_def

lemma ex_image_epoch: "image_epoch (set (concat ex_image)) = 5"
  by (simp add: ex_image_defs blk_max_def)

lemma ex_image_dead: "dead (\<lambda>_. False) 3 (set (concat ex_image)) = {8}"
  by (simp add: ex_image_defs dead_def immature_def) (force simp: image_iff)

lemma ex_image_ok: "image_ok (\<lambda>_. False) ex_image"
proof -
  let ?B = "set (concat ex_image)"
  have "distinct (concat ex_image)" "\<exists>b \<in> ?B. rb_type b = EPOCH"
    by (simp_all add: ex_image_defs)
  moreover have "deletes_agree (\<lambda>_. False) 3 ?B"
    by (simp add: deletes_agree_def ex_image_defs)
  moreover have "alloc_first {b \<in> ?B. eligible (\<lambda>_. False) 3 {8} b}"
    by (auto simp: alloc_first_def eligible_def data_blk_def ex_image_defs)
  ultimately show ?thesis
    by (simp del: set_concat add: image_ok_def Let_def ex_image_epoch ex_image_dead)
qed

text \<open>The descriptors of that image, for the nonblocking variant: thread 0 committed its operation.\<close>

definition ex_descs :: "u64 \<rightharpoonup> sc_desc" where
  "ex_descs = [0 \<mapsto> rb_desc (ex_blk 16 DESC 3 0)]"

lemma ex_committed: "uncommitted_in ex_descs b \<longleftrightarrow> False" if "b \<in> set (concat ex_image)"
  using that by (auto simp: uncommitted_in_def uncommitted_def ex_descs_def ex_image_defs lv_committed_def
    get_tid_def get_sn_def Let_def)

lemma ex_descs_ok: "desc_map (set (concat ex_image)) ex_descs" "owners_known ex_descs (set (concat ex_image))"
  by (auto simp: desc_map_def owners_known_def ex_descs_def ex_image_defs get_tid_def data_blk_def)

text \<open>
  C2.  Recovery after a crash returns, whatever the number of recovery threads and the division of
  the blocks among them, for each payload identifier the newest version that is old enough (two epochs
  before the greatest epoch in the image), not retired by an old enough delete node and not
  without an epoch; a payload with no such version is not recovered; every other block of the image, the
  epoch container apart, is given back to the allocator; and the epoch resumes at the
  greatest one found.
\<close>

theorem recover_newest:
  assumes "image_ok (\<lambda>_. False) blks"
  shows "\<exists>r. EpochSys_recover False blks = Inr r \<and> recovers False (\<lambda>_. False) (set (concat blks)) r"
  using assms by (rule recover_outcome)

theorem recover_newest_witness:
  "image_ok (\<lambda>_. False) ex_image \<and>
   (\<exists>r. EpochSys_recover False ex_image = Inr r \<and> recovers False (\<lambda>_. False) (set (concat ex_image)) r)"
  using recover_newest [OF ex_image_ok] ex_image_ok by simp




definition ex_image' :: "rblk list list" where
  "ex_image' = [[], rev (concat ex_image)]"




end
