(* ===== verification/InPlace_String.thy ===== *)
theory InPlace_String
  imports Montage_Prelude "HOL-Library.Char_ord" "HOL-Library.List_Lexorder"
begin

text \<open>
  \<^verbatim>\<open>src/persist/InPlaceString.hpp\<close>: strings of bounded length stored inside a payload.  A string is a list of
  characters, which may include the null character; the character array is a list of fixed length, whose cells
  beyond the string hold whatever they held before.  The comparisons go through the C functions
  \<^verbatim>\<open>strcmp\<close> and \<^verbatim>\<open>strncmp\<close>, which stop at a null character; of their result only the sign matters.
\<close>

section \<open>C strings\<close>

abbreviation NUL :: char where
  "NUL \<equiv> CHR 0x00"

definition c_str :: "string \<Rightarrow> char list" where
  "c_str s = s @ [NUL]"

text \<open>Copying over the beginning of an array; past the end of either array is undefined behaviour.\<close>

definition memcpy_to :: "char list \<Rightarrow> char list \<Rightarrow> nat \<Rightarrow> char list res" where
  "memcpy_to dst src n = (if n \<le> length dst \<and> n \<le> length src then Inr (take n src @ drop n dst) else Inl BadAccess)"

definition char_sign :: "char \<Rightarrow> char \<Rightarrow> int" where
  "char_sign x y = (if x < y then - 1 else if x = y then 0 else 1)"

fun strcmp :: "char list \<Rightarrow> char list \<Rightarrow> int res" where
  "strcmp (x # xs) (y # ys) = (if x \<noteq> y then Inr (char_sign x y) else if x = NUL then Inr 0 else strcmp xs ys)"
| "strcmp xs ys = Inl BadAccess"

fun strncmp :: "nat \<Rightarrow> char list \<Rightarrow> char list \<Rightarrow> int res" where
  "strncmp 0 xs ys = Inr 0"
| "strncmp (Suc n) (x # xs) (y # ys) =
     (if x \<noteq> y then Inr (char_sign x y) else if x = NUL then Inr 0 else strncmp n xs ys)"
| "strncmp (Suc n) xs ys = Inl BadAccess"

section \<open>InPlaceString\<close>

record ips =
  ips_size :: nat
  ips_chars :: "char list"

text \<open>
  \<^term>\<open>junk\<close> is the array before the constructor runs, of \<^verbatim>\<open>cap + 1\<close> characters.  The constructors from a
  string, with or without an owner, and the assignment from a string do the same.
\<close>

definition ips_store :: "nat \<Rightarrow> char list \<Rightarrow> nat \<Rightarrow> char list \<Rightarrow> ips res" where
  "ips_store cap src n junk =
     rassert (n \<le> cap) (rbind (memcpy_to junk src (n + 1)) (\<lambda>cs.
       rbind (rnth cs n) (\<lambda>c. rassert (c = NUL) (Inr \<lparr>ips_size = n, ips_chars = cs\<rparr>))))"

definition ips_of_string :: "nat \<Rightarrow> string \<Rightarrow> char list \<Rightarrow> ips res" where
  "ips_of_string cap s junk = ips_store cap (c_str s) (length s) junk"

definition ips_copy :: "nat \<Rightarrow> ips \<Rightarrow> char list \<Rightarrow> ips res" where
  "ips_copy cap oth junk = ips_store cap (ips_chars oth) (ips_size oth) junk"

definition ips_empty :: "char list \<Rightarrow> ips res" where
  "ips_empty junk = (if junk = [] then Inl BadAccess else Inr \<lparr>ips_size = 0, ips_chars = junk[0 := NUL]\<rparr>)"

definition ips_assign :: "nat \<Rightarrow> ips \<Rightarrow> ips \<Rightarrow> ips res" where
  "ips_assign cap oth t = ips_store cap (ips_chars oth) (ips_size oth) (ips_chars t)"

definition ips_assign_string :: "nat \<Rightarrow> string \<Rightarrow> ips \<Rightarrow> ips res" where
  "ips_assign_string cap s t = ips_store cap (c_str s) (length s) (ips_chars t)"

definition ips_c_str :: "ips \<Rightarrow> char list res" where
  "ips_c_str t = rbind (rnth (ips_chars t) (ips_size t)) (\<lambda>c. rassert (c = NUL) (Inr (ips_chars t)))"

definition ips_std_str :: "ips \<Rightarrow> string" where
  "ips_std_str t = take (ips_size t) (ips_chars t)"

definition ips_compare :: "ips \<Rightarrow> string \<Rightarrow> int res" where
  "ips_compare t s = rbind (ips_c_str t) (\<lambda>cs. strcmp cs (c_str s))"

text \<open>The comparison operators, each in the form with the string on the left and on the right.\<close>

definition str_eq_ips :: "string \<Rightarrow> ips \<Rightarrow> bool res" where
  "str_eq_ips a b = rbind (ips_c_str b) (\<lambda>cs.
     if length a \<noteq> ips_size b then Inr False else rbind (strcmp (c_str a) cs) (\<lambda>r. Inr (r = 0)))"

definition ips_eq_str :: "ips \<Rightarrow> string \<Rightarrow> bool res" where
  "ips_eq_str a b = str_eq_ips b a"

definition rnot :: "bool res \<Rightarrow> bool res" where
  "rnot r = rbind r (\<lambda>b. Inr (\<not> b))"

definition str_ne_ips :: "string \<Rightarrow> ips \<Rightarrow> bool res" where
  "str_ne_ips a b = rnot (str_eq_ips a b)"

definition ips_ne_str :: "ips \<Rightarrow> string \<Rightarrow> bool res" where
  "ips_ne_str a b = rnot (str_eq_ips b a)"

definition str_lt_ips :: "string \<Rightarrow> ips \<Rightarrow> bool res" where
  "str_lt_ips a b = rbind (ips_c_str b) (\<lambda>cs. rbind (strcmp (c_str a) cs) (\<lambda>r. Inr (r < 0)))"

definition ips_lt_str :: "ips \<Rightarrow> string \<Rightarrow> bool res" where
  "ips_lt_str a b = rbind (ips_c_str a) (\<lambda>cs. rbind (strcmp cs (c_str b)) (\<lambda>r. Inr (r < 0)))"

definition str_gt_ips :: "string \<Rightarrow> ips \<Rightarrow> bool res" where
  "str_gt_ips a b = ips_lt_str b a"

definition ips_gt_str :: "ips \<Rightarrow> string \<Rightarrow> bool res" where
  "ips_gt_str a b = str_lt_ips b a"

definition str_le_ips :: "string \<Rightarrow> ips \<Rightarrow> bool res" where
  "str_le_ips a b = rnot (str_gt_ips a b)"

definition ips_le_str :: "ips \<Rightarrow> string \<Rightarrow> bool res" where
  "ips_le_str a b = rnot (ips_gt_str a b)"

definition str_ge_ips :: "string \<Rightarrow> ips \<Rightarrow> bool res" where
  "str_ge_ips a b = rnot (str_lt_ips a b)"

definition ips_ge_str :: "ips \<Rightarrow> string \<Rightarrow> bool res" where
  "ips_ge_str a b = rnot (ips_lt_str a b)"

section \<open>TrivialInPlaceString\<close>

record tips =
  tips_content :: "char list"
  tips_sz :: nat

definition tips_of_string :: "nat \<Rightarrow> string \<Rightarrow> char list \<Rightarrow> tips res" where
  "tips_of_string cap s junk =
     rassert (length s \<le> cap) (rbind (memcpy_to junk s (length s)) (\<lambda>cs. Inr \<lparr>tips_content = cs, tips_sz = length s\<rparr>))"

definition tips_std_str :: "tips \<Rightarrow> string" where
  "tips_std_str t = take (tips_sz t) (tips_content t)"

definition tips_eq :: "tips \<Rightarrow> tips \<Rightarrow> bool" where
  "tips_eq a b \<longleftrightarrow> tips_std_str a = tips_std_str b"

definition tips_assign_string :: "nat \<Rightarrow> string \<Rightarrow> tips \<Rightarrow> tips res" where
  "tips_assign_string cap s t =
     (if length s \<le> cap
      then rbind (memcpy_to (tips_content t) s (length s)) (\<lambda>cs. Inr \<lparr>tips_content = cs, tips_sz = length s\<rparr>)
      else Inl (ErrExit ''String length exceeds TrivialInPlaceString capacity!''))"

definition tips_compare :: "tips \<Rightarrow> string \<Rightarrow> int res" where
  "tips_compare t s =
     rbind (strncmp (min (tips_sz t) (length s)) (tips_content t) s) (\<lambda>ret.
       if ret = 0 then (if tips_sz t = length s then Inr 0 else if tips_sz t < length s then Inr (- 1) else Inr 1)
       else Inr ret)"

section \<open>Facts about the C functions\<close>

lemma NUL_least: "c \<noteq> NUL \<Longrightarrow> NUL < c"
proof -
  assume c: "c \<noteq> NUL"
  have z: "(of_char NUL :: nat) = 0" by simp
  have "(of_char c :: nat) \<noteq> of_char NUL" using c by (metis of_char_eq_iff)
  then show ?thesis by (simp add: less_char_def z)
qed

definition lex_sign :: "string \<Rightarrow> string \<Rightarrow> int" where
  "lex_sign a b = (if a < b then - 1 else if a = b then 0 else 1)"

text \<open>On strings without a null character \<^verbatim>\<open>strcmp\<close> is the lexicographic order.\<close>

lemma strcmp_lex:
  "NUL \<notin> set a \<Longrightarrow> NUL \<notin> set b \<Longrightarrow> strcmp (a @ NUL # xs) (b @ NUL # ys) = Inr (lex_sign a b)"
proof (induction a arbitrary: b)
  case Nil
  show ?case
  proof (cases b)
    case (Cons y b')
    then have "NUL \<noteq> y" using Nil.prems(2) by auto
    moreover have "NUL < y" using calculation NUL_least [of y] by metis
    ultimately show ?thesis using Cons by (simp only: strcmp.simps append.simps lex_sign_def char_sign_def Nil_less_Cons if_True)
        simp
  qed (simp add: lex_sign_def)
next
  case (Cons x a)
  then have x: "NUL < x" "x \<noteq> NUL" "NUL \<notin> set a" using NUL_least [of x] by (simp, metis, simp_all, metis)
  show ?case
  proof (cases b)
    case Nil
    have "\<not> x < NUL" using x(1) by (rule order_less_not_sym)
    then show ?thesis using Nil x(2) by (simp add: lex_sign_def char_sign_def)
  next
    case (Cons y b')
    then have "NUL \<notin> set b'" using Cons.prems(2) by simp
    from Cons.IH [OF x(3) this] show ?thesis using Cons x(2) by (auto simp: lex_sign_def char_sign_def)
  qed
qed

lemma strncmp_lex:
  "NUL \<notin> set a \<Longrightarrow> n \<le> length a \<Longrightarrow> n \<le> length b \<Longrightarrow>
     strncmp n (a @ xs) b = Inr (lex_sign (take n a) (take n b))"
proof (induction n arbitrary: a b)
  case (Suc n)
  then obtain x a' y b' where "a = x # a'" "b = y # b'" by (metis Suc_le_length_iff)
  then show ?case using Suc.IH [of a' b'] Suc.prems by (auto simp: lex_sign_def char_sign_def)
qed (simp add: lex_sign_def)

section \<open>What an in-place string holds\<close>

definition ips_holds :: "nat \<Rightarrow> string \<Rightarrow> ips \<Rightarrow> bool" where
  "ips_holds cap s t \<longleftrightarrow> ips_size t = length s \<and> length s \<le> cap \<and> length (ips_chars t) = cap + 1
     \<and> take (length s + 1) (ips_chars t) = c_str s"

lemma ips_holds_split: "ips_holds cap s t \<Longrightarrow> \<exists>rest. ips_chars t = s @ NUL # rest"
  by (metis (no_types, lifting) append_Cons append_Nil append_assoc append_take_drop_id c_str_def ips_holds_def)

lemma ips_holds_std_str: "ips_holds cap s t \<Longrightarrow> ips_std_str t = s"
  using ips_holds_split [of cap s t] by (auto simp: ips_std_str_def ips_holds_def)

lemma ips_holds_c_str: "ips_holds cap s t \<Longrightarrow> ips_c_str t = Inr (ips_chars t)"
  using ips_holds_split [of cap s t] by (auto simp: ips_c_str_def ips_holds_def rassert_def rnth_def nth_append)

lemma ips_store_ok:
  assumes "length junk = cap + 1" "take (n + 1) src = c_str s" "n = length s"
  shows "if n \<le> cap then \<exists>t. ips_store cap src n junk = Inr t \<and> ips_holds cap s t else ips_store cap src n junk = Inl Assertion"
proof (cases "n \<le> cap")
  case True
  have "length (take (n + 1) src) = n + 1" unfolding assms(2) by (simp add: c_str_def assms(3))
  then have l: "n + 1 \<le> length src" by simp
  let ?cs = "c_str s @ drop (n + 1) junk"
  have "memcpy_to junk src (n + 1) = Inr ?cs" using l assms(1,2) True by (simp add: memcpy_to_def)
  moreover have "rnth ?cs n = Inr NUL" using assms(3) by (simp add: rnth_def c_str_def nth_append)
  ultimately have "ips_store cap src n junk = Inr \<lparr>ips_size = n, ips_chars = ?cs\<rparr>"
    using True by (simp add: ips_store_def rassert_def)
  moreover have "ips_holds cap s \<lparr>ips_size = n, ips_chars = ?cs\<rparr>"
    using assms True by (simp add: ips_holds_def c_str_def)
  ultimately show ?thesis using True by auto
qed (simp add: ips_store_def rassert_def)

lemma ips_of_string_ok:
  assumes "length junk = cap + 1"
  shows "if length s \<le> cap then \<exists>t. ips_of_string cap s junk = Inr t \<and> ips_holds cap s t
    else ips_of_string cap s junk = Inl Assertion"
  unfolding ips_of_string_def by (rule ips_store_ok [OF assms]) (simp_all add: c_str_def)

lemma lex_sign_take:
  assumes "n = min (length a) (length b)"
  shows "lex_sign a b =
     (if lex_sign (take n a) (take n b) = 0
      then (if length a = length b then 0 else if length a < length b then - 1 else 1)
      else lex_sign (take n a) (take n b))"
  using assms
proof (induction a arbitrary: b n)
  case Nil
  then show ?case by (cases b) (simp_all add: lex_sign_def)
next
  case (Cons x a)
  show ?case
  proof (cases b)
    case Nil
    then show ?thesis using Cons.prems by (simp add: lex_sign_def)
  next
    case (Cons y b')
    have step: "lex_sign (x # u) (y # w) = (if x < y then - 1 else if x = y then lex_sign u w else 1)" for u w
      by (auto simp: lex_sign_def)
    show ?thesis using Cons.IH [of "min (length a) (length b')" b'] Cons Cons.prems by (simp add: step)
  qed
qed

lemma tips_compare_lex:
  assumes "tips_of_string cap a junk = Inr t" "length junk = cap" "NUL \<notin> set a"
  shows "tips_compare t s = Inr (lex_sign a s)"
proof -
  have t: "tips_sz t = length a" "tips_content t = a @ drop (length a) junk"
    using assms(1,2) by (auto simp: tips_of_string_def rassert_def memcpy_to_def split: if_splits)
  have "strncmp (min (length a) (length s)) (a @ drop (length a) junk) s
      = Inr (lex_sign (take (min (length a) (length s)) a) (take (min (length a) (length s)) s))"
    using assms(3) by (intro strncmp_lex) auto
  then show ?thesis by (simp add: tips_compare_def t lex_sign_take [of _ a s])
qed

section \<open>Properties\<close>

text \<open>
  C36.  Every string that fits, null characters included, is read back unchanged from an in-place string made
  from it, from a copy of that and after it is assigned over another; a string that does not
  fit is refused by the assertion, in each case.
\<close>

theorem ips_roundtrip:
  assumes "length junk = cap + 1" "length junk' = cap + 1" "length (ips_chars old) = cap + 1"
  shows "if length s \<le> cap
    then \<exists>t u v w. ips_of_string cap s junk = Inr t \<and> ips_std_str t = s
      \<and> ips_copy cap t junk' = Inr u \<and> ips_std_str u = s
      \<and> ips_assign cap t old = Inr v \<and> ips_std_str v = s
      \<and> ips_assign_string cap s old = Inr w \<and> ips_std_str w = s
    else ips_of_string cap s junk = Inl Assertion \<and> ips_assign_string cap s old = Inl Assertion"
proof (cases "length s \<le> cap")
  case True
  from ips_of_string_ok [OF assms(1), of s] True obtain t where t: "ips_of_string cap s junk = Inr t" "ips_holds cap s t" by auto
  have tk: "take (length s + 1) (ips_chars t) = c_str s" "ips_size t = length s" using t(2) by (simp_all add: ips_holds_def)
  from ips_store_ok [OF assms(2) tk(1) refl] True obtain u where
    u: "ips_store cap (ips_chars t) (length s) junk' = Inr u" "ips_holds cap s u" by auto
  from ips_store_ok [OF assms(3) tk(1) refl] True obtain v where
    v: "ips_store cap (ips_chars t) (length s) (ips_chars old) = Inr v" "ips_holds cap s v" by auto
  from ips_store_ok [OF assms(3), of "length s" "c_str s" s] True obtain w where
    w: "ips_store cap (c_str s) (length s) (ips_chars old) = Inr w" "ips_holds cap s w" by (auto simp: c_str_def)
  show ?thesis using True t u v w tk(2) ips_holds_std_str
    by (simp add: ips_copy_def ips_assign_def ips_assign_string_def)
next
  case False
  then show ?thesis by (simp add: ips_of_string_def ips_assign_string_def ips_store_def rassert_def)
qed

theorem ips_roundtrip_witness:
  "\<exists>t. ips_of_string 3 ''ab'' ''....'' = Inr t \<and> ips_std_str t = ''ab''"
  using ips_roundtrip [of "''....''" 3 "''....''" "\<lparr>ips_size = 0, ips_chars = ''....''\<rparr>" "''ab''"] by auto

text \<open>
  C35.  For strings without null characters the operators compare as the strings they hold do, in
  lexicographic order, whichever side the in-place string is on.
\<close>

theorem ips_compare_lex:
  assumes "ips_of_string cap b junk = Inr t" "length junk = cap + 1" "NUL \<notin> set a" "NUL \<notin> set b"
  shows "str_eq_ips a t = Inr (a = b) \<and> ips_eq_str t a = Inr (a = b) \<and> str_ne_ips a t = Inr (a \<noteq> b)
    \<and> str_lt_ips a t = Inr (a < b) \<and> ips_lt_str t a = Inr (b < a) \<and> str_gt_ips a t = Inr (b < a) \<and> ips_gt_str t a = Inr (a < b)
    \<and> str_le_ips a t = Inr (a \<le> b) \<and> ips_le_str t a = Inr (b \<le> a) \<and> str_ge_ips a t = Inr (b \<le> a) \<and> ips_ge_str t a = Inr (a \<le> b)"
proof -
  have h: "ips_holds cap b t" using ips_of_string_ok [OF assms(2), of b] assms(1) by (auto split: if_splits)
  obtain rest where r: "ips_chars t = b @ NUL # rest" using ips_holds_split [OF h] by blast
  have c: "ips_c_str t = Inr (b @ NUL # rest)" using ips_holds_c_str [OF h] r by simp
  have ab: "strcmp (c_str a) (b @ NUL # rest) = Inr (lex_sign a b)" and ba: "strcmp (b @ NUL # rest) (c_str a) = Inr (lex_sign b a)"
    using strcmp_lex [OF assms(3,4), of "[]" rest] strcmp_lex [OF assms(4,3), of rest "[]"] by (simp_all add: c_str_def)
  have e: "str_eq_ips a t = Inr (a = b)"
    using c ab h by (auto simp: str_eq_ips_def lex_sign_def ips_holds_def)
  have l: "str_lt_ips a t = Inr (a < b)" "ips_lt_str t a = Inr (b < a)"
    using c ab ba by (auto simp: str_lt_ips_def ips_lt_str_def lex_sign_def)
  show ?thesis using e l
    by (auto simp: ips_eq_str_def str_ne_ips_def str_gt_ips_def ips_gt_str_def str_le_ips_def ips_le_str_def str_ge_ips_def
        ips_ge_str_def rnot_def)
qed

theorem ips_compare_lex_witness:
  "\<exists>t. ips_of_string 3 ''ac'' ''....'' = Inr t \<and> str_lt_ips ''ab'' t = Inr (''ab'' < ''ac'')"
proof -
  obtain t where t: "ips_of_string 3 ''ac'' ''....'' = Inr t" using ips_of_string_ok [of "''....''" 3 "''ac''"] by auto
  then show ?thesis using ips_compare_lex [OF t, of "''ab''"] by simp
qed

text \<open>
  With null characters in the string the comparisons are wrong: an in-place string holding a, null, c is equal to the
  string a, null, b according to both classes' comparisons by \<^verbatim>\<open>strcmp\<close> and \<^verbatim>\<open>strncmp\<close>, although what it
  holds is read back as a, null, c.
\<close>

theorem embedded_null_compares_equal:
  "(case ips_of_string 3 [CHR ''a'', NUL, CHR ''c''] ''....'' of
     Inl e \<Rightarrow> False
   | Inr t \<Rightarrow> str_eq_ips [CHR ''a'', NUL, CHR ''b''] t = Inr True \<and> ips_std_str t \<noteq> [CHR ''a'', NUL, CHR ''b''])
   \<and> (case tips_of_string 3 [CHR ''a'', NUL, CHR ''c''] ''...'' of
     Inl e \<Rightarrow> False
   | Inr t \<Rightarrow> tips_compare t [CHR ''a'', NUL, CHR ''b''] = Inr 0)"
  by code_simp

end
