(* ===== verification/Persist_Trackers.thy ===== *)
theory Persist_Trackers
  imports Montage_Prelude
begin

text \<open>
  \<^verbatim>\<open>src/persist/PersistTrackers.hpp\<close>: the trees that tell which thread still has to write back
  which epoch.  A tree is a datatype of nodes carrying a value; \<^verbatim>\<open>paths[tid]\<close> and \<^verbatim>\<open>seq\<close> are
  the way from the root to leaf \<^verbatim>\<open>tid\<close>, so a loop over \<^verbatim>\<open>paths[tid]\<close> from the leaf upwards is a
  recursion that descends to the leaf and acts on its way back.
\<close>

section \<open>Trees\<close>

datatype 'a mtree = MLeaf nat 'a | MNode 'a "'a mtree" "'a mtree"

fun mt_val :: "'a mtree \<Rightarrow> 'a" where
  "mt_val (MLeaf i x) = x"
| "mt_val (MNode x l r) = x"

fun mt_leaves :: "'a mtree \<Rightarrow> (nat \<times> 'a) list" where
  "mt_leaves (MLeaf i x) = [(i, x)]"
| "mt_leaves (MNode x l r) = mt_leaves l @ mt_leaves r"

definition leaf_val :: "nat \<Rightarrow> 'a mtree \<Rightarrow> 'a option" where
  "leaf_val i t = map_of (mt_leaves t) i"

text \<open>
  The constructor: \<^verbatim>\<open>buffer\<close> holds the child slots of the last complete layer, left to right.
  It is doubled while it has fewer than \<^verbatim>\<open>thread_cnt / 2\<close> slots; then the last
  \<^verbatim>\<open>thread_cnt - buffer.size()\<close> slots get one more layer of nodes, and the leaves are linked to the
  slots from left to right.  The model links the same shape from the leaves upwards.
\<close>

function buffer_size :: "nat \<Rightarrow> nat \<Rightarrow> nat" where
  "buffer_size thread_cnt n = (if 0 < n \<and> n < thread_cnt div 2 then buffer_size thread_cnt (2 * n) else n)"
  by pat_completeness auto
termination by (relation "measure (\<lambda>(c, n). c - n)") auto

declare buffer_size.simps [simp del]

fun pair_up :: "'a \<Rightarrow> 'a mtree list \<Rightarrow> 'a mtree list" where
  "pair_up x (a # b # ts) = MNode x a b # pair_up x ts"
| "pair_up x ts = ts"

lemma length_pair_up: "length (pair_up x ts) = Suc (length ts) div 2"
  by (induction x ts rule: pair_up.induct) auto

function link_layers :: "'a \<Rightarrow> 'a mtree list \<Rightarrow> 'a mtree option" where
  "link_layers x [] = None"
| "link_layers x [t] = Some t"
| "link_layers x (a # b # ts) = link_layers x (pair_up x (a # b # ts))"
  by pat_completeness auto
termination by (relation "measure (\<lambda>(x, ts). length ts)") (auto simp: length_pair_up)

definition mt_build :: "nat \<Rightarrow> 'a \<Rightarrow> (nat \<Rightarrow> 'a) \<Rightarrow> 'a mtree option" where
  "mt_build thread_cnt x lv =
     (let m = buffer_size thread_cnt 2;
          last_layer_size = thread_cnt - m;
          ls = map (\<lambda>i. MLeaf i (lv i)) [0..<thread_cnt];
          direct = m - last_layer_size
      in link_layers x (take direct ls @ pair_up x (drop direct ls)))"

definition thread_cnt_of :: "nat \<Rightarrow> nat" where
  "thread_cnt_of actual_thread_cnt =
     (if actual_thread_cnt mod 2 = 1 then actual_thread_cnt + 1 else actual_thread_cnt)"

text \<open>The leaves of the tree are the threads in order, whatever their number.\<close>

lemma pair_up_leaves: "concat (map mt_leaves (pair_up x ts)) = concat (map mt_leaves ts)"
  by (induction x ts rule: pair_up.induct) auto

lemma link_layers_leaves:
  "ts \<noteq> [] \<Longrightarrow> \<exists>t. link_layers x ts = Some t \<and> mt_leaves t = concat (map mt_leaves ts)"
proof (induction x ts rule: link_layers.induct)
  case (3 x a b ts)
  then show ?case using pair_up_leaves [of x "a # b # ts"] by simp
qed simp_all

lemma mt_build_leaves:
  assumes "0 < n"
  shows "\<exists>t. mt_build n x lv = Some t \<and> mt_leaves t = map (\<lambda>i. (i, lv i)) [0..<n]"
proof -
  let ?ls = "map (\<lambda>i. MLeaf i (lv i)) [0..<n]"
  obtain d where d: "mt_build n x lv = link_layers x (take d ?ls @ pair_up x (drop d ?ls))"
    by (auto simp: mt_build_def Let_def)
  have "take d ?ls @ pair_up x (drop d ?ls) \<noteq> []"
    using assms length_pair_up [of x "drop d ?ls"] by (cases "d = 0") auto
  moreover have "concat (map mt_leaves (take d ?ls @ pair_up x (drop d ?ls))) = concat (map mt_leaves ?ls)"
    by (metis append_take_drop_id concat_append map_append pair_up_leaves)
  moreover have "concat (map mt_leaves ?ls) = map (\<lambda>i. (i, lv i)) [0..<n]"
    by (simp add: comp_def)
  ultimately show ?thesis unfolding d using link_layers_leaves by metis
qed

section \<open>IncreasingMindicator\<close>

type_synonym imind = "u64 mtree"

definition im_new :: "nat \<Rightarrow> imind res" where
  "im_new actual_thread_cnt =
     rassert (0 < actual_thread_cnt)
       (let n = thread_cnt_of actual_thread_cnt in
        case mt_build n NULL_EPOCH
               (\<lambda>i. if actual_thread_cnt mod 2 = 1 \<and> i = n - 1 then UINT64_MAX else NULL_EPOCH) of
          None \<Rightarrow> Inl BadAccess
        | Some t \<Rightarrow> Inr t)"

text \<open>
  \<^verbatim>\<open>propagate(val, n, from)\<close> at a node of value \<^term>\<open>x\<close> with sibling value \<^term>\<open>sib\<close>: the new
  value of the node, and the value to go on with or \<^term>\<open>None\<close> to stop.
\<close>

definition im_propagate :: "u64 \<Rightarrow> u64 \<Rightarrow> u64 \<Rightarrow> u64 \<times> u64 option" where
  "im_propagate val x sib =
     (let new_min = min val sib in if new_min > x then (new_min, Some new_min) else (x, None))"

fun im_after_persist :: "u64 \<Rightarrow> nat \<Rightarrow> imind \<Rightarrow> (imind \<times> u64 option) option" where
  "im_after_persist val tid (MLeaf i x) =
     (if i \<noteq> tid then None
      else if x > val then Some (MLeaf i x, None)
      else Some (MLeaf i (val + 1), Some val))"
| "im_after_persist val tid (MNode x l r) =
     (case im_after_persist val tid l of
        Some (l', Some v) \<Rightarrow> (case im_propagate v x (mt_val r) of (x', c) \<Rightarrow> Some (MNode x' l' r, c))
      | Some (l', None) \<Rightarrow> Some (MNode x l' r, None)
      | None \<Rightarrow>
          (case im_after_persist val tid r of
             Some (r', Some v) \<Rightarrow> (case im_propagate v x (mt_val l) of (x', c) \<Rightarrow> Some (MNode x' l r', c))
           | Some (r', None) \<Rightarrow> Some (MNode x l r', None)
           | None \<Rightarrow> None))"

definition im_after_persist_epoch :: "u64 \<Rightarrow> nat \<Rightarrow> imind \<Rightarrow> imind res" where
  "im_after_persist_epoch val tid t =
     (case im_after_persist val tid t of None \<Rightarrow> Inl BadAccess | Some (t', _) \<Rightarrow> Inr t')"

definition im_first_write_on_new_epoch :: "u64 \<Rightarrow> nat \<Rightarrow> imind \<Rightarrow> imind" where
  "im_first_write_on_new_epoch e tid t = t"

fun im_find_le :: "u64 \<Rightarrow> imind \<Rightarrow> nat option" where
  "im_find_le val (MLeaf i x) = (if x > val then None else Some i)"
| "im_find_le val (MNode x l r) =
     (if x > val then None
      else case im_find_le val l of Some i \<Rightarrow> Some i | None \<Rightarrow> im_find_le val r)"

text \<open>The loop of \<^verbatim>\<open>next_thread_to_persist(val, curr)\<close> up the path of \<^verbatim>\<open>curr\<close>.\<close>

fun im_search_up :: "u64 \<Rightarrow> nat \<Rightarrow> imind \<Rightarrow> nat option option" where
  "im_search_up val cur (MLeaf i x) = (if i = cur then Some None else None)"
| "im_search_up val cur (MNode x l r) =
     (case im_search_up val cur l of
        Some (Some i) \<Rightarrow> Some (Some i)
      | Some None \<Rightarrow> Some (if x < val then im_find_le val r else None)
      | None \<Rightarrow>
          (case im_search_up val cur r of
             Some (Some i) \<Rightarrow> Some (Some i)
           | Some None \<Rightarrow> Some (if x < val then im_find_le val l else None)
           | None \<Rightarrow> None))"

definition im_next_thread :: "u64 \<Rightarrow> nat \<Rightarrow> imind \<Rightarrow> nat option res" where
  "im_next_thread val cur t =
     (case leaf_val cur t of
        None \<Rightarrow> Inl BadAccess
      | Some x \<Rightarrow> if x \<le> val then Inr (Some cur)
                  else case im_search_up val cur t of None \<Rightarrow> Inl BadAccess | Some r \<Rightarrow> Inr r)"

text \<open>
  \<^verbatim>\<open>next_thread_to_persist(val)\<close> repeats the same search while the root is at most \<^verbatim>\<open>val\<close>;
  without an update by another thread a search that finds nothing is repeated forever.
\<close>

definition im_next_thread_any :: "u64 \<Rightarrow> imind \<Rightarrow> nat option res" where
  "im_next_thread_any val t =
     (if mt_val t \<le> val
      then case im_find_le val t of Some i \<Rightarrow> Inr (Some i) | None \<Rightarrow> Inl Diverges
      else Inr None)"

definition im_next_epoch_to_persist :: "nat \<Rightarrow> imind \<Rightarrow> u64 res" where
  "im_next_epoch_to_persist tid t = (case leaf_val tid t of None \<Rightarrow> Inl BadAccess | Some x \<Rightarrow> Inr x)"

text \<open>Every node is a lower bound of its subtree.\<close>

fun im_low :: "imind \<Rightarrow> bool" where
  "im_low (MLeaf i x) \<longleftrightarrow> True"
| "im_low (MNode x l r) \<longleftrightarrow> x \<le> mt_val l \<and> x \<le> mt_val r \<and> im_low l \<and> im_low r"

definition im_wf :: "nat \<Rightarrow> imind \<Rightarrow> bool" where
  "im_wf n t \<longleftrightarrow> map fst (mt_leaves t) = [0..<thread_cnt_of n] \<and> im_low t
     \<and> (\<forall>(i, x) \<in> set (mt_leaves t). n \<le> i \<longrightarrow> x = UINT64_MAX)"

section \<open>Facts about IncreasingMindicator\<close>

lemma pair_up_low: "\<forall>t \<in> set ts. im_low t \<Longrightarrow> \<forall>t \<in> set (pair_up 0 ts). im_low t"
  by (induction "0 :: u64" ts rule: pair_up.induct) auto

lemma link_layers_low:
  "\<forall>t \<in> set ts. im_low t \<Longrightarrow> link_layers 0 ts = Some t \<Longrightarrow> im_low t"
proof (induction "0 :: u64" ts rule: link_layers.induct)
  case (3 a b ts)
  then show ?case using pair_up_low [of "a # b # ts"] by (metis link_layers.simps(3))
qed simp_all

lemma mt_build_low: "mt_build n 0 lv = Some t \<Longrightarrow> im_low t"
proof -
  assume b: "mt_build n 0 lv = Some t"
  let ?ls = "map (\<lambda>i. MLeaf i (lv i)) [0..<n]"
  obtain d where d: "mt_build n 0 lv = link_layers 0 (take d ?ls @ pair_up 0 (drop d ?ls))"
    by (auto simp: mt_build_def Let_def)
  have "\<forall>t \<in> set ?ls. im_low t" by auto
  then have "\<forall>t \<in> set (take d ?ls). im_low t" "\<forall>t \<in> set (drop d ?ls). im_low t"
    by (metis in_set_takeD, metis in_set_dropD)
  then have "\<forall>t \<in> set (take d ?ls @ pair_up 0 (drop d ?ls)). im_low t"
    using pair_up_low [of "drop d ?ls"] by auto
  then show ?thesis using link_layers_low b unfolding d by blast
qed

lemma im_new_wf:
  assumes "0 < n"
  shows "\<exists>t. im_new n = Inr t \<and> im_wf n t
       \<and> (\<forall>i < n. leaf_val i t = Some NULL_EPOCH)"
proof -
  let ?m = "thread_cnt_of n"
  let ?lv = "\<lambda>i. if n mod 2 = 1 \<and> i = ?m - 1 then UINT64_MAX else NULL_EPOCH"
  have m: "0 < ?m" "n \<le> ?m" "n mod 2 = 1 \<Longrightarrow> n < ?m" using assms by (auto simp: thread_cnt_of_def)
  obtain t where t: "mt_build ?m NULL_EPOCH ?lv = Some t" "mt_leaves t = map (\<lambda>i. (i, ?lv i)) [0..<?m]"
    using mt_build_leaves [OF m(1), of NULL_EPOCH ?lv] by blast
  have "im_low t" using mt_build_low t(1) by simp
  moreover have "leaf_val i t = Some NULL_EPOCH" if "i < n" for i
  proof -
    have "leaf_val i t = Some (?lv i)"
      using that m t(2) by (simp add: leaf_val_def map_of_map_restrict)
    moreover have "\<not> (n mod 2 = 1 \<and> i = ?m - 1)"
      using that by (auto simp: thread_cnt_of_def)
    ultimately show ?thesis by auto
  qed
  moreover have "i = ?m - 1 \<and> n mod 2 = 1" if "i < ?m" "n \<le> i" for i
    using that by (auto simp: thread_cnt_of_def split: if_splits)
  ultimately show ?thesis using t assms by (auto simp: im_new_def Let_def im_wf_def comp_def)
qed

lemma im_low_leaf: "im_low t \<Longrightarrow> (i, x) \<in> set (mt_leaves t) \<Longrightarrow> mt_val t \<le> x"
  by (induction t) (auto intro: order_trans)

lemma im_after_persist_None:
  "im_after_persist val tid t = None \<longleftrightarrow> tid \<notin> fst ` set (mt_leaves t)"
  by (induction t) (auto split: option.splits prod.splits)

text \<open>
  What one call does: the leaf of \<^verbatim>\<open>tid\<close> moves past \<^verbatim>\<open>val\<close>, no other leaf changes, no node
  decreases, and every node stays a lower bound.
\<close>

lemma im_propagate_spec:
  assumes "im_propagate v x sib = (x', c)"
  shows "x \<le> x'" "x' = x \<or> x' \<le> v \<and> x' \<le> sib" "c = Some w \<Longrightarrow> w = x'"
  using assms by (auto simp: im_propagate_def Let_def split: if_splits)

lemma im_after_persist_spec:
  assumes "im_after_persist val tid t = Some (t', c)" and "distinct (map fst (mt_leaves t))"
    and "im_low t" and "val \<noteq> UINT64_MAX"
  shows "im_low t' \<and> mt_val t \<le> mt_val t' \<and> (\<forall>v. c = Some v \<longrightarrow> v \<le> mt_val t')
       \<and> mt_leaves t' = map (\<lambda>(i, x). (i, if i = tid \<and> x \<le> val then val + 1 else x)) (mt_leaves t)"
  using assms
proof (induction t arbitrary: t' c)
  case (MLeaf i x)
  have "val \<le> val + 1" using MLeaf.prems(4) by (simp add: word_le_nat_alt unat_inc)
  then show ?case using MLeaf.prems by (auto split: if_splits)
next
  case (MNode x l r)
  let ?f = "\<lambda>(i, x). (i, if i = tid \<and> x \<le> val then val + 1 else x)"
  have same: "map ?f xs = xs" if "tid \<notin> fst ` set xs" for xs :: "(nat \<times> u64) list"
    using that by (induction xs) auto
  have dist: "distinct (map fst (mt_leaves l))" "distinct (map fst (mt_leaves r))"
      "fst ` set (mt_leaves l) \<inter> fst ` set (mt_leaves r) = {}"
    using MNode.prems(2) by auto
  have low: "im_low l" "im_low r" "x \<le> mt_val l" "x \<le> mt_val r" using MNode.prems(3) by auto
  show ?case
  proof (cases "im_after_persist val tid l")
    case (Some p)
    obtain l' cl where l: "im_after_persist val tid l = Some (l', cl)" using Some by (cases p) auto
    have IH: "im_low l'" "mt_val l \<le> mt_val l'" "\<And>v. cl = Some v \<Longrightarrow> v \<le> mt_val l'"
        "mt_leaves l' = map ?f (mt_leaves l)"
      using MNode.IH(1) [OF l dist(1) low(1) MNode.prems(4)] by auto
    have "tid \<in> fst ` set (mt_leaves l)" using im_after_persist_None [of val tid l] l by auto
    then have r: "map ?f (mt_leaves r) = mt_leaves r" using same [of "mt_leaves r"] dist(3) by blast
    show ?thesis
    proof (cases cl)
      case None
      then show ?thesis using MNode.prems l IH r low by (auto intro: order_trans)
    next
      case (Some v)
      obtain x' c' where p: "im_propagate v x (mt_val r) = (x', c')" by fastforce
      have "x' \<le> mt_val l'" "x' \<le> mt_val r"
        using im_propagate_spec(2) [OF p] IH(2,3) Some low by (auto intro: order_trans)
      then show ?thesis using MNode.prems l IH r low Some p im_propagate_spec(1,3) [OF p] by auto
    qed
  next
    case None
    then obtain r' cr where rr: "im_after_persist val tid r = Some (r', cr)"
      using MNode.prems(1) by (auto split: option.splits prod.splits)
    have IH: "im_low r'" "mt_val r \<le> mt_val r'" "\<And>v. cr = Some v \<Longrightarrow> v \<le> mt_val r'"
        "mt_leaves r' = map ?f (mt_leaves r)"
      using MNode.IH(2) [OF rr dist(2) low(2) MNode.prems(4)] by auto
    have l: "map ?f (mt_leaves l) = mt_leaves l"
      using same [of "mt_leaves l"] None im_after_persist_None [of val tid l] by blast
    show ?thesis
    proof (cases cr)
      case None
      then show ?thesis using MNode.prems \<open>im_after_persist val tid l = None\<close> rr IH l low
        by (auto intro: order_trans)
    next
      case (Some v)
      obtain x' c' where p: "im_propagate v x (mt_val l) = (x', c')" by fastforce
      have "x' \<le> mt_val r'" "x' \<le> mt_val l"
        using im_propagate_spec(2) [OF p] IH(2,3) Some low by (auto intro: order_trans)
      then show ?thesis
        using MNode.prems None rr IH l low Some p im_propagate_spec(1,3) [OF p] by auto
    qed
  qed
qed

lemma im_find_le_Some: "im_find_le val t = Some i \<Longrightarrow> \<exists>x. (i, x) \<in> set (mt_leaves t) \<and> x \<le> val"
  by (induction t) (auto split: if_splits option.splits)

lemma im_find_le_None:
  "im_find_le val t = None \<Longrightarrow> im_low t \<Longrightarrow> (i, x) \<in> set (mt_leaves t) \<Longrightarrow> val < x"
proof (induction t)
  case (MLeaf j y)
  then show ?case by (auto split: if_splits)
next
  case (MNode y l r)
  show ?case
  proof (cases "val < y")
    case True
    then show ?thesis using im_low_leaf [OF MNode.prems(2,3)] by simp
  next
    case False
    then show ?thesis using MNode by (auto split: option.splits)
  qed
qed

lemma im_search_up_None_iff: "im_search_up val cur t = None \<longleftrightarrow> cur \<notin> fst ` set (mt_leaves t)"
  by (induction t) (auto split: option.splits)

lemma im_search_up_Some:
  "im_search_up val cur t = Some (Some i) \<Longrightarrow> \<exists>x. (i, x) \<in> set (mt_leaves t) \<and> x \<le> val"
proof (induction t)
  case (MLeaf j y)
  then show ?case by (auto split: if_splits)
next
  case (MNode y l r)
  then show ?case
    by (auto split: option.splits if_splits dest!: im_find_le_Some)
qed

text \<open>
  The search up the path looks into a sibling only where a node is strictly below \<^verbatim>\<open>val\<close>, so
  what it misses can still be equal to \<^verbatim>\<open>val\<close>.
\<close>

lemma im_search_up_nothing:
  "im_search_up val cur t = Some None \<Longrightarrow> im_low t \<Longrightarrow> distinct (map fst (mt_leaves t)) \<Longrightarrow>
     (i, x) \<in> set (mt_leaves t) \<Longrightarrow> i \<noteq> cur \<Longrightarrow> val \<le> x"
proof (induction t)
  case (MLeaf j y)
  then show ?case by (auto split: if_splits)
next
  case (MNode y l r)
  show ?case
  proof (cases "y < val")
    case False
    then show ?thesis using im_low_leaf [OF MNode.prems(2,4)] by simp
  next
    case True
    then show ?thesis
      using MNode im_find_le_None [of val l i x] im_find_le_None [of val r i x]
      by (auto split: option.splits simp: im_search_up_None_iff less_imp_le)
  qed
qed

section \<open>The contract of a persist tracker\<close>

text \<open>
  \<^term>\<open>lag i t\<close> is the oldest epoch thread \<^term>\<open>i\<close> may still have to write back.
  \<^verbatim>\<open>drive\<close> is the loop of \<^verbatim>\<open>on_epoch_end\<close> over the tracker: the threads it visits, in order.
\<close>

fun drive :: "(u64 \<Rightarrow> nat \<Rightarrow> 't \<Rightarrow> nat option res) \<Rightarrow> (u64 \<Rightarrow> nat \<Rightarrow> 't \<Rightarrow> 't res)
    \<Rightarrow> nat \<Rightarrow> u64 \<Rightarrow> nat \<Rightarrow> 't \<Rightarrow> (nat list \<times> 't) res" where
  "drive nxt aft 0 val cur t = Inl Diverges"
| "drive nxt aft (Suc fuel) val cur t =
     rbind (nxt val cur t) (\<lambda>r. case r of
         None \<Rightarrow> Inr ([], t)
       | Some i \<Rightarrow> rbind (aft val i t) (\<lambda>t1. rbind (drive nxt aft fuel val i t1) (\<lambda>(is, t2). Inr (i # is, t2))))"

locale persist_tracker =
  fixes nxt :: "u64 \<Rightarrow> nat \<Rightarrow> 't \<Rightarrow> nat option res"
    and aft :: "u64 \<Rightarrow> nat \<Rightarrow> 't \<Rightarrow> 't res"
    and lag :: "nat \<Rightarrow> 't \<Rightarrow> u64"
    and wf :: "nat \<Rightarrow> 't \<Rightarrow> bool"
  assumes nxt_total: "wf n t \<Longrightarrow> cur < n \<Longrightarrow> \<exists>r. nxt val cur t = Inr r"
    and nxt_lags: "wf n t \<Longrightarrow> nxt val cur t = Inr (Some i) \<Longrightarrow> val \<noteq> UINT64_MAX \<Longrightarrow> i < n \<and> lag i t \<le> val"
    and aft_law: "wf n t \<Longrightarrow> i < n \<Longrightarrow> lag i t \<le> val \<Longrightarrow> val \<noteq> UINT64_MAX \<Longrightarrow>
      \<exists>t'. aft val i t = Inr t' \<and> wf n t' \<and> val < lag i t' \<and> (\<forall>j < n. j \<noteq> i \<longrightarrow> lag j t' = lag j t)"
begin

definition lagging :: "nat \<Rightarrow> u64 \<Rightarrow> 't \<Rightarrow> nat set" where
  "lagging n val t = {i. i < n \<and> lag i t \<le> val}"

lemma lagging_finite: "finite (lagging n val t)"
  by (simp add: lagging_def)

lemma lagging_step:
  assumes "i < n" "lag i t \<le> val" "val < lag i t'" "\<forall>j < n. j \<noteq> i \<longrightarrow> lag j t' = lag j t"
  shows "lagging n val t' = lagging n val t - {i}"
  using assms by (auto simp: lagging_def)

text \<open>The loop ends, visits each thread at most once, and visits only threads that lag.\<close>

lemma drive_ends:
  assumes "wf n t" and "cur < n" and "val \<noteq> UINT64_MAX" and "card (lagging n val t) < fuel"
  shows "\<exists>is t'. drive nxt aft fuel val cur t = Inr (is, t') \<and> wf n t' \<and> distinct is
    \<and> set is \<subseteq> lagging n val t \<and> lagging n val t' = lagging n val t - set is
    \<and> (\<forall>j < n. j \<notin> set is \<longrightarrow> lag j t' = lag j t)
    \<and> (\<exists>last < n. nxt val last t' = Inr None)"
  using assms
proof (induction fuel arbitrary: cur t)
  case 0
  then show ?case by simp
next
  case (Suc fuel)
  obtain r where r: "nxt val cur t = Inr r" using nxt_total Suc.prems(1,2) by blast
  show ?case
  proof (cases r)
    case None
    then show ?thesis using r Suc.prems by auto
  next
    case (Some i)
    have i: "i < n" "lag i t \<le> val" using nxt_lags [OF Suc.prems(1)] r Some Suc.prems(3) by auto
    obtain t1 where t1: "aft val i t = Inr t1" "wf n t1" "val < lag i t1"
        "\<forall>j < n. j \<noteq> i \<longrightarrow> lag j t1 = lag j t"
      using aft_law [OF Suc.prems(1) i Suc.prems(3)] by auto
    have L: "lagging n val t1 = lagging n val t - {i}" using lagging_step [OF i t1(3,4)] .
    have "i \<in> lagging n val t" using i by (simp add: lagging_def)
    then have "card (lagging n val t1) < fuel"
      using Suc.prems(4) lagging_finite [of n val t] by (simp add: L card_Diff_singleton) (metis
        Suc_less_eq Suc_pred card_gt_0_iff empty_iff)
    then obtain "is" t2 where d: "drive nxt aft fuel val i t1 = Inr (is, t2)" "wf n t2" "distinct is"
        "set is \<subseteq> lagging n val t1" "lagging n val t2 = lagging n val t1 - set is"
        "\<forall>j < n. j \<notin> set is \<longrightarrow> lag j t2 = lag j t1" "\<exists>last < n. nxt val last t2 = Inr None"
      using Suc.IH [OF t1(2) i(1) Suc.prems(3)] by blast
    have "drive nxt aft (Suc fuel) val cur t = Inr (i # is, t2)" using r Some t1(1) d(1) by simp
    moreover have "distinct (i # is)" "set (i # is) \<subseteq> lagging n val t"
        "lagging n val t2 = lagging n val t - set (i # is)"
      using d(3-5) L \<open>i \<in> lagging n val t\<close> by auto
    moreover have "\<forall>j < n. j \<notin> set (i # is) \<longrightarrow> lag j t2 = lag j t" using d(6) t1(4) by auto
    ultimately show ?thesis using d(2,7) by blast
  qed
qed

end

section \<open>IncreasingMindicator meets the contract\<close>

definition im_lag :: "nat \<Rightarrow> imind \<Rightarrow> u64" where
  "im_lag i t = (case leaf_val i t of Some x \<Rightarrow> x | None \<Rightarrow> UINT64_MAX)"

lemma im_wf_distinct: "im_wf n t \<Longrightarrow> distinct (map fst (mt_leaves t))"
  by (simp add: im_wf_def)

lemma thread_cnt_le: "n \<le> thread_cnt_of n"
  by (simp add: thread_cnt_of_def)

lemma im_wf_in: "im_wf n t \<Longrightarrow> i < n \<Longrightarrow> i \<in> fst ` set (mt_leaves t)"
proof -
  assume "im_wf n t" "i < n"
  then have "i \<in> set (map fst (mt_leaves t))" using thread_cnt_le [of n] by (simp only: im_wf_def) simp
  then show ?thesis by simp
qed

lemma im_wf_leaf: "im_wf n t \<Longrightarrow> i < n \<Longrightarrow> \<exists>x. leaf_val i t = Some x"
  unfolding leaf_val_def by (metis im_wf_in map_of_eq_None_iff not_None_eq)

lemma im_wf_mem:
  "im_wf n t \<Longrightarrow> (i, x) \<in> set (mt_leaves t) \<Longrightarrow> (x \<noteq> UINT64_MAX \<longrightarrow> i < n) \<and> leaf_val i t = Some x"
proof
  assume wf: "im_wf n t" and m: "(i, x) \<in> set (mt_leaves t)"
  then show "x \<noteq> UINT64_MAX \<longrightarrow> i < n" by (fastforce simp: im_wf_def)
  show "leaf_val i t = Some x" using im_wf_distinct [OF wf] m by (simp add: leaf_val_def)
qed

lemma map_of_map_if:
  "map_of (map (\<lambda>(i, x). (i, f i x)) xs) j = map_option (f j) (map_of xs j)"
  by (induction xs) auto

lemma im_after_law:
  assumes wf: "im_wf n t" and i: "i < n" and lag: "im_lag i t \<le> val" and v: "val \<noteq> UINT64_MAX"
  shows "\<exists>t'. im_after_persist_epoch val i t = Inr t' \<and> im_wf n t' \<and> im_lag i t' = val + 1
       \<and> (\<forall>j < n. j \<noteq> i \<longrightarrow> im_lag j t' = im_lag j t)"
proof -
  obtain t' c where ap: "im_after_persist val i t = Some (t', c)"
    using im_after_persist_None [of val i t] im_wf_in [OF wf i] by fastforce
  have low: "im_low t" using wf by (simp add: im_wf_def)
  note spec = im_after_persist_spec [OF ap im_wf_distinct [OF wf] low v]
  let ?f = "\<lambda>j x. if j = i \<and> x \<le> val then val + 1 else x"
  have leaves: "mt_leaves t' = map (\<lambda>(j, x). (j, ?f j x)) (mt_leaves t)" using spec by blast
  have lv: "leaf_val j t' = map_option (?f j) (leaf_val j t)" for j
    by (simp add: leaf_val_def leaves map_of_map_if)
  have "map fst (mt_leaves t') = map fst (mt_leaves t)" by (simp add: leaves comp_def case_prod_unfold)
  moreover have "im_low t'" using spec by blast
  moreover have "\<forall>(j, x) \<in> set (mt_leaves t'). n \<le> j \<longrightarrow> x = UINT64_MAX"
    using wf i by (auto simp: im_wf_def leaves)
  ultimately have "im_wf n t'" using wf unfolding im_wf_def by metis
  moreover have "im_lag i t' = val + 1"
    using lv [of i] im_wf_leaf [OF wf i] lag by (auto simp: im_lag_def)
  moreover have "im_lag j t' = im_lag j t" if "j \<noteq> i" for j
    using lv [of j] that by (cases "leaf_val j t") (simp_all add: im_lag_def)
  ultimately show ?thesis using ap by (simp add: im_after_persist_epoch_def)
qed

interpretation imt: persist_tracker im_next_thread im_after_persist_epoch im_lag im_wf
proof (unfold_locales, goal_cases)
  case (1 n t cur val)
  then obtain x where "leaf_val cur t = Some x" using im_wf_leaf by blast
  moreover have "im_search_up val cur t \<noteq> None"
    unfolding im_search_up_None_iff using im_wf_in [OF 1] by simp
  ultimately show ?case by (auto simp: im_next_thread_def)
next
  case (2 n t val cur i)
  obtain x where x: "leaf_val cur t = Some x"
    using 2(2) by (cases "leaf_val cur t") (simp_all add: im_next_thread_def)
  have "\<exists>x. (i, x) \<in> set (mt_leaves t) \<and> x \<le> val"
  proof (cases "x \<le> val")
    case True
    then have "i = cur" using 2(2) x by (simp add: im_next_thread_def)
    then show ?thesis using x True map_of_SomeD by (metis leaf_val_def)
  next
    case False
    then have "im_search_up val cur t = Some (Some i)"
      using 2(2) x by (auto simp: im_next_thread_def split: option.splits)
    then show ?thesis by (rule im_search_up_Some)
  qed
  then obtain y where "(i, y) \<in> set (mt_leaves t)" "y \<le> val" by blast
  moreover from this have "y \<noteq> UINT64_MAX" using 2(3) by auto
  ultimately show ?case using im_wf_mem [OF 2(1), of i y] by (simp add: im_lag_def)
next
  case (3 n t i val)
  moreover have "val < val + 1" using 3 by (simp add: word_less_nat_alt unat_inc)
  ultimately show ?case using im_after_law by metis
qed

text \<open>When the search of \<^verbatim>\<open>next_thread_to_persist(val, curr)\<close> gives up, no thread is below \<^verbatim>\<open>val\<close>.\<close>

lemma im_next_thread_None:
  assumes "im_wf n t" and "im_next_thread val cur t = Inr None" and "j < n"
  shows "val \<le> im_lag j t"
proof -
  obtain x where x: "leaf_val cur t = Some x" "\<not> x \<le> val" "im_search_up val cur t = Some None"
    using assms(2) by (auto simp: im_next_thread_def split: option.splits if_splits)
  obtain y where y: "leaf_val j t = Some y" using im_wf_leaf assms(1,3) by blast
  show ?thesis
  proof (cases "j = cur")
    case True
    then show ?thesis using x y by (simp add: im_lag_def)
  next
    case False
    moreover have "(j, y) \<in> set (mt_leaves t)" using y by (simp add: leaf_val_def map_of_SomeD)
    ultimately show ?thesis
      using im_search_up_nothing [OF x(3)] assms(1) im_wf_distinct y by (auto simp: im_lag_def im_wf_def)
  qed
qed

section \<open>Properties\<close>

text \<open>
  C26.  The loop that \<^verbatim>\<open>on_epoch_end\<close> drives over the increasing mindicator for an epoch ends after at
  most one turn per thread, visits no thread twice and only threads that had not persisted the epoch,
  and leaves no thread strictly behind it.
\<close>

theorem im_loop_ends:
  assumes "im_wf n t" "cur < n" "val \<noteq> UINT64_MAX"
  shows "\<exists>is t'. drive im_next_thread im_after_persist_epoch (Suc n) val cur t = Inr (is, t') \<and> im_wf n t'
    \<and> distinct is \<and> (\<forall>i \<in> set is. i < n \<and> im_lag i t \<le> val \<and> val < im_lag i t') \<and> (\<forall>i < n. val \<le> im_lag i t')"
proof -
  have "card (imt.lagging n val t) \<le> n"
    using card_mono [of "{..<n}" "imt.lagging n val t"] by (auto simp: imt.lagging_def)
  then have "card (imt.lagging n val t) < Suc n" by simp
  from imt.drive_ends [OF assms this] obtain "is" t' z where
    d: "drive im_next_thread im_after_persist_epoch (Suc n) val cur t = Inr (is, t')" "im_wf n t'" "distinct is"
      "set is \<subseteq> imt.lagging n val t" "imt.lagging n val t' = imt.lagging n val t - set is"
      "z < n" "im_next_thread val z t' = Inr None" by blast
  have "i < n \<and> im_lag i t \<le> val \<and> val < im_lag i t'" if "i \<in> set is" for i
  proof -
    have "i \<in> imt.lagging n val t" "i \<notin> imt.lagging n val t'" using that d(4,5) by auto
    then show ?thesis by (auto simp: imt.lagging_def not_le)
  qed
  moreover have "val \<le> im_lag i t'" if "i < n" for i using im_next_thread_None [OF d(2,7) that] .
  ultimately show ?thesis using d(1-3) by blast
qed

abbreviation ex_im :: "u64 \<Rightarrow> u64 \<Rightarrow> u64 \<Rightarrow> imind" where
  "ex_im r a b \<equiv> MNode r (MLeaf 0 a) (MLeaf 1 b)"

lemma ex_im_new: "im_new 2 = Inr (ex_im 0 0 0)"
  by code_simp

theorem im_loop_ends_witness:
  "im_new 2 = Inr (ex_im 0 0 0) \<and>
   (\<exists>is t'. drive im_next_thread im_after_persist_epoch (Suc 2) 2 0 (ex_im 0 0 0) = Inr (is, t')
     \<and> (\<forall>i < 2. 2 \<le> im_lag i t'))"
proof -
  have "im_wf 2 (ex_im 0 0 0)" using im_new_wf [of 2] by (simp add: ex_im_new)
  then have "\<exists>is t'. drive im_next_thread im_after_persist_epoch (Suc 2) 2 0 (ex_im 0 0 0) = Inr (is, t')
     \<and> im_wf 2 t' \<and> distinct is \<and> (\<forall>i \<in> set is. i < 2 \<and> im_lag i (ex_im 0 0 0) \<le> 2 \<and> 2 < im_lag i t') \<and> (\<forall>i < 2. 2 \<le> im_lag i t')"
    by (rule im_loop_ends) (simp_all add: UINT64_MAX_def)
  with ex_im_new show ?thesis by blast
qed

text \<open>
  With two threads that are both up to date with epoch 2, the loop for epoch 3 visits thread 0
  only and stops, although thread 1 has not persisted epoch 3 either; the loop for epoch 4 then
  marks thread 1 as done with epoch 4.  Epoch 3 of thread 1 is never persisted.
\<close>

theorem im_loop_skips_thread:
  "im_new 2 = Inr (ex_im 0 0 0)
    \<and> drive im_next_thread im_after_persist_epoch 3 2 0 (ex_im 0 0 0) = Inr ([0, 1], ex_im 2 3 3)
    \<and> drive im_next_thread im_after_persist_epoch 3 3 0 (ex_im 2 3 3) = Inr ([0], ex_im 3 4 3)
    \<and> drive im_next_thread im_after_persist_epoch 3 4 0 (ex_im 3 4 3) = Inr ([0, 1], ex_im 4 5 5)"
  by code_simp

end
