(* ===== verification/Mindicator_Tracker.thy ===== *)
theory Mindicator_Tracker
  imports Persist_Trackers
begin

text \<open>
  The class \<^verbatim>\<open>Mindicator\<close> of \<^verbatim>\<open>src/persist/PersistTrackers.hpp\<close>, run without interference, so
  that every compare-exchange succeeds.  A node carries a value and a mark whose low bit says that
  the node is dirty and whose upper bits count updates.
\<close>

record marked =
  mv_val :: u64
  mv_mark :: u64

definition mv_new :: "u64 \<Rightarrow> bool \<Rightarrow> marked" where
  "mv_new x dirty = \<lparr>mv_val = x, mv_mark = (if dirty then 1 else 0)\<rparr>"

definition is_dirty :: "marked \<Rightarrow> bool" where
  "is_dirty m \<longleftrightarrow> mv_mark m AND 1 = 1"

definition get_counter :: "marked \<Rightarrow> u64" where
  "get_counter m = mv_mark m AND NOT 1"

definition prepare_mark :: "marked \<Rightarrow> marked \<Rightarrow> marked" where
  "prepare_mark old m = m\<lparr>mv_mark := (mv_mark m AND 1) OR (get_counter old + 2)\<rparr>"

text \<open>\<^verbatim>\<open>CAS_val(old, target)\<close> on a node that still holds \<^verbatim>\<open>old\<close> stores the marked target.\<close>

definition CAS_val :: "marked \<Rightarrow> marked \<Rightarrow> marked" where
  "CAS_val old target = prepare_mark old target"

definition md_clean :: "u64 \<Rightarrow> marked \<Rightarrow> marked" where
  "md_clean val x = (if mv_val x = val \<and> is_dirty x then CAS_val x (mv_new val False) else x)"

definition md_propagate :: "u64 \<Rightarrow> marked \<Rightarrow> bool \<times> marked" where
  "md_propagate val x =
     (if mv_val x > val then (False, CAS_val x (mv_new val True))
      else if is_dirty x then (False, x)
      else (True, CAS_val x x))"

definition md_summarize :: "u64 \<Rightarrow> marked \<Rightarrow> marked \<Rightarrow> marked \<Rightarrow> bool \<times> marked" where
  "md_summarize val x c0 c1 =
     (if is_dirty x then (mv_val x < val, x)
      else let children_min = min (mv_val c0) (mv_val c1) in
           if children_min < mv_val x \<and> children_min < val then (True, x)
           else (mv_val x < val, CAS_val x (mv_new children_min (children_min < mv_val x))))"

type_synonym mtree_m = "marked mtree"

fun mt_set_leaf :: "nat \<Rightarrow> 'a \<Rightarrow> 'a mtree \<Rightarrow> 'a mtree" where
  "mt_set_leaf i y (MLeaf j x) = (if i = j then MLeaf j y else MLeaf j x)"
| "mt_set_leaf i y (MNode x l r) = MNode x (mt_set_leaf i y l) (mt_set_leaf i y r)"

text \<open>
  \<^verbatim>\<open>arrive\<close>: the nodes above leaf \<^verbatim>\<open>tid\<close> are updated from the bottom until \<^verbatim>\<open>propagate\<close> stops,
  and those visited are cleaned; cleaning a node does not affect the others.  The result says
  whether propagation has stopped; \<^term>\<open>None\<close> if the leaf is not in this subtree.
\<close>

fun md_arrive :: "u64 \<Rightarrow> nat \<Rightarrow> mtree_m \<Rightarrow> (bool \<times> mtree_m) option" where
  "md_arrive val tid (MLeaf i x) = (if i = tid then Some (False, MLeaf i x) else None)"
| "md_arrive val tid (MNode x l r) =
     (case md_arrive val tid l of
        Some (True, l') \<Rightarrow> Some (True, MNode x l' r)
      | Some (False, l') \<Rightarrow> (case md_propagate val x of (d, x') \<Rightarrow> Some (d, MNode (md_clean val x') l' r))
      | None \<Rightarrow>
          (case md_arrive val tid r of
             Some (True, r') \<Rightarrow> Some (True, MNode x l r')
           | Some (False, r') \<Rightarrow> (case md_propagate val x of (d, x') \<Rightarrow> Some (d, MNode (md_clean val x') l r'))
           | None \<Rightarrow> None))"

fun md_depart :: "u64 \<Rightarrow> nat \<Rightarrow> mtree_m \<Rightarrow> (bool \<times> mtree_m) option" where
  "md_depart val tid (MLeaf i x) = (if i = tid then Some (False, MLeaf i x) else None)"
| "md_depart val tid (MNode x l r) =
     (case md_depart val tid l of
        Some (True, l') \<Rightarrow> Some (True, MNode x l' r)
      | Some (False, l') \<Rightarrow> (case md_summarize val x (mt_val l') (mt_val r) of (d, x') \<Rightarrow> Some (d, MNode x' l' r))
      | None \<Rightarrow>
          (case md_depart val tid r of
             Some (True, r') \<Rightarrow> Some (True, MNode x l r')
           | Some (False, r') \<Rightarrow> (case md_summarize val x (mt_val l) (mt_val r') of (d, x') \<Rightarrow> Some (d, MNode x' l r'))
           | None \<Rightarrow> None))"

record mindicator =
  md_tree :: mtree_m
  has_write_op :: "int list list"

definition md_new :: "nat \<Rightarrow> mindicator res" where
  "md_new actual_thread_cnt =
     rassert (0 < actual_thread_cnt)
       (case mt_build (thread_cnt_of actual_thread_cnt) (mv_new UINT64_MAX False) (\<lambda>_. mv_new UINT64_MAX False) of
          None \<Rightarrow> Inl BadAccess
        | Some t \<Rightarrow> Inr \<lparr>md_tree = t, has_write_op = replicate EPOCH_WINDOW (replicate actual_thread_cnt 0)\<rparr>)"

definition md_change :: "u64 \<Rightarrow> nat \<Rightarrow> mtree_m \<Rightarrow> mtree_m res" where
  "md_change val tid t =
     (case leaf_val tid t of
        None \<Rightarrow> Inl BadAccess
      | Some old \<Rightarrow>
          if mv_val old = val then Inr t
          else let new_val = prepare_mark old (mv_new val False);
                   t1 = mt_set_leaf tid (CAS_val old new_val) t
               in case md_arrive val tid t1 of
                    None \<Rightarrow> Inl BadAccess
                  | Some (_, t2) \<Rightarrow>
                      (case md_depart (mv_val old) tid t2 of
                         None \<Rightarrow> Inl BadAccess
                       | Some (_, t3) \<Rightarrow> Inr t3))"

definition md_first_write_on_new_epoch :: "u64 \<Rightarrow> nat \<Rightarrow> mindicator \<Rightarrow> mindicator res" where
  "md_first_write_on_new_epoch e tid m =
     rbind (rnth (has_write_op m) (slot e)) (\<lambda>row. rbind (rnth row tid) (\<lambda>f.
       Inr (if f = 0 then m\<lparr>has_write_op := (has_write_op m)[slot e := row[tid := 1]]\<rparr> else m)))"

definition md_after_persist_epoch :: "u64 \<Rightarrow> nat \<Rightarrow> mindicator \<Rightarrow> mindicator res" where
  "md_after_persist_epoch e tid m =
     rbind (rnth (has_write_op m) (slot (e + 1))) (\<lambda>row1. rbind (rnth row1 tid) (\<lambda>f1.
       rbind (md_change (if f1 > 0 then e + 1 else UINT64_MAX) tid (md_tree m)) (\<lambda>t.
         rbind (rnth (has_write_op m) (slot e)) (\<lambda>row. rbind (rnth row tid) (\<lambda>f.
           Inr (m\<lparr>md_tree := t,
                  has_write_op := (if f = 1 then (has_write_op m)[slot e := row[tid := 0]] else has_write_op m)\<rparr>))))))"

fun md_find_le :: "u64 \<Rightarrow> mtree_m \<Rightarrow> nat option" where
  "md_find_le val (MLeaf i x) = (if mv_val x > val then None else Some i)"
| "md_find_le val (MNode x l r) =
     (if mv_val x > val then None
      else case md_find_le val l of Some i \<Rightarrow> Some i | None \<Rightarrow> md_find_le val r)"

text \<open>
  The loop of \<^verbatim>\<open>next_thread_to_persist(val, curr)\<close> starts at index \<^verbatim>\<open>paths[curr].size() - 2\<close>
  with \<^verbatim>\<open>from\<close> the side of the leaf.  Here \<^verbatim>\<open>paths\<close> does not contain the leaf, so the parent
  of the leaf is skipped and its own parent is visited with the side of the leaf.
\<close>

datatype upst = AtLeaf | AtParent bool | Above | Found nat

definition md_visit :: "u64 \<Rightarrow> marked \<Rightarrow> mtree_m \<Rightarrow> mtree_m \<Rightarrow> bool \<Rightarrow> upst" where
  "md_visit val x l r from_right =
     (if mv_val x < val
      then case md_find_le val (if from_right then l else r) of Some i \<Rightarrow> Found i | None \<Rightarrow> Above
      else Above)"

definition md_up :: "u64 \<Rightarrow> marked \<Rightarrow> mtree_m \<Rightarrow> mtree_m \<Rightarrow> bool \<Rightarrow> upst \<Rightarrow> upst" where
  "md_up val x l r side st =
     (case st of
        Found i \<Rightarrow> Found i
      | AtLeaf \<Rightarrow> AtParent side
      | AtParent leaf_side \<Rightarrow> md_visit val x l r leaf_side
      | Above \<Rightarrow> md_visit val x l r side)"

fun md_search_up :: "u64 \<Rightarrow> nat \<Rightarrow> mtree_m \<Rightarrow> upst option" where
  "md_search_up val cur (MLeaf i x) = (if i = cur then Some AtLeaf else None)"
| "md_search_up val cur (MNode x l r) =
     (case md_search_up val cur l of
        Some st \<Rightarrow> Some (md_up val x l r False st)
      | None \<Rightarrow>
          (case md_search_up val cur r of
             Some st \<Rightarrow> Some (md_up val x l r True st)
           | None \<Rightarrow> None))"

definition md_next_thread :: "u64 \<Rightarrow> nat \<Rightarrow> mindicator \<Rightarrow> nat option res" where
  "md_next_thread val cur m =
     (case leaf_val cur (md_tree m) of
        None \<Rightarrow> Inl BadAccess
      | Some x \<Rightarrow>
          if mv_val x \<le> val then Inr (Some cur)
          else case md_search_up val cur (md_tree m) of
                 None \<Rightarrow> Inl BadAccess
               | Some (Found i) \<Rightarrow> Inr (Some i)
               | Some _ \<Rightarrow> Inr None)"

definition md_next_thread_any :: "u64 \<Rightarrow> mindicator \<Rightarrow> nat option res" where
  "md_next_thread_any val m =
     (if mv_val (mt_val (md_tree m)) \<le> val
      then case md_find_le val (md_tree m) of Some i \<Rightarrow> Inr (Some i) | None \<Rightarrow> Inl Diverges
      else Inr None)"

definition md_next_epoch_to_persist :: "nat \<Rightarrow> mindicator \<Rightarrow> u64 res" where
  "md_next_epoch_to_persist tid m =
     (case leaf_val tid (md_tree m) of
        None \<Rightarrow> Inl BadAccess
      | Some x \<Rightarrow> Inr (if mv_val x = UINT64_MAX then NULL_EPOCH else mv_val x))"

section \<open>Values of the leaves\<close>

lemma mv_val_simps [simp]: "mv_val (CAS_val old m) = mv_val m" "mv_val (prepare_mark old m) = mv_val m"
    "mv_val (mv_new x d) = x"
  by (simp_all add: CAS_val_def prepare_mark_def mv_new_def)

lemma mt_set_leaf_leaves:
  "mt_leaves (mt_set_leaf i y t) = map (\<lambda>(j, x). (j, if j = i then y else x)) (mt_leaves t)"
  by (induction t) auto

lemma md_arrive_leaves: "md_arrive val tid t = Some (d, t') \<Longrightarrow> mt_leaves t' = mt_leaves t"
  by (induction t arbitrary: d t') (auto split: option.splits prod.splits bool.splits if_splits)

lemma md_arrive_None: "md_arrive val tid t = None \<longleftrightarrow> tid \<notin> fst ` set (mt_leaves t)"
  by (induction t) (auto split: option.splits prod.splits bool.splits)

lemma md_depart_leaves: "md_depart val tid t = Some (d, t') \<Longrightarrow> mt_leaves t' = mt_leaves t"
  by (induction t arbitrary: d t') (auto split: option.splits prod.splits bool.splits if_splits)

lemma md_depart_None: "md_depart val tid t = None \<longleftrightarrow> tid \<notin> fst ` set (mt_leaves t)"
  by (induction t) (auto split: option.splits prod.splits bool.splits)

lemma md_arrive_total:
  assumes "tid \<in> fst ` set (mt_leaves t)"
  shows "\<exists>d t'. md_arrive val tid t = Some (d, t') \<and> mt_leaves t' = mt_leaves t"
proof (cases "md_arrive val tid t")
  case None
  then show ?thesis using assms md_arrive_None by blast
next
  case (Some p)
  then show ?thesis using md_arrive_leaves [of val tid t "fst p" "snd p"] by (cases p) simp
qed

lemma md_depart_total:
  assumes "tid \<in> fst ` set (mt_leaves t)"
  shows "\<exists>d t'. md_depart val tid t = Some (d, t') \<and> mt_leaves t' = mt_leaves t"
proof (cases "md_depart val tid t")
  case None
  then show ?thesis using assms md_depart_None by blast
next
  case (Some p)
  then show ?thesis using md_depart_leaves [of val tid t "fst p" "snd p"] by (cases p) simp
qed

lemma md_search_up_None: "md_search_up val cur t = None \<longleftrightarrow> cur \<notin> fst ` set (mt_leaves t)"
  by (induction t) (auto split: option.splits)

lemma md_find_le_Some: "md_find_le val t = Some i \<Longrightarrow> \<exists>x. (i, x) \<in> set (mt_leaves t) \<and> mv_val x \<le> val"
  by (induction t) (auto split: if_splits option.splits)

lemma md_visit_Found:
  "md_visit val x l r f = Found i \<Longrightarrow> \<exists>y. (i, y) \<in> set (mt_leaves l) \<union> set (mt_leaves r) \<and> mv_val y \<le> val"
  by (auto simp: md_visit_def split: if_splits option.splits dest!: md_find_le_Some)

lemma md_search_up_Found:
  "md_search_up val cur t = Some (Found i) \<Longrightarrow> \<exists>x. (i, x) \<in> set (mt_leaves t) \<and> mv_val x \<le> val"
proof (induction t)
  case (MLeaf j y)
  then show ?case by (auto split: if_splits)
next
  case (MNode y l r)
  then show ?case
    by (auto simp: md_up_def split: option.splits upst.splits dest!: md_visit_Found)
qed

lemma md_change_law:
  assumes "tid \<in> fst ` set (mt_leaves t)" and "distinct (map fst (mt_leaves t))"
  shows "\<exists>t'. md_change val tid t = Inr t' \<and> map fst (mt_leaves t') = map fst (mt_leaves t)
       \<and> (\<exists>y. leaf_val tid t' = Some y \<and> mv_val y = val)
       \<and> (\<forall>j. j \<noteq> tid \<longrightarrow> leaf_val j t' = leaf_val j t)"
proof -
  obtain old where old: "leaf_val tid t = Some old"
    using assms(1) by (metis leaf_val_def map_of_eq_None_iff not_None_eq)
  show ?thesis
  proof (cases "mv_val old = val")
    case True
    then show ?thesis using old by (simp add: md_change_def)
  next
    case False
    let ?y = "CAS_val old (prepare_mark old (mv_new val False))"
    let ?t1 = "mt_set_leaf tid ?y t"
    have l1: "mt_leaves ?t1 = map (\<lambda>(j, x). (j, if j = tid then ?y else x)) (mt_leaves t)"
      by (rule mt_set_leaf_leaves)
    have f1: "map fst (mt_leaves ?t1) = map fst (mt_leaves t)" by (simp add: l1 comp_def case_prod_unfold)
    have in1: "tid \<in> fst ` set (mt_leaves ?t1)" using assms(1) f1 by (metis set_map)
    obtain d2 t2 where t2: "md_arrive val tid ?t1 = Some (d2, t2)" "mt_leaves t2 = mt_leaves ?t1"
      using md_arrive_total [OF in1] by blast
    obtain d3 t3 where t3: "md_depart (mv_val old) tid t2 = Some (d3, t3)" "mt_leaves t3 = mt_leaves ?t1"
      using md_depart_total [of tid t2] in1 unfolding t2(2) by blast
    have "leaf_val j t3 = map_option (\<lambda>x. if j = tid then ?y else x) (leaf_val j t)" for j
      by (simp add: leaf_val_def t3(2) l1 map_of_map_if)
    then show ?thesis
      using old False t2(1) t3 f1 by (auto simp: md_change_def Let_def option.map_ident)
  qed
qed

section \<open>Mindicator meets the contract\<close>

definition md_lag :: "nat \<Rightarrow> mindicator \<Rightarrow> u64" where
  "md_lag i m = (case leaf_val i (md_tree m) of Some x \<Rightarrow> mv_val x | None \<Rightarrow> UINT64_MAX)"

definition md_wf :: "nat \<Rightarrow> mindicator \<Rightarrow> bool" where
  "md_wf n m \<longleftrightarrow> map fst (mt_leaves (md_tree m)) = [0..<thread_cnt_of n]
     \<and> length (has_write_op m) = EPOCH_WINDOW \<and> (\<forall>row \<in> set (has_write_op m). length row = n)
     \<and> (\<forall>i. n \<le> i \<longrightarrow> md_lag i m = UINT64_MAX)"

lemma md_wf_row: "md_wf n m \<Longrightarrow> length (has_write_op m ! slot e) = n"
  by (simp add: md_wf_def)

lemma md_wf_in: "md_wf n m \<Longrightarrow> i < n \<Longrightarrow> i \<in> fst ` set (mt_leaves (md_tree m))"
proof -
  assume "md_wf n m" "i < n"
  then have "i \<in> set (map fst (mt_leaves (md_tree m)))"
    using thread_cnt_le [of n] by (simp only: md_wf_def) simp
  then show ?thesis by simp
qed

lemma md_lag_mem:
  "md_wf n m \<Longrightarrow> (i, x) \<in> set (mt_leaves (md_tree m)) \<Longrightarrow> md_lag i m = mv_val x"
proof -
  assume "md_wf n m" and m: "(i, x) \<in> set (mt_leaves (md_tree m))"
  then have "distinct (map fst (mt_leaves (md_tree m)))" by (simp add: md_wf_def)
  then show ?thesis using m by (simp add: md_lag_def leaf_val_def)
qed

lemma md_new_wf:
  assumes "0 < n"
  shows "\<exists>m. md_new n = Inr m \<and> md_wf n m \<and> (\<forall>i. md_lag i m = UINT64_MAX)"
proof -
  let ?m = "thread_cnt_of n" and ?x = "mv_new UINT64_MAX False"
  have "0 < ?m" using assms thread_cnt_le [of n] by linarith
  then obtain t where t: "mt_build ?m ?x (\<lambda>_. ?x) = Some t" "mt_leaves t = map (\<lambda>i. (i, ?x)) [0..<?m]"
    using mt_build_leaves [of ?m ?x "\<lambda>_. ?x"] by blast
  let ?r = "\<lparr>md_tree = t, has_write_op = replicate EPOCH_WINDOW (replicate n (0 :: int))\<rparr>"
  have lag: "md_lag i ?r = UINT64_MAX" for i
  proof (cases "leaf_val i t")
    case (Some y)
    then have "(i, y) \<in> set (mt_leaves t)" by (simp add: leaf_val_def map_of_SomeD)
    then show ?thesis using Some t(2) by (auto simp: md_lag_def)
  qed (simp add: md_lag_def)
  moreover have "md_new n = Inr ?r" using assms t(1) by (simp add: md_new_def)
  moreover have "map fst (mt_leaves t) = [0..<?m]" by (simp add: t(2) comp_def)
  ultimately show ?thesis by (auto simp: md_wf_def)
qed

interpretation mdt: persist_tracker md_next_thread md_after_persist_epoch md_lag md_wf
proof (unfold_locales, goal_cases)
  case (1 n t cur val)
  have in1: "cur \<in> fst ` set (mt_leaves (md_tree t))" by (rule md_wf_in [OF 1])
  then have "leaf_val cur (md_tree t) \<noteq> None" by (simp add: leaf_val_def map_of_eq_None_iff)
  moreover have "md_search_up val cur (md_tree t) \<noteq> None" unfolding md_search_up_None using in1 by simp
  ultimately show ?case by (auto simp: md_next_thread_def split: upst.splits)
next
  case (2 n t val cur i)
  obtain x where x: "leaf_val cur (md_tree t) = Some x"
    using 2(2) by (cases "leaf_val cur (md_tree t)") (simp_all add: md_next_thread_def)
  have "\<exists>y. (i, y) \<in> set (mt_leaves (md_tree t)) \<and> mv_val y \<le> val"
  proof (cases "mv_val x \<le> val")
    case True
    then have "i = cur" using 2(2) x by (simp add: md_next_thread_def)
    then show ?thesis using x True map_of_SomeD by (metis leaf_val_def)
  next
    case False
    then have "md_search_up val cur (md_tree t) = Some (Found i)"
      using 2(2) x by (auto simp: md_next_thread_def split: option.splits upst.splits)
    then show ?thesis by (rule md_search_up_Found)
  qed
  then obtain y where "(i, y) \<in> set (mt_leaves (md_tree t))" "mv_val y \<le> val" by blast
  then have le: "md_lag i t \<le> val" using md_lag_mem [OF 2(1)] by simp
  moreover have "i < n" using le 2(1,3) max_le_iff by (metis md_wf_def not_le)
  ultimately show ?case by simp
next
  case (3 n t i val)
  let ?v = "if has_write_op t ! slot (val + 1) ! i > 0 then val + 1 else UINT64_MAX"
  have dist: "distinct (map fst (mt_leaves (md_tree t)))" using 3(1) by (simp add: md_wf_def)
  obtain t' where t': "md_change ?v i (md_tree t) = Inr t'"
      "map fst (mt_leaves t') = map fst (mt_leaves (md_tree t))"
      "\<exists>y. leaf_val i t' = Some y \<and> mv_val y = ?v" "\<forall>j. j \<noteq> i \<longrightarrow> leaf_val j t' = leaf_val j (md_tree t)"
    using md_change_law [OF md_wf_in [OF 3(1,2)] dist, of ?v] by blast
  have rows: "slot e < length (has_write_op t)" "i < length (has_write_op t ! slot e)" for e
    using 3(1,2) md_wf_row [OF 3(1)] by (simp_all add: md_wf_def)
  let ?w = "if has_write_op t ! slot val ! i = 1
            then (has_write_op t)[slot val := (has_write_op t ! slot val)[i := 0]] else has_write_op t"
  let ?m = "t\<lparr>md_tree := t', has_write_op := ?w\<rparr>"
  have ap: "md_after_persist_epoch val i t = Inr ?m"
    using rows t'(1) by (simp add: md_after_persist_epoch_def)
  have lagi: "md_lag i ?m = ?v" using t'(3) by (auto simp: md_lag_def)
  have "val < val + 1" using 3(4) by (simp add: word_less_nat_alt unat_inc)
  moreover have "val < UINT64_MAX" using 3(4) by (metis le_max order_le_imp_less_or_eq)
  ultimately have "val < md_lag i ?m" using lagi by simp
  moreover have lagj: "md_lag j ?m = md_lag j t" if "j \<noteq> i" for j
    using t'(4) that by (simp add: md_lag_def)
  moreover have "length row = n" if "row \<in> set ?w" for row
  proof -
    have "row \<in> insert ((has_write_op t ! slot val)[i := 0]) (set (has_write_op t))"
      using that set_update_subset_insert by (cases "has_write_op t ! slot val ! i = 1") force+
    then show ?thesis using 3(1) md_wf_row [OF 3(1), of val] by (auto simp: md_wf_def)
  qed
  then have "md_wf n ?m" using 3(1,2) t'(2) lagj by (auto simp: md_wf_def)
  ultimately show ?case using ap by blast
qed

text \<open>Recording writes never moves a leaf.\<close>

lemma md_first_write_tree:
  "md_first_write_on_new_epoch e tid m = Inr m' \<Longrightarrow> md_tree m' = md_tree m"
  by (auto simp: md_first_write_on_new_epoch_def rbind_eq_Inr_iff)

lemma md_idle_next_thread:
  assumes "md_wf n m" and "cur < n" and "\<forall>i. md_lag i m = UINT64_MAX" and "val \<noteq> UINT64_MAX"
  shows "md_next_thread val cur m = Inr None"
proof -
  obtain r where r: "md_next_thread val cur m = Inr r" using mdt.nxt_total [OF assms(1,2)] by blast
  show ?thesis
  proof (cases r)
    case (Some i)
    then have "md_lag i m \<le> val" using mdt.nxt_lags [OF assms(1)] r assms(4) by blast
    then show ?thesis using assms(3,4) by simp
  qed (use r in simp)
qed

section \<open>Properties\<close>

definition md_idle :: "nat \<Rightarrow> mindicator \<Rightarrow> bool" where
  "md_idle n m \<longleftrightarrow> md_wf n m \<and> (\<forall>i. md_lag i m = UINT64_MAX)"

lemma md_first_write_idle:
  assumes "md_idle n m" "md_first_write_on_new_epoch e tid m = Inr m'"
  shows "md_idle n m'"
proof -
  have "length (has_write_op m') = length (has_write_op m)
      \<and> (\<forall>row \<in> set (has_write_op m'). \<exists>row' \<in> set (has_write_op m). length row = length row')"
    using assms(2) by (fastforce simp: md_first_write_on_new_epoch_def rbind_eq_Inr_iff rnth_def
        in_set_conv_nth nth_upd split: if_splits)
  moreover have "md_lag i m' = md_lag i m" for i using md_first_write_tree [OF assms(2)] by (simp add: md_lag_def)
  ultimately show ?thesis
    using assms(1) md_first_write_tree [OF assms(2)] unfolding md_idle_def md_wf_def by auto
qed

lemma md_first_write_total:
  "md_wf n m \<Longrightarrow> tid < n \<Longrightarrow> \<exists>m'. md_first_write_on_new_epoch e tid m = Inr m'"
  using md_wf_row [of n m e] by (simp add: md_first_write_on_new_epoch_def rnth_def md_wf_def)

text \<open>
  C40.  In a fresh \<^verbatim>\<open>Mindicator\<close> no sequence of first writes, by any threads in any epochs, makes the
  search find a thread to persist: every leaf starts at the greatest value, and a first write
  only sets a flag that nothing reads before a thread has been persisted once.
\<close>

theorem Mindicator_never_starts:
  assumes "md_new n = Inr m0" "rfold (\<lambda>(e, tid). md_first_write_on_new_epoch e tid) ws m0 = Inr m"
    and "cur < n" "val \<noteq> UINT64_MAX"
  shows "md_next_thread val cur m = Inr None"
proof -
  have "md_idle n m0" using md_new_wf [of n] assms(1,3) by (auto simp: md_idle_def)
  with assms(2) have "md_idle n m"
    by (rule rfold_inv) (auto intro: md_first_write_idle)
  then show ?thesis using md_idle_next_thread [OF _ assms(3) _ assms(4)] by (simp add: md_idle_def)
qed

theorem Mindicator_never_starts_witness:
  "\<exists>m0 m. md_new 2 = Inr m0 \<and> rfold (\<lambda>(e, tid). md_first_write_on_new_epoch e tid) [(3, 0), (4, 1)] m0 = Inr m
    \<and> md_next_thread 3 0 m = Inr None"
proof -
  obtain m0 where m0: "md_new 2 = Inr m0" "md_idle 2 m0" using md_new_wf [of 2] by (auto simp: md_idle_def)
  obtain m1 where m1: "md_first_write_on_new_epoch 3 0 m0 = Inr m1"
    using md_first_write_total [of 2 m0 0 3] m0(2) by (auto simp: md_idle_def)
  obtain m where "md_first_write_on_new_epoch 4 1 m1 = Inr m"
    using md_first_write_total [of 2 m1 1 4] md_first_write_idle [OF m0(2) m1] by (auto simp: md_idle_def)
  with m1 have "rfold (\<lambda>(e, tid). md_first_write_on_new_epoch e tid) [(3, 0), (4, 1)] m0 = Inr m" by simp
  with m0(1) Mindicator_never_starts [OF m0(1) this, of 0 3] show ?thesis by (auto simp: UINT64_MAX_def)
qed

end
