(* ===== verification/To_Be_Persisted.thy ===== *)
theory To_Be_Persisted
  imports PerThread_Containers NVM_Model
begin

text \<open>
  \<^verbatim>\<open>src/persist/ToBePersistedContainers.hpp\<close> and \<^verbatim>\<open>ToBePersistedContainers.cpp\<close>: the containers
  that remember which blocks have to be written back for which epoch.  \<^verbatim>\<open>tid\<close> is
  \<^verbatim>\<open>EpochSys::tid\<close>; \<^verbatim>\<open>descs_p[i]\<close> is modelled by whether it is set.
\<close>

section \<open>FixedContainer\<close>

datatype fixed_container = FCB "addr fcbc" | FHS hsc

fun fc_push :: "addr \<Rightarrow> nat \<Rightarrow> u64 \<Rightarrow> fixed_container \<Rightarrow> (addr list \<times> fixed_container) res" where
  "fc_push x tid c (FCB k) = rbind (fcbc_push x tid c k) (\<lambda>(xs, k'). Inr (xs, FCB k'))"
| "fc_push x tid c (FHS k) = rbind (hsc_push x tid c k) (\<lambda>(xs, k'). Inr (xs, FHS k'))"

fun fc_pop_all_local :: "nat \<Rightarrow> u64 \<Rightarrow> fixed_container \<Rightarrow> (addr list \<times> fixed_container) res" where
  "fc_pop_all_local tid c (FCB k) = rbind (fcbc_pop_all_local tid c k) (\<lambda>(xs, k'). Inr (xs, FCB k'))"
| "fc_pop_all_local tid c (FHS k) = rbind (hsc_pop_all_local tid c k) (\<lambda>(xs, k'). Inr (xs, FHS k'))"

fun fc_pop_all :: "u64 \<Rightarrow> fixed_container \<Rightarrow> (addr list \<times> fixed_container) res" where
  "fc_pop_all c (FCB k) = rbind (fcbc_pop_all c k) (\<lambda>(xs, k'). Inr (xs, FCB k'))"
| "fc_pop_all c (FHS k) = rbind (hsc_pop_all c k) (\<lambda>(xs, k'). Inr (xs, FHS k'))"

fun fc_clear :: "fixed_container \<Rightarrow> fixed_container" where
  "fc_clear (FCB k) = FCB (fcbc_clear k)"
| "fc_clear (FHS k) = FHS (hsc_clear k)"

fun fc_inv :: "nat \<Rightarrow> nat \<Rightarrow> fixed_container \<Rightarrow> bool" where
  "fc_inv n m (FCB k) = cells_inv fcb_budget n m k"
| "fc_inv n m (FHS k) = cells_inv (\<lambda>_ h. hs_payloads h \<noteq> []) n m k"

fun fc_held :: "fixed_container \<Rightarrow> nat \<Rightarrow> nat \<Rightarrow> addr set" where
  "fc_held (FCB k) = cells_entries (\<lambda>b. set (fcb_contents b)) k"
| "fc_held (FHS k) = cells_entries hs_entries k"

interpretation fc: epoch_container fc_push fc_pop_all_local fc_pop_all fc_inv fc_held "\<lambda>x. x \<noteq> 0"
proof (unfold_locales, goal_cases)
  case (1 n m k tid x c)
  then show ?case
  proof (cases k)
    case (FCB k0)
    then show ?thesis using 1 fcbi.cells.push_ok [of n m k0 tid x c]
      by (auto simp: fcbc_push_def)
  next
    case (FHS k0)
    then show ?thesis using 1 hsi.cells.push_ok [of n m k0 tid x c]
      by (auto simp: hsc_push_def)
  qed
next
  case (2 n m k tid c)
  then show ?case
  proof (cases k)
    case (FCB k0)
    then show ?thesis using 2 fcbi.cells.pop_local_ok [of n m k0 tid c]
      by (auto simp: fcbc_pop_all_local_def)
  next
    case (FHS k0)
    then show ?thesis using 2 hsi.cells.pop_local_ok [of n m k0 tid c]
      by (auto simp: hsc_pop_all_local_def)
  qed
next
  case (3 n m k c)
  then show ?case
  proof (cases k)
    case (FCB k0)
    then show ?thesis using 3 fcbi.cells.pop_ok [of n m k0 c] by (auto simp: fcbc_pop_all_def)
  next
    case (FHS k0)
    then show ?thesis using 3 hsi.cells.pop_ok [of n m k0 c] by (auto simp: hsc_pop_all_def)
  qed
next
  case (4 n m k t s)
  then show ?case
    by (cases k) (use fcbi.cells.held_range [of n m _ t s] hsi.cells.held_range [of n m _ t s] in auto)
next
  case (5 n m k)
  then show ?case using fcbi.cells.fewer hsi.cells.fewer by (cases k) auto
qed

section \<open>Entries\<close>

definition mark_raw :: "addr \<Rightarrow> addr" where
  "mark_raw p = p OR 1"

definition is_raw :: "addr \<Rightarrow> bool" where
  "is_raw p \<longleftrightarrow> p AND 1 = 1"

definition unmark_raw :: "addr \<Rightarrow> addr" where
  "unmark_raw p = p AND NOT 1"

definition do_persist :: "addr \<Rightarrow> 'v pmem \<Rightarrow> 'v pmem" where
  "do_persist a m = (if is_raw a then clwb (unmark_raw a) m else clwb_range a m)"

lemma mark_raw_inverse: "\<not> is_raw p \<Longrightarrow> is_raw (mark_raw p) \<and> unmark_raw (mark_raw p) = p \<and> mark_raw p \<noteq> 0"
proof -
  assume p: "\<not> is_raw p"
  have "bit (p AND 1) 0 = bit p 0" by (simp add: bit_simps)
  moreover have "p AND 1 = 0" using p by (simp add: is_raw_def and_one_eq)
  ultimately have p0: "\<not> bit p 0" by simp
  have r: "(p OR 1) AND 1 = 1" by (rule bit_eqI) (auto simp: bit_simps)
  have "(p OR 1) AND NOT 1 = p" using p0 by (intro bit_eqI) (auto simp: bit_simps bit_1_iff, metis gr0I)
  moreover have "p OR 1 \<noteq> 0"
  proof
    assume "p OR 1 = 0"
    then have "(0 :: addr) AND 1 = 1" using r by metis
    then show False by simp
  qed
  ultimately show ?thesis using r by (simp add: is_raw_def mark_raw_def unmark_raw_def)
qed

text \<open>An entry is done when what it asks to write back is in the image.\<close>

definition entry_done :: "addr \<Rightarrow> 'v pmem \<Rightarrow> bool" where
  "entry_done e m = (if is_raw e then hdr_persisted (unmark_raw e) m else persisted e m)"

lemma do_persist_view [simp]:
  "m_hdr (do_persist e m) = m_hdr m" "m_val (do_persist e m) = m_val m"
  "allocated (do_persist e m) = allocated m" "local_descs (do_persist e m) = local_descs m"
  by (simp_all add: do_persist_def)

lemma do_persist_done: "entry_done e (do_persist e m)"
  by (simp add: entry_done_def do_persist_def clwb_persists clwb_range_persists)

lemma do_persist_keeps: "entry_done e m \<Longrightarrow> entry_done e (do_persist d m)"
  by (auto simp: entry_done_def do_persist_def intro: persisted_clwb persisted_clwb_range
      hdr_persisted_clwb hdr_persisted_clwb_range)

definition do_persist_all :: "addr list \<Rightarrow> 'v pmem \<Rightarrow> 'v pmem" where
  "do_persist_all es m = fold do_persist es m"

lemma do_persist_all_view [simp]:
  "m_hdr (do_persist_all es m) = m_hdr m" "m_val (do_persist_all es m) = m_val m"
  "allocated (do_persist_all es m) = allocated m" "local_descs (do_persist_all es m) = local_descs m"
  unfolding do_persist_all_def by (induction es arbitrary: m) simp_all

lemma do_persist_all_keeps: "entry_done e m \<Longrightarrow> entry_done e (do_persist_all es m)"
  unfolding do_persist_all_def by (induction es arbitrary: m) (simp_all add: do_persist_keeps)

lemma do_persist_all_done: "e \<in> set es \<Longrightarrow> entry_done e (do_persist_all es m)"
proof (induction es arbitrary: m)
  case (Cons d es)
  then show ?case
    using do_persist_all_keeps [OF do_persist_done [of d m], of es] by (auto simp: do_persist_all_def)
qed simp

section \<open>The containers\<close>

datatype tbp_kind = DirWB | BufferedWB fixed_container | NoToBePersist

record tbp =
  tbp_kind :: tbp_kind
  descs_p :: "bool list"
  desc_persist_indicators :: "bool list list"

definition tbp_base :: "nat \<Rightarrow> tbp_kind \<Rightarrow> tbp" where
  "tbp_base task_num k = \<lparr>tbp_kind = k, descs_p = replicate task_num False,
     desc_persist_indicators = replicate EPOCH_WINDOW (replicate task_num False)\<rparr>"

text \<open>The configuration variables \<^verbatim>\<open>BufferSize\<close> and \<^verbatim>\<open>Container\<close>, if set.\<close>

definition BufferedWB_new :: "nat \<Rightarrow> u64 option \<Rightarrow> string option \<Rightarrow> tbp res" where
  "BufferedWB_new task_num env_size env_container =
     (let buffer_size = (case env_size of Some n \<Rightarrow> n | None \<Rightarrow> 64) in
      case env_container of
        None \<Rightarrow> Inr (tbp_base task_num (BufferedWB (FCB (fcbc_new task_num buffer_size 0))))
      | Some e \<Rightarrow>
          if e = ''CircBuffer''
          then Inr (tbp_base task_num (BufferedWB (FCB (fcbc_new task_num buffer_size 0))))
          else if e = ''HashSet''
          then Inr (tbp_base task_num (BufferedWB (FHS (hsc_new task_num (unat buffer_size)))))
          else Inl (ErrExit ''unsupported container type by BufferedWB''))"

definition tbp_init_desc_local :: "nat \<Rightarrow> tbp \<Rightarrow> tbp" where
  "tbp_init_desc_local tid t =
     (if tbp_kind t = NoToBePersist then t else t\<lparr>descs_p := (descs_p t)[tid := True]\<rparr>)"

definition set_indicator :: "u64 \<Rightarrow> nat \<Rightarrow> bool \<Rightarrow> tbp \<Rightarrow> tbp" where
  "set_indicator c tid b t = t\<lparr>desc_persist_indicators :=
     (desc_persist_indicators t)[slot c := (desc_persist_indicators t ! slot c)[tid := b]]\<rparr>"

definition tbp_register_persist_desc_local :: "u64 \<Rightarrow> nat \<Rightarrow> tbp \<times> 'v pmem \<Rightarrow> tbp \<times> 'v pmem" where
  "tbp_register_persist_desc_local c tid = (\<lambda>(t, m).
     case tbp_kind t of
       NoToBePersist \<Rightarrow> (t, m)
     | DirWB \<Rightarrow> (t, clwb_desc tid m)
     | BufferedWB _ \<Rightarrow> (set_indicator c tid True t, m))"

definition tbp_do_persist_desc_local :: "u64 \<Rightarrow> nat \<Rightarrow> tbp \<times> 'v pmem \<Rightarrow> tbp \<times> 'v pmem" where
  "tbp_do_persist_desc_local c tid = (\<lambda>(t, m).
     if tbp_kind t \<noteq> NoToBePersist \<and> descs_p t ! tid
     then (set_indicator c tid False t, clwb_desc tid m) else (t, m))"

definition tbp_register_persist :: "addr \<Rightarrow> u64 \<Rightarrow> nat \<Rightarrow> tbp \<times> 'v pmem \<Rightarrow> (tbp \<times> 'v pmem) res" where
  "tbp_register_persist blk c tid = (\<lambda>(t, m).
     case tbp_kind t of
       NoToBePersist \<Rightarrow> Inr (t, m)
     | DirWB \<Rightarrow> rassert (blk \<noteq> 0) (Inr (t, clwb_range blk m))
     | BufferedWB k \<Rightarrow> rassert (blk \<noteq> 0)
         (if c = NULL_EPOCH then Inl (ErrExit ''registering persist of epoch NULL.'')
          else rbind (fc_push blk tid c k) (\<lambda>(es, k').
            Inr (t\<lparr>tbp_kind := BufferedWB k'\<rparr>, do_persist_all es m))))"

definition tbp_register_persist_raw :: "addr \<Rightarrow> u64 \<Rightarrow> nat \<Rightarrow> tbp \<times> 'v pmem \<Rightarrow> (tbp \<times> 'v pmem) res" where
  "tbp_register_persist_raw blk c tid = (\<lambda>(t, m).
     case tbp_kind t of
       NoToBePersist \<Rightarrow> Inr (t, m)
     | DirWB \<Rightarrow> Inr (t, clwb blk m)
     | BufferedWB k \<Rightarrow> rassert (blk \<noteq> 0)
         (if c = NULL_EPOCH then Inl (ErrExit ''registering persist of epoch NULL.'')
          else rbind (fc_push (mark_raw blk) tid c k) (\<lambda>(es, k').
            Inr (t\<lparr>tbp_kind := BufferedWB k'\<rparr>, do_persist_all es m))))"

definition tbp_persist_epoch :: "u64 \<Rightarrow> tbp \<times> 'v pmem \<Rightarrow> (tbp \<times> 'v pmem) res" where
  "tbp_persist_epoch c = (\<lambda>(t, m).
     case tbp_kind t of
       BufferedWB k \<Rightarrow> rbind (fc_pop_all c k) (\<lambda>(es, k').
         Inr (fold (tbp_do_persist_desc_local c) [0..<length (descs_p t)]
               (t\<lparr>tbp_kind := BufferedWB k'\<rparr>, do_persist_all es m)))
     | _ \<Rightarrow> Inr (t, m))"

definition tbp_persist_epoch_local :: "u64 \<Rightarrow> nat \<Rightarrow> tbp \<times> 'v pmem \<Rightarrow> (tbp \<times> 'v pmem) res" where
  "tbp_persist_epoch_local c tid = (\<lambda>(t, m).
     case tbp_kind t of
       BufferedWB k \<Rightarrow> rbind (fc_pop_all_local tid c k) (\<lambda>(es, k').
         Inr (tbp_do_persist_desc_local c tid (t\<lparr>tbp_kind := BufferedWB k'\<rparr>, do_persist_all es m)))
     | _ \<Rightarrow> Inr (t, m))"

definition tbp_clear :: "tbp \<Rightarrow> tbp" where
  "tbp_clear t = (case tbp_kind t of BufferedWB k \<Rightarrow> t\<lparr>tbp_kind := BufferedWB (fc_clear k)\<rparr> | _ \<Rightarrow> t)"

section \<open>Nothing registered is lost\<close>

definition tbp_inv :: "nat \<Rightarrow> nat \<Rightarrow> tbp \<Rightarrow> bool" where
  "tbp_inv n m t \<longleftrightarrow> (case tbp_kind t of BufferedWB k \<Rightarrow> fc_inv n m k | _ \<Rightarrow> True)"

definition tbp_held :: "tbp \<Rightarrow> nat \<Rightarrow> nat \<Rightarrow> addr set" where
  "tbp_held t s tid = (case tbp_kind t of BufferedWB k \<Rightarrow> fc_held k s tid | _ \<Rightarrow> {})"

text \<open>An entry is tracked when it is in the buffer or its write-back has happened.\<close>

definition tracked :: "addr \<Rightarrow> nat \<Rightarrow> nat \<Rightarrow> tbp \<times> 'v pmem \<Rightarrow> bool" where
  "tracked e s tid = (\<lambda>(t, m). e \<in> tbp_held t s tid \<or> entry_done e m)"

text \<open>What every operation of the container leaves alone.\<close>

definition same_view :: "'v pmem \<Rightarrow> 'v pmem \<Rightarrow> bool" where
  "same_view m m' \<longleftrightarrow> m_hdr m' = m_hdr m \<and> m_val m' = m_val m \<and> allocated m' = allocated m
     \<and> local_descs m' = local_descs m \<and> (\<forall>e. entry_done e m \<longrightarrow> entry_done e m')"

lemma same_view_refl [simp]: "same_view m m"
  by (simp add: same_view_def)

lemma same_view_trans: "same_view m m1 \<Longrightarrow> same_view m1 m2 \<Longrightarrow> same_view m m2"
  by (simp add: same_view_def)

lemma same_view_persist_all [simp]: "same_view m (do_persist_all es m)"
  by (simp add: same_view_def do_persist_all_keeps)

lemma same_view_clwb_range [simp]: "same_view m (clwb_range a m)"
  by (simp add: same_view_def entry_done_def persisted_clwb_range hdr_persisted_clwb_range)

lemma same_view_clwb [simp]: "same_view m (clwb a m)"
  by (simp add: same_view_def entry_done_def persisted_clwb hdr_persisted_clwb)

lemma entry_done_clwb_desc [simp]: "entry_done e (clwb_desc t m) = entry_done e m"
  by (simp add: entry_done_def persisted_def hdr_persisted_def)

lemma tbp_desc_local:
  assumes "tbp_do_persist_desc_local c tid (t, m) = (t', m')"
  shows "tbp_kind t' = tbp_kind t" "same_view m m'" "\<And>e. entry_done e m' = entry_done e m"
  using assms by (auto simp: tbp_do_persist_desc_local_def set_indicator_def same_view_def split: if_splits)

text \<open>Registering keeps everything tracked and tracks the new entry.\<close>

lemma buffered_push:
  assumes inv: "fc_inv n (Suc b) k" and tid: "tid < n" and x: "x \<noteq> 0"
  shows "\<exists>es k'. fc_push x tid c k = Inr (es, k') \<and> fc_inv n b k'
    \<and> (\<forall>e s u. e \<in> fc_held k s u \<or> e = x \<and> s = slot c \<and> u = tid \<longrightarrow>
         e \<in> fc_held k' s u \<or> entry_done e (do_persist_all es m))
    \<and> (\<forall>s u. fc_held k' s u \<subseteq> fc_held k s u \<union> (if s = slot c \<and> u = tid then {x} else {}))"
proof -
  obtain es k' where p: "fc_push x tid c k = Inr (es, k')" "fc_inv n b k'"
      "set es \<union> fc_held k' (slot c) tid = insert x (fc_held k (slot c) tid)"
      "\<forall>s u. (s, u) \<noteq> (slot c, tid) \<longrightarrow> fc_held k' s u = fc_held k s u"
    using fc.push_ok [OF inv tid, of x c] x by blast
  have "e \<in> fc_held k' s u \<or> entry_done e (do_persist_all es m)"
    if "e \<in> fc_held k s u \<or> e = x \<and> s = slot c \<and> u = tid" for e s u
    using that p(3,4) do_persist_all_done [of e es m] by (cases "(s, u) = (slot c, tid)") auto
  moreover have "fc_held k' s u \<subseteq> fc_held k s u \<union> (if s = slot c \<and> u = tid then {x} else {})" for s u
    using p(3,4) by (cases "(s, u) = (slot c, tid)") auto
  ultimately show ?thesis using p(1,2) by blast
qed

definition reg_ok :: "nat \<Rightarrow> nat \<Rightarrow> addr \<Rightarrow> u64 \<Rightarrow> nat \<Rightarrow> tbp \<times> 'v pmem \<Rightarrow> tbp \<times> 'v pmem \<Rightarrow> bool" where
  "reg_ok n b x c tid st st' \<longleftrightarrow>
     tbp_inv n b (fst st') \<and> same_view (snd st) (snd st')
     \<and> (tbp_kind (fst st) = NoToBePersist \<longleftrightarrow> tbp_kind (fst st') = NoToBePersist)
     \<and> (\<forall>e s u. tracked e s u st \<longrightarrow> tracked e s u st')
     \<and> (tbp_kind (fst st) \<noteq> NoToBePersist \<longrightarrow> tracked x (slot c) tid st')
     \<and> (\<forall>s u. tbp_held (fst st') s u \<subseteq> tbp_held (fst st) s u \<union> (if s = slot c \<and> u = tid then {x} else {}))"

lemma reg_okI_buffered:
  assumes k: "tbp_kind t = BufferedWB k" and inv: "fc_inv n (Suc b) k" and tid: "tid < n" and x: "x \<noteq> 0"
  shows "\<exists>es k'. fc_push x tid c k = Inr (es, k')
           \<and> reg_ok n b x c tid (t, m) (t\<lparr>tbp_kind := BufferedWB k'\<rparr>, do_persist_all es m)"
proof -
  obtain es k' where p: "fc_push x tid c k = Inr (es, k')" "fc_inv n b k'"
      "\<forall>e s u. e \<in> fc_held k s u \<or> e = x \<and> s = slot c \<and> u = tid \<longrightarrow>
         e \<in> fc_held k' s u \<or> entry_done e (do_persist_all es m)"
      "\<forall>s u. fc_held k' s u \<subseteq> fc_held k s u \<union> (if s = slot c \<and> u = tid then {x} else {})"
    using buffered_push [OF inv tid x, of c m] by blast
  have "tracked e s u (t\<lparr>tbp_kind := BufferedWB k'\<rparr>, do_persist_all es m)" if "tracked e s u (t, m)" for e s u
    using that p(3) k do_persist_all_keeps [of e m es] by (auto simp: tracked_def tbp_held_def)
  moreover have "tracked x (slot c) tid (t\<lparr>tbp_kind := BufferedWB k'\<rparr>, do_persist_all es m)"
    using p(3) by (auto simp: tracked_def tbp_held_def)
  ultimately show ?thesis using p(1,2,4) k by (auto simp: reg_ok_def tbp_inv_def tbp_held_def)
qed

lemma tbp_register_persist_ok:
  assumes inv: "tbp_inv n (Suc b) (fst st)" and tid: "tid < n" and a: "blk \<noteq> 0" "\<not> is_raw blk" and c: "c \<noteq> NULL_EPOCH"
  shows "\<exists>st'. tbp_register_persist blk c tid st = Inr st' \<and> reg_ok n b blk c tid st st'"
proof -
  obtain t m where st: "st = (t, m)" by (cases st)
  show ?thesis
  proof (cases "tbp_kind t")
    case DirWB
    have "tracked e s u (t, clwb_range blk m)" if "tracked e s u (t, m)" for e s u
      using that same_view_clwb_range [of m blk] by (auto simp: tracked_def same_view_def)
    moreover have "entry_done blk (clwb_range blk m)"
      using a by (simp add: entry_done_def clwb_range_persists)
    ultimately show ?thesis using DirWB a
      by (auto simp: st tbp_register_persist_def reg_ok_def tbp_inv_def tracked_def tbp_held_def)
  next
    case (BufferedWB k)
    then obtain es k' where "fc_push blk tid c k = Inr (es, k')"
        "reg_ok n b blk c tid (t, m) (t\<lparr>tbp_kind := BufferedWB k'\<rparr>, do_persist_all es m)"
      using reg_okI_buffered [OF BufferedWB _ tid a(1), of b c m] inv by (auto simp: st tbp_inv_def)
    then show ?thesis using BufferedWB a c by (simp add: st tbp_register_persist_def)
  next
    case NoToBePersist
    then show ?thesis
      by (simp add: st tbp_register_persist_def reg_ok_def tbp_inv_def tbp_held_def)
  qed
qed

lemma tbp_register_persist_raw_ok:
  assumes inv: "tbp_inv n (Suc b) (fst st)" and tid: "tid < n" and a: "blk \<noteq> 0" "\<not> is_raw blk" and c: "c \<noteq> NULL_EPOCH"
  shows "\<exists>st'. tbp_register_persist_raw blk c tid st = Inr st' \<and> reg_ok n b (mark_raw blk) c tid st st'"
proof -
  obtain t m where st: "st = (t, m)" by (cases st)
  have r: "is_raw (mark_raw blk)" "unmark_raw (mark_raw blk) = blk" "mark_raw blk \<noteq> 0"
    using mark_raw_inverse [OF a(2)] by auto
  show ?thesis
  proof (cases "tbp_kind t")
    case DirWB
    have "tracked e s u (t, clwb blk m)" if "tracked e s u (t, m)" for e s u
      using that same_view_clwb [of m blk] by (auto simp: tracked_def same_view_def)
    moreover have "entry_done (mark_raw blk) (clwb blk m)"
      using r by (simp add: entry_done_def clwb_persists)
    ultimately show ?thesis using DirWB a
      by (auto simp: st tbp_register_persist_raw_def reg_ok_def tbp_inv_def tracked_def tbp_held_def)
  next
    case (BufferedWB k)
    then obtain es k' where "fc_push (mark_raw blk) tid c k = Inr (es, k')"
        "reg_ok n b (mark_raw blk) c tid (t, m) (t\<lparr>tbp_kind := BufferedWB k'\<rparr>, do_persist_all es m)"
      using reg_okI_buffered [OF BufferedWB _ tid r(3), of b c m] inv by (auto simp: st tbp_inv_def)
    then show ?thesis using BufferedWB a c by (simp add: st tbp_register_persist_raw_def)
  next
    case NoToBePersist
    then show ?thesis
      by (simp add: st tbp_register_persist_raw_def reg_ok_def tbp_inv_def tbp_held_def)
  qed
qed

text \<open>
  Writing back the epoch of a thread: every entry of that buffer is done, and nothing else is lost.
\<close>

lemma tbp_persist_epoch_local_ok:
  assumes inv: "tbp_inv n b (fst st)" and tid: "tid < n"
  shows "\<exists>st'. tbp_persist_epoch_local c tid st = Inr st' \<and> tbp_inv n b (fst st')
    \<and> same_view (snd st) (snd st')
    \<and> (\<forall>e \<in> tbp_held (fst st) (slot c) tid. entry_done e (snd st'))
    \<and> (\<forall>e s u. tracked e s u st \<longrightarrow> tracked e s u st')
    \<and> (\<forall>s u. tbp_held (fst st') s u \<subseteq> tbp_held (fst st) s u)"
proof -
  obtain t m where st: "st = (t, m)" by (cases st)
  show ?thesis
  proof (cases "tbp_kind t")
    case (BufferedWB k)
    obtain es k' where p: "fc_pop_all_local tid c k = Inr (es, k')" "fc_inv n b k'"
        "set es = fc_held k (slot c) tid" "fc_held k' (slot c) tid \<subseteq> fc_held k (slot c) tid"
        "\<forall>s u. (s, u) \<noteq> (slot c, tid) \<longrightarrow> fc_held k' s u = fc_held k s u"
      using fc.pop_local_ok [of n b k tid c] inv tid BufferedWB by (auto simp: st tbp_inv_def)
    let ?t = "t\<lparr>tbp_kind := BufferedWB k'\<rparr>" and ?m = "do_persist_all es m"
    obtain t' m' where d: "tbp_do_persist_desc_local c tid (?t, ?m) = (t', m')" by fastforce
    note dl = tbp_desc_local [OF d]
    have sub: "tbp_held t' s u \<subseteq> tbp_held t s u" for s u
      using p(4,5) BufferedWB dl(1) by (cases "(s, u) = (slot c, tid)") (auto simp: tbp_held_def)
    have dn: "entry_done e m'" if "e \<in> tbp_held t (slot c) tid" for e
      using that BufferedWB p(3) do_persist_all_done [of e es m] dl(3) by (simp add: tbp_held_def)
    have view: "same_view m m'" using same_view_trans [OF same_view_persist_all dl(2)] .
    have "tracked e s u (t', m')" if tr: "tracked e s u (t, m)" for e s u
    proof (cases "entry_done e m")
      case True
      then show ?thesis using view by (simp add: tracked_def same_view_def)
    next
      case False
      then have h: "e \<in> tbp_held t s u" using tr by (simp add: tracked_def)
      show ?thesis
      proof (cases "(s, u) = (slot c, tid)")
        case True
        then show ?thesis using h dn by (simp add: tracked_def)
      next
        case False
        then show ?thesis using h p(5) BufferedWB dl(1) by (simp add: tracked_def tbp_held_def)
      qed
    qed
    moreover have "tbp_inv n b t'" using p(2) dl(1) by (simp add: tbp_inv_def)
    moreover have "tbp_persist_epoch_local c tid st = Inr (t', m')"
      using BufferedWB p(1) d by (simp add: st tbp_persist_epoch_local_def)
    ultimately show ?thesis using sub dn view by (simp add: st)
  qed (use inv in \<open>auto simp: st tbp_persist_epoch_local_def tbp_held_def\<close>)
qed

section \<open>Properties\<close>

lemma fc_new_inv:
  "cap \<noteq> 0 \<Longrightarrow> unat cap + m \<le> 2 ^ 64 \<Longrightarrow> fc_inv n m (FCB (fcbc_new n cap 0))"
  "cap \<noteq> 0 \<Longrightarrow> fc_inv n m (FHS (hsc_new n (unat cap)))"
proof -
  show "cap \<noteq> 0 \<Longrightarrow> unat cap + m \<le> 2 ^ 64 \<Longrightarrow> fc_inv n m (FCB (fcbc_new n cap 0))"
    using fcb_new_inv [of cap "0 :: addr"] by (simp add: cells_inv_def fcbc_new_def fcb_budget_def) (simp add: fcb_new_def)
  show "cap \<noteq> 0 \<Longrightarrow> fc_inv n m (FHS (hsc_new n (unat cap)))"
    by (simp add: cells_inv_def hsc_new_def hs_new_def unat_eq_0)
qed



text \<open>
  C20.  A block registered for write-back in an epoch is in the persistent image, header and contents,
  after the thread's entries of that epoch are persisted, under direct and under buffered
  write-back; the memory the program reads is unchanged by both steps, and nothing written back earlier
  is undone.
\<close>

theorem registered_block_persists:
  assumes "tbp_inv n (Suc b) t" "tbp_kind t \<noteq> NoToBePersist" "tid < n" "blk \<noteq> 0" "\<not> is_raw blk" "c \<noteq> NULL_EPOCH"
  shows "\<exists>st st'. tbp_register_persist blk c tid (t, m) = Inr st \<and> tbp_persist_epoch_local c tid st = Inr st'
    \<and> persisted blk (snd st') \<and> same_view m (snd st')"
proof -
  from tbp_register_persist_ok [of n b "(t, m)" tid blk c] assms obtain st where
    st: "tbp_register_persist blk c tid (t, m) = Inr st" "reg_ok n b blk c tid (t, m) st" by auto
  then have inv: "tbp_inv n b (fst st)" and tr: "tracked blk (slot c) tid st" and v: "same_view m (snd st)"
    using assms(2) by (simp_all add: reg_ok_def)
  from tbp_persist_epoch_local_ok [OF inv assms(3), of c] obtain st' where
    st': "tbp_persist_epoch_local c tid st = Inr st'" "same_view (snd st) (snd st')"
      "\<forall>e \<in> tbp_held (fst st) (slot c) tid. entry_done e (snd st')" by blast
  have "entry_done blk (snd st')"
    using tr st'(2,3) by (cases st) (auto simp: tracked_def same_view_def)
  then have "persisted blk (snd st')" using assms(5) by (simp add: entry_done_def)
  with st(1) st'(1) same_view_trans [OF v st'(2)] show ?thesis by blast
qed

theorem registered_block_persists_witness:
  "\<exists>st st'. tbp_register_persist 64 5 0 (tbp_base 1 (BufferedWB (FCB (fcbc_new 1 2 0))),
        (\<lparr>m_hdr = Map.empty, m_val = [64 \<mapsto> ()], n_hdr = Map.empty, n_val = Map.empty, allocated = {64},
          local_descs = [], n_descs = []\<rparr> :: unit pmem)) = Inr st
    \<and> tbp_persist_epoch_local 5 0 st = Inr st' \<and> persisted 64 (snd st')"
proof -
  have "tbp_inv 1 (Suc 0) (tbp_base 1 (BufferedWB (FCB (fcbc_new 1 2 0))))"
    using fc_new_inv(1) [of 2 "Suc 0" 1] by (simp add: tbp_inv_def tbp_base_def)
  moreover have "\<not> is_raw 64" by (simp add: is_raw_def)
  ultimately show ?thesis
    using registered_block_persists [of 1 0 "tbp_base 1 (BufferedWB (FCB (fcbc_new 1 2 0)))" 0 64 5
        "\<lparr>m_hdr = Map.empty, m_val = [64 \<mapsto> ()], n_hdr = Map.empty, n_val = Map.empty, allocated = {64},
          local_descs = [], n_descs = []\<rparr>"]
    by (auto simp: tbp_base_def)
qed

end
