(* ===== verification/To_Be_Freed.thy ===== *)
theory To_Be_Freed
  imports PerThread_Containers
begin

text \<open>
  \<^verbatim>\<open>src/persist/ToBeFreedContainers.hpp\<close> and \<^verbatim>\<open>ToBeFreedContainers.cpp\<close>: the containers that
  delay the reclamation of a block until the epoch in which it was retired is durable.
  \<^verbatim>\<open>del\<close> is \<^verbatim>\<open>EpochSys::delete_pblk\<close>, acting on a state of its own.
\<close>

datatype tbf = ThreadLocalFreed "addr vc" "u64 list" | PerEpochFreed "addr vc" | NoToBeFreed

type_synonym 's del = "addr \<Rightarrow> u64 \<Rightarrow> 's \<Rightarrow> 's res"

definition ThreadLocalFreed_new :: "nat \<Rightarrow> tbf" where
  "ThreadLocalFreed_new task_num = ThreadLocalFreed (vc_new task_num) (replicate task_num INIT_EPOCH)"

definition PerEpochFreed_new :: "nat \<Rightarrow> tbf" where
  "PerEpochFreed_new task_num = PerEpochFreed (vc_new task_num)"

definition free_all :: "'s del \<Rightarrow> u64 \<Rightarrow> addr list \<Rightarrow> 's \<Rightarrow> 's res" where
  "free_all del c xs s = rfold (\<lambda>x. del x c) xs s"

fun tbf_register_free :: "'s del \<Rightarrow> addr \<Rightarrow> u64 \<Rightarrow> nat \<Rightarrow> tbf \<times> 's \<Rightarrow> (tbf \<times> 's) res" where
  "tbf_register_free del blk c tid (ThreadLocalFreed k te, s) =
     rassert (blk \<noteq> 0) (rbind (vc_push blk tid c k) (\<lambda>k'. Inr (ThreadLocalFreed k' te, s)))"
| "tbf_register_free del blk c tid (PerEpochFreed k, s) =
     rassert (blk \<noteq> 0) (rbind (vc_push blk tid c k) (\<lambda>k'. Inr (PerEpochFreed k', s)))"
| "tbf_register_free del blk c tid (NoToBeFreed, s) =
     rassert (blk \<noteq> 0) (rbind (del blk c s) (\<lambda>s'. Inr (NoToBeFreed, s')))"

fun tbf_help_free :: "'s del \<Rightarrow> u64 \<Rightarrow> tbf \<times> 's \<Rightarrow> (tbf \<times> 's) res" where
  "tbf_help_free del c (PerEpochFreed k, s) =
     rbind (vc_pop_all c k) (\<lambda>(xs, k'). rbind (free_all del c xs s) (\<lambda>s'. Inr (PerEpochFreed k', s')))"
| "tbf_help_free del c (f, s) = Inr (f, s)"

fun tbf_help_free_local :: "'s del \<Rightarrow> u64 \<Rightarrow> nat \<Rightarrow> tbf \<times> 's \<Rightarrow> (tbf \<times> 's) res" where
  "tbf_help_free_local del c tid (ThreadLocalFreed k te, s) =
     rbind (vc_pop_all_local tid c k) (\<lambda>(xs, k'). rbind (free_all del c xs s) (\<lambda>s'. Inr (ThreadLocalFreed k' te, s')))"
| "tbf_help_free_local del c tid (PerEpochFreed k, s) =
     rbind (vc_pop_all_local tid c k) (\<lambda>(xs, k'). rbind (free_all del c xs s) (\<lambda>s'. Inr (PerEpochFreed k', s')))"
| "tbf_help_free_local del c tid (NoToBeFreed, s) = Inr (NoToBeFreed, s)"

fun tbf_free_on_new_epoch :: "'s del \<Rightarrow> u64 \<Rightarrow> nat \<Rightarrow> tbf \<times> 's \<Rightarrow> (tbf \<times> 's) res" where
  "tbf_free_on_new_epoch del c tid (ThreadLocalFreed k te, s) =
     rbind (rnth te tid) (\<lambda>last_epoch.
       if last_epoch = c then Inr (ThreadLocalFreed k te, s)
       else for_le (last_epoch - 1) (min (last_epoch + 1) (c - 2))
              (\<lambda>i. tbf_help_free_local del i tid) (ThreadLocalFreed k (te[tid := c]), s))"
| "tbf_free_on_new_epoch del c tid (f, s) = Inr (f, s)"

fun tbf_clear :: "tbf \<Rightarrow> tbf" where
  "tbf_clear (ThreadLocalFreed k te) = ThreadLocalFreed (vc_clear k) te"
| "tbf_clear (PerEpochFreed k) = PerEpochFreed (vc_clear k)"
| "tbf_clear NoToBeFreed = NoToBeFreed"

section \<open>What is freed when a thread enters a new epoch\<close>

text \<open>The bucket of a thread for an epoch, and the containers of \<^term>\<open>n\<close> threads.\<close>

definition bucket :: "addr vc \<Rightarrow> nat \<Rightarrow> u64 \<Rightarrow> addr list" where
  "bucket k tid e = k ! slot e ! tid"

definition vc_wf :: "nat \<Rightarrow> 'a vc \<Rightarrow> bool" where
  "vc_wf n k \<longleftrightarrow> length k = EPOCH_WINDOW \<and> (\<forall>s < EPOCH_WINDOW. length (k ! s) = n)"

definition drop_bucket :: "nat \<Rightarrow> u64 \<Rightarrow> addr vc \<Rightarrow> addr vc" where
  "drop_bucket tid e k = k[slot e := (k ! slot e)[tid := []]]"

lemma vc_new_wf: "vc_wf n (vc_new n)"
  by (simp add: vc_wf_def vc_new_def ptv_new_def)

lemma drop_bucket_wf: "vc_wf n k \<Longrightarrow> vc_wf n (drop_bucket tid e k)"
  by (auto simp: vc_wf_def drop_bucket_def nth_upd)

lemma bucket_drop:
  "vc_wf n k \<Longrightarrow> tid < n \<Longrightarrow> bucket (drop_bucket tid e k) u e' =
     (if slot e' = slot e \<and> u = tid then [] else bucket k u e')"
  by (auto simp: vc_wf_def drop_bucket_def bucket_def nth_upd)

lemma vc_pop_bucket:
  "vc_wf n k \<Longrightarrow> tid < n \<Longrightarrow> vc_pop_all_local tid e k = Inr (rev (bucket k tid e), drop_bucket tid e k)"
  by (simp add: vc_pop_all_local_def ptv_pop_all_local_def vc_wf_def bucket_def drop_bucket_def)

text \<open>
  Emptying the buckets of a list of epochs with different slots: the blocks deleted, each with the
  epoch whose bucket it was in, in order.
\<close>

definition freed_of :: "nat \<Rightarrow> u64 list \<Rightarrow> addr vc \<Rightarrow> (addr \<times> u64) list" where
  "freed_of tid es k = concat (map (\<lambda>e. map (\<lambda>a. (a, e)) (rev (bucket k tid e))) es)"

lemma free_all_pairs: "free_all del e xs s = rfold (\<lambda>(a, i). del a i) (map (\<lambda>a. (a, e)) xs) s"
  unfolding free_all_def
proof (induction xs arbitrary: s)
  case (Cons x xs)
  then show ?case by (cases "del x e s") simp_all
qed simp

lemma help_free_loop:
  assumes "vc_wf n k" and "tid < n" and "distinct (map slot es)"
  shows "rfold (\<lambda>i. tbf_help_free_local del i tid) es (ThreadLocalFreed k te, s)
       = rbind (rfold (\<lambda>(a, i). del a i) (freed_of tid es k) s)
           (\<lambda>s'. Inr (ThreadLocalFreed (fold (drop_bucket tid) es k) te, s'))"
  using assms
proof (induction es arbitrary: k s)
  case Nil
  then show ?case by (simp add: freed_of_def)
next
  case (Cons e es)
  let ?k = "drop_bucket tid e k"
  have wf: "vc_wf n ?k" using Cons.prems(1) by (rule drop_bucket_wf)
  have "freed_of tid es ?k = freed_of tid es k"
  proof -
    have "bucket ?k tid e' = bucket k tid e'" if "e' \<in> set es" for e'
      using imageI [OF that, of slot] bucket_drop [OF Cons.prems(1,2), of e tid e'] Cons.prems(3) by auto
    then show ?thesis by (simp add: freed_of_def cong: map_cong)
  qed
  moreover have "freed_of tid (e # es) k = map (\<lambda>a. (a, e)) (rev (bucket k tid e)) @ freed_of tid es k"
    by (simp add: freed_of_def)
  ultimately show ?case
    using Cons.IH [OF wf Cons.prems(2)] Cons.prems vc_pop_bucket [OF Cons.prems(1,2), of e]
    by (cases "free_all del e (rev (bucket k tid e)) s")
       (simp_all add: rfold_append free_all_pairs)
qed

text \<open>A thread that was last in epoch \<^term>\<open>le\<close> has blocks in three buckets at most.\<close>

definition window_ok :: "nat \<Rightarrow> u64 \<Rightarrow> addr vc \<Rightarrow> bool" where
  "window_ok tid le k \<longleftrightarrow>
     (\<forall>e. slot e \<notin> {slot (le - 1), slot le, slot (le + 1)} \<longrightarrow> bucket k tid e = [])"

text \<open>The epochs the loop visits.\<close>

lemma window_epochs:
  assumes "3 \<le> unat le" and "unat le < unat c" and "unat c < 2 ^ 64 - 1"
  shows "words_from_to (le - 1) (min (le + 1) (c - 2)) =
     (if unat c = unat le + 1 then [le - 1]
      else if unat c = unat le + 2 then [le - 1, le] else [le - 1, le, le + 1])"
proof -
  have l1: "unat (le - 1) = unat le - 1" and l2: "unat (le + 1) = unat le + 1"
    and c2: "unat (c - 2) = unat c - 2"
    using assms unat_sub_num [of 1 le] unat_add_num [of le 1] unat_sub_num [of 2 c] by auto
  have up: "le - 1 + 1 = le" by simp
  consider "unat c = unat le + 1" | "unat c = unat le + 2" | "unat le + 3 \<le> unat c"
    using assms by linarith
  then show ?thesis
  proof cases
    case 1
    then have "min (le + 1) (c - 2) = le - 1"
      using l1 l2 c2 assms by (simp add: word_unat_eq_iff word_le_nat_alt min_def)
    then show ?thesis using 1 by (simp add: words_from_to.simps [of "le - 1"])
  next
    case 2
    then have "min (le + 1) (c - 2) = le"
      using l1 l2 c2 assms by (simp add: word_unat_eq_iff word_le_nat_alt min_def)
    moreover have "le - 1 < le" using l1 assms by (simp add: word_less_nat_alt)
    ultimately show ?thesis
      using 2 by (simp add: words_from_to.simps [of "le - 1"] words_from_to.simps [of le])
  next
    case 3
    then have "min (le + 1) (c - 2) = le + 1"
      using l1 l2 c2 assms by (simp add: word_unat_eq_iff word_le_nat_alt min_def)
    moreover have "le - 1 < le + 1" "le < le + 1" using l1 l2 assms by (simp_all add: word_less_nat_alt)
    ultimately show ?thesis
      using 3 by (simp add: words_from_to.simps [of "le - 1"] words_from_to.simps [of le]
          words_from_to.simps [of "le + 1"])
  qed
qed

lemma window_slots:
  assumes "3 \<le> unat le" and "unat le < 2 ^ 64 - 1"
  shows "distinct [slot (le - 1), slot le, slot (le + 1)]"
proof -
  have l: "unat (le - 1) = unat le - 1" "unat (le + 1) = unat le + 1"
    using assms unat_sub_num [of 1 le] unat_add_num [of le 1] by auto
  have "le - 1 \<noteq> le" "le - 1 \<noteq> le + 1" "le \<noteq> le + 1" using assms by (auto simp: word_unat_eq_iff l)
  moreover have "unat (le - 1) < unat le + 4" "unat (le - 1) < unat (le + 1) + 4"
      "unat le < unat (le - 1) + 4" "unat (le + 1) < unat (le - 1) + 4" "unat (le + 1) < unat le + 4"
      "unat le < unat (le + 1) + 4"
    using assms by (simp_all add: l)
  ultimately have "slot (le - 1) \<noteq> slot le" "slot (le - 1) \<noteq> slot (le + 1)" "slot le \<noteq> slot (le + 1)"
    using slot_eq_close by blast+
  then show ?thesis by simp
qed

lemma fold_drop_bucket:
  assumes "vc_wf n k" and "tid < n"
  shows "vc_wf n (fold (drop_bucket tid) es k) \<and> bucket (fold (drop_bucket tid) es k) u e =
     (if u = tid \<and> slot e \<in> slot ` set es then [] else bucket k u e)"
  using assms
proof (induction es arbitrary: k)
  case (Cons d es)
  then show ?case
    using drop_bucket_wf [OF Cons.prems(1), of tid d] bucket_drop [OF Cons.prems(1,2), of d u e] by auto
qed simp

text \<open>
  On entering epoch \<^term>\<open>c\<close> exactly the blocks in the buckets of epochs up to \<^term>\<open>c - 2\<close> are
  deleted, and what is left of this thread's blocks is in the buckets around \<^term>\<open>c\<close>.
\<close>

lemma free_on_new_epoch_spec:
  assumes wf: "vc_wf n k" and tid: "tid < n" and te: "tid < length te" "te ! tid = le"
    and le: "3 \<le> unat le" "unat le < unat c" and c: "unat c < 2 ^ 64 - 1"
    and win: "window_ok tid le k"
  defines "es \<equiv> words_from_to (le - 1) (min (le + 1) (c - 2))"
  shows "tbf_free_on_new_epoch del c tid (ThreadLocalFreed k te, s) =
      rbind (rfold (\<lambda>(a, i). del a i) (freed_of tid es k) s)
        (\<lambda>s'. Inr (ThreadLocalFreed (fold (drop_bucket tid) es k) (te[tid := c]), s'))"
    and "window_ok tid c (fold (drop_bucket tid) es k)"
    and "\<forall>e \<in> set es. e \<le> c - 2"
proof -
  note es = window_epochs [OF le c, folded es_def]
  note sl = window_slots [OF le(1)]
  have d: "distinct (map slot es)" using es sl le c by auto
  have c2: "unat (c - 2) = unat c - 2" using unat_sub_num [of 2 c] le by simp
  have "min (le + 1) (c - 2) \<noteq> UINT64_MAX"
  proof
    assume "min (le + 1) (c - 2) = UINT64_MAX"
    then have "c - 2 = UINT64_MAX" by (metis max_le_iff min.cobounded2)
    then show False using c2 unat_max c by simp
  qed
  then show "tbf_free_on_new_epoch del c tid (ThreadLocalFreed k te, s) =
      rbind (rfold (\<lambda>(a, i). del a i) (freed_of tid es k) s)
        (\<lambda>s'. Inr (ThreadLocalFreed (fold (drop_bucket tid) es k) (te[tid := c]), s'))"
    using te le help_free_loop [OF wf tid d, of del "te[tid := c]" s] by (auto simp: for_le_def es_def)
  show "window_ok tid c (fold (drop_bucket tid) es k)"
    unfolding window_ok_def
  proof (intro allI impI)
    fix e assume e: "slot e \<notin> {slot (c - 1), slot c, slot (c + 1)}"
    have "slot e \<in> slot ` set es \<or> slot e \<notin> {slot (le - 1), slot le, slot (le + 1)}"
    proof (cases "unat c = unat le + 1 \<or> unat c = unat le + 2")
      case True
      have "c = le + 1 \<or> c = le + 2"
        using True unat_add_num [of le 1] unat_add_num [of le 2] c by (auto simp: word_unat_eq_iff)
      then have "c - 1 = le \<and> c = le + 1 \<and> es = [le - 1] \<or> c - 1 = le + 1 \<and> es = [le - 1, le]"
        using True es le c unat_add_num [of le 1] unat_add_num [of le 2] by (auto simp: algebra_simps)
      then show ?thesis using e by (elim disjE conjE) (simp_all only: list.set image_insert image_empty insert_iff, blast+)
    qed (use es in auto)
    then show "bucket (fold (drop_bucket tid) es k) tid e = []"
      using fold_drop_bucket [OF wf tid, of es tid e] win by (auto simp: window_ok_def)
  qed
  show "\<forall>e \<in> set es. e \<le> c - 2" by (simp add: es_def set_words_from_to)
qed

section \<open>Properties\<close>



end
