(* ===== verification/Epoch_Sys.thy ===== *)
theory Epoch_Sys
  imports Transaction_Trackers Mindicator_Tracker To_Be_Persisted To_Be_Freed
begin

text \<open>
  \<^verbatim>\<open>EpochSys\<close> and \<^verbatim>\<open>nbEpochSys\<close> of \<^verbatim>\<open>src/persist/EpochSys.hpp\<close> and \<^verbatim>\<open>EpochSys.cpp\<close>, one
  operation at a time; \<^verbatim>\<open>tid\<close> is \<^verbatim>\<open>EpochSys::tid\<close>.  A loop that waits for other threads ends at
  once when its condition holds and is \<^verbatim>\<open>Diverges\<close> otherwise; how the waiting interleaves with other
  threads is the subject of \<^verbatim>\<open>Epoch_Protocol\<close>.  The allocator \<^verbatim>\<open>Ralloc\<close> is the field
  \<^verbatim>\<open>es_ral\<close>.
\<close>

section \<open>Configurable parts\<close>

datatype ttracker = TT_PerEpoch per_epoch | TT_Atomic atomic_tracker | TT_NoFence nofence_tracker | TT_No

fun tt_register_active :: "nat \<Rightarrow> u64 \<Rightarrow> u64 \<Rightarrow> u64 \<Rightarrow> ttracker \<Rightarrow> (bool \<times> ttracker) res" where
  "tt_register_active tid target c ge (TT_PerEpoch t) =
     rbind (pe_consistent_set tid target c ge t) (\<lambda>(r, t'). Inr (r, TT_PerEpoch t'))"
| "tt_register_active tid target c ge (TT_Atomic t) =
     (case at_register_active target c ge t of (r, t') \<Rightarrow> Inr (r, TT_Atomic t'))"
| "tt_register_active tid target c ge (TT_NoFence t) =
     rbind (nf_register_active tid target c ge t) (\<lambda>(r, t'). Inr (r, TT_NoFence t'))"
| "tt_register_active tid target c ge TT_No = Inr (True, TT_No)"

fun tt_unregister_active :: "nat \<Rightarrow> u64 \<Rightarrow> ttracker \<Rightarrow> ttracker res" where
  "tt_unregister_active tid target (TT_PerEpoch t) = rbind (pe_unregister tid target t) (\<lambda>t'. Inr (TT_PerEpoch t'))"
| "tt_unregister_active tid target (TT_Atomic t) = Inr (TT_Atomic (at_unregister_active target t))"
| "tt_unregister_active tid target (TT_NoFence t) = rbind (nf_unregister_active tid target t) (\<lambda>t'. Inr (TT_NoFence t'))"
| "tt_unregister_active tid target TT_No = Inr TT_No"

fun tt_no_active :: "u64 \<Rightarrow> ttracker \<Rightarrow> bool" where
  "tt_no_active target (TT_PerEpoch t) = pe_no_active target t"
| "tt_no_active target (TT_Atomic t) = at_no_active target t"
| "tt_no_active target (TT_NoFence t) = nf_no_active target t"
| "tt_no_active target TT_No = True"

datatype ptracker = PT_Inc imind | PT_Min mindicator

fun pt_first_write_on_new_epoch :: "u64 \<Rightarrow> nat \<Rightarrow> ptracker \<Rightarrow> ptracker res" where
  "pt_first_write_on_new_epoch e tid (PT_Inc t) = Inr (PT_Inc (im_first_write_on_new_epoch e tid t))"
| "pt_first_write_on_new_epoch e tid (PT_Min t) = rbind (md_first_write_on_new_epoch e tid t) (\<lambda>t'. Inr (PT_Min t'))"

fun pt_after_persist_epoch :: "u64 \<Rightarrow> nat \<Rightarrow> ptracker \<Rightarrow> ptracker res" where
  "pt_after_persist_epoch e tid (PT_Inc t) = rbind (im_after_persist_epoch e tid t) (\<lambda>t'. Inr (PT_Inc t'))"
| "pt_after_persist_epoch e tid (PT_Min t) = rbind (md_after_persist_epoch e tid t) (\<lambda>t'. Inr (PT_Min t'))"

fun pt_next_thread :: "u64 \<Rightarrow> nat \<Rightarrow> ptracker \<Rightarrow> nat option res" where
  "pt_next_thread val cur (PT_Inc t) = im_next_thread val cur t"
| "pt_next_thread val cur (PT_Min t) = md_next_thread val cur t"

fun pt_next_epoch_to_persist :: "nat \<Rightarrow> ptracker \<Rightarrow> u64 res" where
  "pt_next_epoch_to_persist tid (PT_Inc t) = im_next_epoch_to_persist tid t"
| "pt_next_epoch_to_persist tid (PT_Min t) = md_next_epoch_to_persist tid t"

fun pt_lag :: "nat \<Rightarrow> ptracker \<Rightarrow> u64" where
  "pt_lag i (PT_Inc t) = im_lag i t"
| "pt_lag i (PT_Min t) = md_lag i t"

fun pt_wf :: "nat \<Rightarrow> ptracker \<Rightarrow> bool" where
  "pt_wf n (PT_Inc t) = im_wf n t"
| "pt_wf n (PT_Min t) = md_wf n t"

interpretation ptt: persist_tracker pt_next_thread pt_after_persist_epoch pt_lag pt_wf
proof (unfold_locales, goal_cases)
  case (1 n t cur val)
  then show ?case by (cases t) (use imt.nxt_total mdt.nxt_total in auto)
next
  case (2 n t val cur i)
  then show ?case
    by (cases t) (use imt.nxt_lags [of n _ val cur i] mdt.nxt_lags [of n _ val cur i] in auto)
next
  case (3 n t i val)
  show ?case
  proof (cases t)
    case (PT_Inc u)
    then obtain u' where "im_after_persist_epoch val i u = Inr u'" "im_wf n u'" "val < im_lag i u'"
        "\<forall>j < n. j \<noteq> i \<longrightarrow> im_lag j u' = im_lag j u"
      using imt.aft_law [of n u i val] 3 by auto
    then show ?thesis using PT_Inc by simp
  next
    case (PT_Min u)
    then obtain u' where "md_after_persist_epoch val i u = Inr u'" "md_wf n u'" "val < md_lag i u'"
        "\<forall>j < n. j \<noteq> i \<longrightarrow> md_lag j u' = md_lag j u"
      using mdt.aft_law [of n u i val] 3 by auto
    then show ?thesis using PT_Min by simp
  qed
qed

section \<open>State\<close>

datatype sysmode = ONLINE | RECOVER

record 'v esys =
  es_global_epoch :: u64
  es_mem :: "'v pmem"
  es_uid :: uidgen
  es_trans :: ttracker
  es_tbp :: tbp
  es_tbf :: tbf
  es_ptrack :: ptracker
  es_target :: u64
  es_task_num :: nat
  es_last_epochs :: "u64 list"
  es_mode :: sysmode
  es_ral :: "addr set \<Rightarrow> addr"

definition on_mem :: "('v pmem \<Rightarrow> 'v pmem) \<Rightarrow> 'v esys \<Rightarrow> 'v esys" where
  "on_mem f s = s\<lparr>es_mem := f (es_mem s)\<rparr>"

definition on_tbp :: "(tbp \<times> 'v pmem \<Rightarrow> (tbp \<times> 'v pmem) res) \<Rightarrow> 'v esys \<Rightarrow> 'v esys res" where
  "on_tbp f s = rbind (f (es_tbp s, es_mem s)) (\<lambda>(t, m). Inr (s\<lparr>es_tbp := t, es_mem := m\<rparr>))"

definition on_tbf :: "(tbf \<times> 'v esys \<Rightarrow> (tbf \<times> 'v esys) res) \<Rightarrow> 'v esys \<Rightarrow> 'v esys res" where
  "on_tbf f s = rbind (f (es_tbf s, s)) (\<lambda>(t, s'). Inr (s'\<lparr>es_tbf := t\<rparr>))"

definition block :: "addr \<Rightarrow> 'v esys \<Rightarrow> phdr res" where
  "block a s = hdr a (es_mem s)"

definition update_block :: "addr \<Rightarrow> phdr \<Rightarrow> 'v esys \<Rightarrow> 'v esys" where
  "update_block a b s = on_mem (set_hdr a b) s"

definition check_epoch :: "u64 \<Rightarrow> 'v esys \<Rightarrow> bool" where
  "check_epoch c s \<longleftrightarrow> c = es_global_epoch s"

definition get_epoch :: "'v esys \<Rightarrow> u64" where
  "get_epoch s = es_global_epoch s"

definition set_epoch :: "u64 \<Rightarrow> 'v esys \<Rightarrow> 'v esys" where
  "set_epoch c s = s\<lparr>es_global_epoch := c\<rparr>"

text \<open>A failed compare-exchange stores the current value in \<^verbatim>\<open>expected\<close>.\<close>

definition epoch_CAS :: "u64 \<Rightarrow> u64 \<Rightarrow> 'v esys \<Rightarrow> bool \<times> u64 \<times> 'v esys" where
  "epoch_CAS expected desired s =
     (if es_global_epoch s = expected then (True, expected, set_epoch desired s)
      else (False, es_global_epoch s, s))"

section \<open>Blocks\<close>

text \<open>\<^verbatim>\<open>new_pblk\<close> with the header the constructor sets, and the value if it sets one.\<close>

definition new_pblk :: "phdr \<Rightarrow> 'v option \<Rightarrow> 'v esys \<Rightarrow> addr \<times> 'v esys" where
  "new_pblk b v s = (case ral_new (es_ral s) b v (es_mem s) of (a, m) \<Rightarrow> (a, s\<lparr>es_mem := m\<rparr>))"

definition delete_pblk :: "nat \<Rightarrow> addr \<Rightarrow> u64 \<Rightarrow> 'v esys \<Rightarrow> 'v esys res" where
  "delete_pblk tid a c s =
     rbind (block a s) (\<lambda>b.
       let s1 = on_mem (ral_deallocate a) (update_block a (PBlk_destroy b) s) in
       if es_mode s = ONLINE \<and> c \<noteq> NULL_EPOCH
       then if tid \<ge> es_task_num s then Inr (on_mem (clwb a) s1)
            else on_tbp (tbp_register_persist_raw a c tid) s1
       else Inr s1)"

definition register_free :: "nat \<Rightarrow> addr \<Rightarrow> u64 \<Rightarrow> 'v esys \<Rightarrow> 'v esys res" where
  "register_free tid a c = on_tbf (tbf_register_free (delete_pblk tid) a c tid)"

definition validate_access :: "addr \<Rightarrow> u64 \<Rightarrow> 'v esys \<Rightarrow> unit res" where
  "validate_access a c s =
     (if c = NULL_EPOCH then Inl (ErrExit ''access with NULL_EPOCH. BEGIN_OP not called?'')
      else rbind (block a s) (\<lambda>b. if pb_epoch b > c then Inl OldSeeNewException else Inr ()))"

text \<open>
  \<^verbatim>\<open>register_alloc_pblk\<close>; for \<^verbatim>\<open>nbEpochSys\<close> (\<^term>\<open>nb\<close>) it first tags the block with the serial
  number of the operation.  The recursion into \<^verbatim>\<open>get_data()\<close> has fuel; one turn is enough, since
  \<^verbatim>\<open>get_data()\<close> is always null.
\<close>

fun register_alloc_fuel :: "nat \<Rightarrow> bool \<Rightarrow> nat \<Rightarrow> addr \<Rightarrow> u64 \<Rightarrow> 'v esys \<Rightarrow> 'v esys res" where
  "register_alloc_fuel 0 nb tid a c s = Inl Diverges"
| "register_alloc_fuel (Suc fuel) nb tid a c s =
     rbind (block a s) (\<lambda>b0.
     rbind (if nb then rbind (rnth (local_descs (es_mem s)) tid) (\<lambda>d.
                        rbind (set_tid_sn (of_nat tid) (get_sn (d_tid_sn d))) (\<lambda>w.
                          Inr (b0\<lparr>pb_tid_sn := w\<rparr>)))
            else Inr b0) (\<lambda>b1.
     rassert (c \<noteq> NULL_EPOCH) (
     let b2 = b1\<lparr>pb_epoch := c\<rparr> in
     rassert (pb_blktype b2 = INIT \<or> pb_blktype b2 = OWNED) (
     let b3 = (if pb_blktype b2 = INIT then b2\<lparr>pb_blktype := ALLOC\<rparr> else b2) in
     rbind (if pb_id b3 = 0
            then rbind (uid_get_id tid (es_uid s)) (\<lambda>(i, g). Inr (b3\<lparr>pb_id := i\<rparr>, s\<lparr>es_uid := g\<rparr>))
            else Inr (b3, s)) (\<lambda>(b4, s1).
     rbind (on_tbp (tbp_register_persist a c tid) (update_block a b4 s1)) (\<lambda>s2.
       if get_data b4 \<noteq> 0 then register_alloc_fuel fuel nb tid (get_data b4) c s2 else Inr s2))))))"

definition register_alloc_pblk :: "nat \<Rightarrow> addr \<Rightarrow> u64 \<Rightarrow> 'v esys \<Rightarrow> 'v esys res" where
  "register_alloc_pblk = register_alloc_fuel 1 False"

definition nb_register_alloc_pblk :: "nat \<Rightarrow> addr \<Rightarrow> u64 \<Rightarrow> 'v esys \<Rightarrow> 'v esys res" where
  "nb_register_alloc_pblk = register_alloc_fuel 1 True"

definition reset_alloc_pblk :: "nat \<Rightarrow> addr \<Rightarrow> u64 \<Rightarrow> 'v esys \<Rightarrow> 'v esys res" where
  "reset_alloc_pblk tid a c s =
     rbind (block a s) (\<lambda>b.
       rassert (pb_blktype b = ALLOC)
         (on_tbp (tbp_register_persist_raw a c tid)
           (update_block a (b\<lparr>pb_epoch := NULL_EPOCH, pb_blktype := INIT\<rparr>) s)))"

definition register_update_pblk :: "nat \<Rightarrow> addr \<Rightarrow> u64 \<Rightarrow> 'v esys \<Rightarrow> 'v esys res" where
  "register_update_pblk tid a c s =
     (if c = NULL_EPOCH then Inr s else on_tbp (tbp_register_persist a c tid) s)"

definition free_pblk :: "nat \<Rightarrow> addr \<Rightarrow> u64 \<Rightarrow> 'v esys \<Rightarrow> 'v esys res" where
  "free_pblk tid a c s =
     rbind (block a s) (\<lambda>b.
       if pb_epoch b = NULL_EPOCH then delete_pblk tid a c s
       else if pb_epoch b > c then Inl OldSeeNewException
       else if pb_epoch b = c
       then (if pb_blktype b = ALLOC then delete_pblk tid a c s
             else if pb_blktype b = UPDATE
             then register_free tid a c (update_block a (b\<lparr>pb_blktype := DELETE\<rparr>) s)
             else if pb_blktype b = DELETE then Inl (ErrExit ''double free error.'')
             else register_free tid a c s)
       else (case new_pblk ((PBlk_copy b)\<lparr>pb_blktype := DELETE, pb_epoch := c\<rparr>) None s of
              (del, s1) \<Rightarrow>
                rbind (on_tbp (tbp_register_persist del c tid) s1) (\<lambda>s2.
                rbind (register_free tid del (c + 1) s2) (register_free tid a c))))"

text \<open>\<^verbatim>\<open>EpochSys::retire_pblk\<close>; \<^verbatim>\<open>prepare_retire_pblk\<close> and \<^verbatim>\<open>withdraw_retire_pblk\<close> do nothing to the system.\<close>

definition retire_pblk :: "nat \<Rightarrow> addr \<Rightarrow> u64 \<Rightarrow> 'v esys \<Rightarrow> 'v esys res" where
  "retire_pblk tid a c s =
     rbind (block a s) (\<lambda>b.
       if pb_retire b \<noteq> 0
       then Inl (ErrExit ''double retire error, or this block was tentatively retired before recent crash.'')
       else if pb_epoch b > c then Inl OldSeeNewException
       else if pb_epoch b = c
       then (if pb_blktype b = ALLOC \<or> pb_blktype b = UPDATE
             then on_tbp (tbp_register_persist a c tid) (update_block a (b\<lparr>pb_blktype := DELETE\<rparr>) s)
             else Inl (ErrExit ''wrong type of PBlk to retire.''))
       else (case new_pblk ((PBlk_copy b)\<lparr>pb_blktype := DELETE, pb_epoch := c\<rparr>) None s of
              (anti, s1) \<Rightarrow>
                rbind (on_tbp (tbp_register_persist anti c tid) (update_block a (b\<lparr>pb_retire := anti\<rparr>) s1))
                  (on_tbp (tbp_register_persist a c tid))))"

definition nb_prepare_retire :: "nat \<Rightarrow> addr \<Rightarrow> u64 \<Rightarrow> 'v esys \<Rightarrow> (addr \<times> 'v esys) res" where
  "nb_prepare_retire tid a c s =
     rbind (block a s) (\<lambda>b.
       if pb_epoch b > c then Inl OldSeeNewException
       else rbind (rnth (local_descs (es_mem s)) tid) (\<lambda>d.
            rbind (set_tid_sn (of_nat tid) (get_sn (d_tid_sn d))) (\<lambda>w.
            case new_pblk ((PBlk_copy b)\<lparr>pb_blktype := DELETE, pb_epoch := c, pb_tid_sn := w\<rparr>) None s of
              (anti, s1) \<Rightarrow> rbind (on_tbp (tbp_register_persist anti c tid) s1) (\<lambda>s2. Inr (anti, s2)))))"

definition nb_withdraw_retire_pblk :: "nat \<Rightarrow> addr \<Rightarrow> u64 \<Rightarrow> 'v esys \<Rightarrow> 'v esys res" where
  "nb_withdraw_retire_pblk tid a c s = (if a \<noteq> 0 then delete_pblk tid a c s else Inr s)"

definition nb_retire_pblk :: "addr \<Rightarrow> u64 \<Rightarrow> addr \<Rightarrow> 'v esys \<Rightarrow> 'v esys res" where
  "nb_retire_pblk a c anti s =
     rbind (block a s) (\<lambda>b.
       if pb_retire b \<noteq> 0
       then Inl (ErrExit ''double retire error, or this block was tentatively retired before recent crash.'')
       else rassert (pb_epoch b \<le> c) (rassert (anti \<noteq> 0) (Inr (update_block a (b\<lparr>pb_retire := anti\<rparr>) s))))"

definition reclaim_pblk :: "nat \<Rightarrow> addr \<Rightarrow> u64 \<Rightarrow> 'v esys \<Rightarrow> 'v esys res" where
  "reclaim_pblk tid a c s =
     (if c = NULL_EPOCH then Inl (ErrExit ''reclaiming a block in NULL epoch'')
      else rbind (block a s) (\<lambda>b.
        if pb_epoch b > c then Inl (ErrExit ''reclaiming a block created in a newer epoch'')
        else if pb_retire b = 0
        then (if pb_blktype b \<noteq> DELETE then free_pblk tid a c s
              else if pb_epoch b < c - 1 then delete_pblk tid a c s
              else register_free tid a c s)
        else rbind (block (pb_retire b) s) (\<lambda>r.
          if pb_epoch r > c then Inl (ErrExit ''reclaiming a block retired in a newer epoch'')
          else if pb_epoch b < c - 1
          then rbind (register_free tid (pb_retire b) c s) (delete_pblk tid a c)
          else rbind (register_free tid (pb_retire b) (c + 1) s) (register_free tid a c))))"

definition openread_pblk :: "addr \<Rightarrow> u64 \<Rightarrow> 'v esys \<Rightarrow> addr res" where
  "openread_pblk a c s = rbind (validate_access a c s) (\<lambda>_. Inr a)"

text \<open>
  \<^verbatim>\<open>openwrite_pblk\<close>: a block of an older epoch is queued for reclamation and copied, with its value,
  into a new block of this epoch.
\<close>

definition openwrite_pblk :: "nat \<Rightarrow> addr \<Rightarrow> u64 \<Rightarrow> 'v esys \<Rightarrow> (addr \<times> 'v esys) res" where
  "openwrite_pblk tid a c s =
     rbind (validate_access a c s) (\<lambda>_.
     rbind (block a s) (\<lambda>b.
       if pb_epoch b < c
       then rbind (register_free tid a c s) (\<lambda>s1.
              rbind (block a s1) (\<lambda>b1.
                Inr (new_pblk ((PBlk_copy b1)\<lparr>pb_epoch := c, pb_blktype := UPDATE\<rparr>)
                       (m_val (es_mem s1) a) s1)))
       else Inr (a, s)))"

section \<open>Transactions\<close>

definition with_desc :: "nat \<Rightarrow> (sc_desc \<Rightarrow> sc_desc res) \<Rightarrow> 'v esys \<Rightarrow> 'v esys res" where
  "with_desc tid f s =
     rbind (rnth (local_descs (es_mem s)) tid) (\<lambda>d. rbind (f d) (\<lambda>d'.
       Inr (on_mem (\<lambda>m. m\<lparr>local_descs := (local_descs m)[tid := d']\<rparr>) s)))"

definition with_ptrack :: "(ptracker \<Rightarrow> ptracker res) \<Rightarrow> 'v esys \<Rightarrow> 'v esys res" where
  "with_ptrack f s = rbind (f (es_ptrack s)) (\<lambda>t. Inr (s\<lparr>es_ptrack := t\<rparr>))"

definition set_last_epoch :: "nat \<Rightarrow> u64 \<Rightarrow> 'v esys \<Rightarrow> 'v esys" where
  "set_last_epoch tid c s = s\<lparr>es_last_epochs := (es_last_epochs s)[tid := c]\<rparr>"

text \<open>The loop of \<^verbatim>\<open>begin_transaction\<close> that writes back past epochs.\<close>

fun persist_past :: "nat \<Rightarrow> u64 \<Rightarrow> nat \<Rightarrow> 'v esys \<Rightarrow> 'v esys res" where
  "persist_past 0 persist_until tid s = Inl Diverges"
| "persist_past (Suc fuel) persist_until tid s =
     rbind (pt_next_epoch_to_persist tid (es_ptrack s)) (\<lambda>to_persist.
       if to_persist = NULL_EPOCH \<or> to_persist > persist_until then Inr s
       else rbind (on_tbp (tbp_persist_epoch_local to_persist tid) s) (\<lambda>s1.
            rbind (with_ptrack (pt_after_persist_epoch to_persist tid) s1)
              (persist_past fuel persist_until tid)))"

definition register_active :: "nat \<Rightarrow> u64 \<Rightarrow> 'v esys \<Rightarrow> 'v esys res" where
  "register_active tid ret s =
     rbind (tt_register_active tid ret ret (es_global_epoch s) (es_trans s)) (\<lambda>(r, t).
       if r then Inr (s\<lparr>es_trans := t\<rparr>) else Inl Diverges)"

definition begin_transaction :: "nat \<Rightarrow> 'v esys \<Rightarrow> (u64 \<times> 'v esys) res" where
  "begin_transaction tid s =
     rbind (with_desc tid desc_reinit s) (\<lambda>s1.
     let ret = es_global_epoch s1 in
     rbind (register_active tid ret s1) (\<lambda>s2.
     rbind (rnth (es_last_epochs s2) tid) (\<lambda>last_epoch.
     rbind (if last_epoch \<noteq> ret
            then rbind (if last_epoch = ret - 1
                        then with_ptrack (pt_first_write_on_new_epoch ret tid) (set_last_epoch tid ret s2)
                        else Inr (set_last_epoch tid ret s2)) (\<lambda>s3.
                   let persist_until = min (es_target s3 - 2) (ret - 1) in
                   persist_past (Suc (Suc (unat persist_until))) persist_until tid s3)
            else Inr s2) (\<lambda>s4.
     rbind (on_tbf (tbf_free_on_new_epoch (delete_pblk tid) ret tid) s4) (\<lambda>s5.
     rbind (with_desc tid (\<lambda>d. Inr (set_up_epoch ret d)) s5) (\<lambda>s6. Inr (ret, s6)))))))"

definition end_transaction :: "nat \<Rightarrow> u64 \<Rightarrow> 'v esys \<Rightarrow> 'v esys res" where
  "end_transaction tid c s =
     rbind (tt_unregister_active tid c (es_trans s)) (\<lambda>t. Inr ((set_last_epoch tid c s)\<lparr>es_trans := t\<rparr>))"

definition begin_reclaim_transaction :: "nat \<Rightarrow> 'v esys \<Rightarrow> (u64 \<times> 'v esys) res" where
  "begin_reclaim_transaction tid s =
     (let ret = es_global_epoch s in
      rbind (register_active tid ret s) (\<lambda>s1.
      rbind (on_tbf (tbf_free_on_new_epoch (delete_pblk tid) ret tid) s1) (\<lambda>s2. Inr (ret, s2))))"

definition end_reclaim_transaction :: "nat \<Rightarrow> u64 \<Rightarrow> 'v esys \<Rightarrow> 'v esys res" where
  "end_reclaim_transaction tid c s =
     rbind (tt_unregister_active tid c (es_trans s)) (\<lambda>t. Inr ((set_last_epoch tid c s)\<lparr>es_trans := t\<rparr>))"

definition end_readonly_transaction :: "nat \<Rightarrow> u64 \<Rightarrow> 'v esys \<Rightarrow> 'v esys res" where
  "end_readonly_transaction tid c s =
     rbind (tt_unregister_active tid c (es_trans s)) (\<lambda>t. Inr (s\<lparr>es_trans := t\<rparr>))"

definition abort_transaction :: "nat \<Rightarrow> u64 \<Rightarrow> 'v esys \<Rightarrow> 'v esys res" where
  "abort_transaction tid c s =
     rbind (tt_unregister_active tid c (es_trans s)) (\<lambda>t. Inr (s\<lparr>es_trans := t\<rparr>))"

section \<open>The nonblocking system\<close>

definition nb_local_free :: "u64 \<Rightarrow> nat \<Rightarrow> 'v esys \<Rightarrow> 'v esys res" where
  "nb_local_free c tid s =
     rbind (rnth (es_last_epochs s) tid) (\<lambda>last_epoch.
       if last_epoch = c then Inr s
       else for_le (last_epoch - 1) (min (last_epoch + 1) (c - 2))
              (\<lambda>i. on_tbf (tbf_help_free_local (delete_pblk tid) i tid)) s)"

definition nb_local_persist :: "u64 \<Rightarrow> nat \<Rightarrow> 'v esys \<Rightarrow> 'v esys res" where
  "nb_local_persist c tid s =
     rbind (rnth (es_last_epochs s) tid) (\<lambda>last_epoch.
       if last_epoch = c then Inr s
       else rbind (with_ptrack (pt_first_write_on_new_epoch c tid) s) (\<lambda>s1.
            rbind (on_tbp (tbp_persist_epoch_local last_epoch tid) s1) (\<lambda>s2.
            rbind (pt_next_epoch_to_persist tid (es_ptrack s2)) (\<lambda>to_persist.
              if to_persist \<le> last_epoch
              then with_ptrack (pt_after_persist_epoch last_epoch tid) s2
              else Inr s2))))"

definition nb_begin_transaction :: "nat \<Rightarrow> 'v esys \<Rightarrow> (u64 \<times> 'v esys) res" where
  "nb_begin_transaction tid s =
     (let ret = es_global_epoch s in
      rbind (nb_local_persist ret tid s) (\<lambda>s1.
      rbind (with_desc tid desc_reinit s1) (\<lambda>s2.
      rbind (with_desc tid (\<lambda>d. Inr (set_up_epoch ret d)) s2) (\<lambda>s3.
      rbind (on_tbp (\<lambda>st. Inr (tbp_register_persist_desc_local ret tid st)) s3) (\<lambda>s4.
      rbind (nb_local_free ret tid s4) (\<lambda>s5. Inr (ret, s5)))))))"

definition nb_end_transaction :: "nat \<Rightarrow> u64 \<Rightarrow> 'v esys \<Rightarrow> 'v esys" where
  "nb_end_transaction tid c s = set_last_epoch tid c s"

definition nb_begin_reclaim_transaction :: "nat \<Rightarrow> 'v esys \<Rightarrow> (u64 \<times> 'v esys) res" where
  "nb_begin_reclaim_transaction tid s =
     (let ret = es_global_epoch s in
      rbind (nb_local_persist ret tid s) (\<lambda>s1.
      rbind (nb_local_free ret tid s1) (\<lambda>s2. Inr (ret, s2))))"

definition nb_end_reclaim_transaction :: "nat \<Rightarrow> u64 \<Rightarrow> 'v esys \<Rightarrow> 'v esys" where
  "nb_end_reclaim_transaction tid c s = set_last_epoch tid c s"

definition nb_end_readonly_transaction :: "nat \<Rightarrow> u64 \<Rightarrow> 'v esys \<Rightarrow> 'v esys" where
  "nb_end_readonly_transaction tid c s = set_last_epoch tid c s"

definition nb_abort_transaction :: "nat \<Rightarrow> u64 \<Rightarrow> 'v esys \<Rightarrow> 'v esys" where
  "nb_abort_transaction tid c s = set_last_epoch tid c s"

section \<open>Epoch boundaries\<close>

definition on_epoch_begin :: "nat \<Rightarrow> u64 \<Rightarrow> 'v esys \<Rightarrow> 'v esys res" where
  "on_epoch_begin tid c = on_tbf (tbf_help_free (delete_pblk tid) (c - 2))"

text \<open>
  The loop over the threads that lag behind; \<^verbatim>\<open>nbEpochSys\<close> first aborts the operation in progress.
  Each turn removes one lagging thread, so one turn more than there are threads is enough.
\<close>

fun persist_lagging :: "nat \<Rightarrow> bool \<Rightarrow> u64 \<Rightarrow> nat \<Rightarrow> 'v esys \<Rightarrow> 'v esys res" where
  "persist_lagging 0 nb e cur s = Inl Diverges"
| "persist_lagging (Suc fuel) nb e cur s =
     rbind (pt_next_thread e cur (es_ptrack s)) (\<lambda>r. case r of
         None \<Rightarrow> Inr s
       | Some i \<Rightarrow>
           rbind (if nb then with_desc i (\<lambda>d. Inr (try_abort e d)) s else Inr s) (\<lambda>s0.
           rbind (on_tbp (tbp_persist_epoch_local e i) s0) (\<lambda>s1.
           rbind (with_ptrack (pt_after_persist_epoch e i) s1) (persist_lagging fuel nb e i))))"

definition on_epoch_end :: "nat \<Rightarrow> u64 \<Rightarrow> 'v esys \<Rightarrow> 'v esys res" where
  "on_epoch_end tid c s =
     (if tt_no_active (c - 1) (es_trans s)
      then persist_lagging (Suc (es_task_num s)) False (c - 1) (tid mod es_task_num s) s
      else Inl Diverges)"

definition nb_on_epoch_end :: "nat \<Rightarrow> u64 \<Rightarrow> 'v esys \<Rightarrow> 'v esys res" where
  "nb_on_epoch_end tid c s = persist_lagging (Suc (es_task_num s)) True (c - 1) (tid mod es_task_num s) s"

end
