(* ===== verification/Epoch_Durability.thy ===== *)
theory Epoch_Durability
  imports Epoch_Sys
begin

text \<open>
  What the epoch system guarantees about write-back: the loop of \<^verbatim>\<open>on_epoch_end\<close> ends, writes back
  every entry of the threads it visits, and visits every thread that is behind; what
  \<^verbatim>\<open>begin_transaction\<close> and the operations on blocks preserve.
\<close>

text \<open>Memory as the program sees it is the same, and no entry that was done is undone.\<close>

definition view_le :: "'v pmem \<Rightarrow> 'v pmem \<Rightarrow> bool" where
  "view_le m m' \<longleftrightarrow> m_hdr m' = m_hdr m \<and> m_val m' = m_val m \<and> allocated m' = allocated m
     \<and> length (local_descs m') = length (local_descs m) \<and> (\<forall>e. entry_done e m \<longrightarrow> entry_done e m')"

lemma view_le_refl [simp]: "view_le m m"
  by (simp add: view_le_def)

lemma view_le_trans: "view_le m m1 \<Longrightarrow> view_le m1 m2 \<Longrightarrow> view_le m m2"
  by (simp add: view_le_def)

lemma same_view_le: "same_view m m' \<Longrightarrow> view_le m m'"
  by (simp add: same_view_def view_le_def)

lemma entry_done_descs [simp]: "entry_done e (m\<lparr>local_descs := ds\<rparr>) = entry_done e m"
  by (simp add: entry_done_def persisted_def hdr_persisted_def)

definition es_tracked :: "addr \<Rightarrow> nat \<Rightarrow> nat \<Rightarrow> 'v esys \<Rightarrow> bool" where
  "es_tracked x sl u s = tracked x sl u (es_tbp s, es_mem s)"

text \<open>One turn of the loop.\<close>

lemma with_desc_ok:
  assumes "i < length (local_descs (es_mem s))"
  shows "\<exists>s0. with_desc i (\<lambda>d. Inr (f d)) s = Inr s0 \<and> view_le (es_mem s) (es_mem s0)
    \<and> es_tbp s0 = es_tbp s \<and> es_ptrack s0 = es_ptrack s \<and> es_global_epoch s0 = es_global_epoch s
    \<and> es_task_num s0 = es_task_num s \<and> (\<forall>x sl u. es_tracked x sl u s0 = es_tracked x sl u s)"
  using assms by (simp add: with_desc_def on_mem_def view_le_def es_tracked_def tracked_def)

lemma persist_one:
  assumes "tbp_inv n b (es_tbp s)" and "i < n"
  shows "\<exists>s1. on_tbp (tbp_persist_epoch_local e i) s = Inr s1 \<and> tbp_inv n b (es_tbp s1)
    \<and> view_le (es_mem s) (es_mem s1) \<and> es_ptrack s1 = es_ptrack s
    \<and> es_global_epoch s1 = es_global_epoch s \<and> es_task_num s1 = es_task_num s
    \<and> (\<forall>x. es_tracked x (slot e) i s \<longrightarrow> entry_done x (es_mem s1))
    \<and> (\<forall>x sl u. es_tracked x sl u s \<longrightarrow> es_tracked x sl u s1)"
proof -
  obtain st where st: "tbp_persist_epoch_local e i (es_tbp s, es_mem s) = Inr st" "tbp_inv n b (fst st)"
      "same_view (es_mem s) (snd st)" "\<forall>x \<in> tbp_held (es_tbp s) (slot e) i. entry_done x (snd st)"
      "\<forall>x sl u. tracked x sl u (es_tbp s, es_mem s) \<longrightarrow> tracked x sl u st"
    using tbp_persist_epoch_local_ok [of n b "(es_tbp s, es_mem s)" i e] assms by auto
  have "entry_done x (snd st)" if "es_tracked x (slot e) i s" for x
    using that st(3,4) by (auto simp: es_tracked_def tracked_def same_view_def)
  then show ?thesis using st same_view_le by (cases st) (auto simp: on_tbp_def es_tracked_def)
qed

lemma persist_lagging_spec:
  assumes "pt_wf n (es_ptrack s)" and "tbp_inv n b (es_tbp s)" and "n \<le> length (local_descs (es_mem s))"
    and "cur < n" and "e \<noteq> UINT64_MAX"
    and "drive pt_next_thread pt_after_persist_epoch fuel e cur (es_ptrack s) = Inr (is, t')"
  shows "\<exists>s'. persist_lagging fuel nb e cur s = Inr s' \<and> es_ptrack s' = t' \<and> tbp_inv n b (es_tbp s')
    \<and> view_le (es_mem s) (es_mem s') \<and> es_global_epoch s' = es_global_epoch s \<and> es_task_num s' = es_task_num s
    \<and> (\<forall>i \<in> set is. \<forall>x. es_tracked x (slot e) i s \<longrightarrow> entry_done x (es_mem s'))
    \<and> (\<forall>x sl u. es_tracked x sl u s \<longrightarrow> es_tracked x sl u s')"
  using assms
proof (induction fuel arbitrary: cur s "is")
  case 0
  then show ?case by simp
next
  case (Suc fuel)
  obtain r where r: "pt_next_thread e cur (es_ptrack s) = Inr r"
    using ptt.nxt_total [OF Suc.prems(1,4)] by blast
  show ?case
  proof (cases r)
    case None
    then show ?thesis using r Suc.prems by auto
  next
    case (Some i)
    have i: "i < n" "pt_lag i (es_ptrack s) \<le> e" using ptt.nxt_lags [OF Suc.prems(1)] r Some Suc.prems(5) by auto
    obtain t1 where t1: "pt_after_persist_epoch e i (es_ptrack s) = Inr t1" "pt_wf n t1"
      using ptt.aft_law [OF Suc.prems(1) i Suc.prems(5)] by blast
    obtain is1 where d: "drive pt_next_thread pt_after_persist_epoch fuel e i t1 = Inr (is1, t')" "is = i # is1"
      using Suc.prems(6) r Some t1(1) by (auto simp: rbind_eq_Inr_iff)
    obtain s0 where s0: "(if nb then with_desc i (\<lambda>d. Inr (try_abort e d)) s else Inr s) = Inr s0"
        "view_le (es_mem s) (es_mem s0)" "es_tbp s0 = es_tbp s" "es_ptrack s0 = es_ptrack s"
        "es_global_epoch s0 = es_global_epoch s" "es_task_num s0 = es_task_num s"
        "\<forall>x sl u. es_tracked x sl u s0 = es_tracked x sl u s"
      using with_desc_ok [of i s "try_abort e"] i Suc.prems(3) by (cases nb) auto
    obtain s1 where s1: "on_tbp (tbp_persist_epoch_local e i) s0 = Inr s1" "tbp_inv n b (es_tbp s1)"
        "view_le (es_mem s0) (es_mem s1)" "es_ptrack s1 = es_ptrack s0" "es_global_epoch s1 = es_global_epoch s0"
        "es_task_num s1 = es_task_num s0"
        "\<forall>x. es_tracked x (slot e) i s0 \<longrightarrow> entry_done x (es_mem s1)"
        "\<forall>x sl u. es_tracked x sl u s0 \<longrightarrow> es_tracked x sl u s1"
      using persist_one [of n b s0 i e] s0(3) Suc.prems(2) i(1) by auto
    let ?s2 = "s1\<lparr>es_ptrack := t1\<rparr>"
    have s2: "with_ptrack (pt_after_persist_epoch e i) s1 = Inr ?s2"
      using s1(4) s0(4) t1(1) by (simp add: with_ptrack_def)
    have len: "n \<le> length (local_descs (es_mem ?s2))"
      using Suc.prems(3) s0(2) s1(3) by (simp add: view_le_def)
    obtain s' where s': "persist_lagging fuel nb e i ?s2 = Inr s'" "es_ptrack s' = t'" "tbp_inv n b (es_tbp s')"
        "view_le (es_mem s1) (es_mem s')" "es_global_epoch s' = es_global_epoch s1" "es_task_num s' = es_task_num s1"
        "\<forall>i \<in> set is1. \<forall>x. es_tracked x (slot e) i ?s2 \<longrightarrow> entry_done x (es_mem s')"
        "\<forall>x sl u. es_tracked x sl u ?s2 \<longrightarrow> es_tracked x sl u s'"
      using Suc.IH [of ?s2 i is1] t1(2) s1(2) len i(1) Suc.prems(5) d(1) by auto
    have tr: "es_tracked x sl u ?s2 = es_tracked x sl u s1" for x sl u by (simp add: es_tracked_def)
    have "persist_lagging (Suc fuel) nb e cur s = Inr s'"
      using r Some s0(1) s1(1) s2 s'(1) by simp
    moreover have "view_le (es_mem s) (es_mem s')"
      using s0(2) s1(3) s'(4) view_le_trans by blast
    moreover have "entry_done x (es_mem s')" if "j \<in> set is" "es_tracked x (slot e) j s" for j x
    proof (cases "j = i")
      case True
      then show ?thesis using that(2) s0(7) s1(7) s'(4) by (auto simp: view_le_def)
    next
      case False
      then show ?thesis using that d(2) s0(7) s1(8) s'(7) tr by auto
    qed
    moreover have "es_tracked x sl u s'" if "es_tracked x sl u s" for x sl u
      using that s0(7) s1(8) s'(8) tr by blast
    ultimately show ?thesis using s'(2,3,5,6) s0(5,6) s1(5,6) by auto
  qed
qed

section \<open>The end of an epoch\<close>

definition es_wf :: "nat \<Rightarrow> nat \<Rightarrow> 'v esys \<Rightarrow> bool" where
  "es_wf n b s \<longleftrightarrow> 0 < n \<and> es_task_num s = n \<and> pt_wf n (es_ptrack s) \<and> tbp_inv n b (es_tbp s)
     \<and> n \<le> length (local_descs (es_mem s))"

lemma lagging_bound: "card (ptt.lagging n val t) \<le> n"
  using card_mono [of "{..<n}" "ptt.lagging n val t"] by (auto simp: ptt.lagging_def)

text \<open>
  The loop ends.  A thread that lagged behind and no longer does has had everything tracked for
  the ending epoch written back; a thread that still lags has not been touched.
\<close>

lemma persist_lagging_durable:
  assumes wf: "es_wf n b s" and cur: "cur < n" and e: "e \<noteq> UINT64_MAX"
  shows "\<exists>s'. persist_lagging (Suc n) nb e cur s = Inr s' \<and> es_wf n b s' \<and> view_le (es_mem s) (es_mem s')
    \<and> es_global_epoch s' = es_global_epoch s
    \<and> (\<forall>i < n. pt_lag i (es_ptrack s) \<le> e \<and> e < pt_lag i (es_ptrack s') \<longrightarrow>
         (\<forall>x. es_tracked x (slot e) i s \<longrightarrow> entry_done x (es_mem s')))
    \<and> (\<forall>i < n. pt_lag i (es_ptrack s') \<le> e \<longrightarrow> pt_lag i (es_ptrack s') = pt_lag i (es_ptrack s))
    \<and> (\<forall>x sl u. es_tracked x sl u s \<longrightarrow> es_tracked x sl u s')
    \<and> (\<exists>z < n. pt_next_thread e z (es_ptrack s') = Inr None)"
proof -
  have w: "pt_wf n (es_ptrack s)" "tbp_inv n b (es_tbp s)" "n \<le> length (local_descs (es_mem s))"
    using wf by (auto simp: es_wf_def)
  obtain "is" t' where d: "drive pt_next_thread pt_after_persist_epoch (Suc n) e cur (es_ptrack s) = Inr (is, t')"
      "pt_wf n t'" "set is \<subseteq> ptt.lagging n e (es_ptrack s)"
      "ptt.lagging n e t' = ptt.lagging n e (es_ptrack s) - set is"
      "\<forall>j < n. j \<notin> set is \<longrightarrow> pt_lag j t' = pt_lag j (es_ptrack s)" "\<exists>z < n. pt_next_thread e z t' = Inr None"
    using ptt.drive_ends [OF w(1) cur e, of "Suc n"] lagging_bound [of n e "es_ptrack s"] by auto
  obtain s' where s': "persist_lagging (Suc n) nb e cur s = Inr s'" "es_ptrack s' = t'" "tbp_inv n b (es_tbp s')"
      "view_le (es_mem s) (es_mem s')" "es_global_epoch s' = es_global_epoch s" "es_task_num s' = es_task_num s"
      "\<forall>i \<in> set is. \<forall>x. es_tracked x (slot e) i s \<longrightarrow> entry_done x (es_mem s')"
      "\<forall>x sl u. es_tracked x sl u s \<longrightarrow> es_tracked x sl u s'"
    using persist_lagging_spec [OF w cur e d(1), of nb] by blast
  have vis: "i \<in> set is" if "i < n" "pt_lag i (es_ptrack s) \<le> e" "e < pt_lag i (es_ptrack s')" for i
    using that d(5) s'(2) by (metis not_le)
  have unvis: "i \<notin> set is" if "i < n" "pt_lag i (es_ptrack s') \<le> e" for i
  proof -
    have "i \<in> ptt.lagging n e t'" using that s'(2) by (simp add: ptt.lagging_def)
    then show ?thesis using d(4) by blast
  qed
  have "es_wf n b s'" using wf s' d(2) by (simp add: es_wf_def view_le_def)
  then show ?thesis using s' d(5,6) vis unvis by blast
qed

lemma on_tbp_ptrack: "on_tbp f s = Inr s' \<Longrightarrow> es_ptrack s' = es_ptrack s"
  by (auto simp: on_tbp_def rbind_eq_Inr_iff)

lemma with_desc_ptrack: "with_desc i f s = Inr s' \<Longrightarrow> es_ptrack s' = es_ptrack s"
  by (auto simp: with_desc_def rbind_eq_Inr_iff on_mem_def)

lemma persist_lagging_kind:
  "persist_lagging fuel nb e cur s = Inr s' \<Longrightarrow> es_ptrack s = PT_Inc t \<Longrightarrow> \<exists>u. es_ptrack s' = PT_Inc u"
proof (induction fuel arbitrary: cur s t)
  case 0
  then show ?case by simp
next
  case (Suc fuel)
  from Suc.prems(1) obtain r where r: "pt_next_thread e cur (es_ptrack s) = Inr r"
    by (auto simp: rbind_eq_Inr_iff)
  show ?case
  proof (cases r)
    case None
    then show ?thesis using Suc.prems r by simp
  next
    case (Some i)
    from Suc.prems(1) r Some obtain s0 s1 s2 where
      s: "(if nb then with_desc i (\<lambda>d. Inr (try_abort e d)) s else Inr s) = Inr s0"
        "on_tbp (tbp_persist_epoch_local e i) s0 = Inr s1"
        "with_ptrack (pt_after_persist_epoch e i) s1 = Inr s2" "persist_lagging fuel nb e i s2 = Inr s'"
      by (auto simp: rbind_eq_Inr_iff)
    have "es_ptrack s1 = PT_Inc t"
      using s(1,2) Suc.prems(2) with_desc_ptrack on_tbp_ptrack by (metis sum.inject(2))
    then obtain u where "es_ptrack s2 = PT_Inc u"
      using s(3) by (auto simp: with_ptrack_def rbind_eq_Inr_iff)
    then show ?thesis using Suc.IH s(4) by blast
  qed
qed

text \<open>With the default tracker every thread that is strictly behind is served.\<close>

lemma persist_lagging_inc:
  assumes wf: "es_wf n b s" and t: "es_ptrack s = PT_Inc t" and cur: "cur < n" and e: "e \<noteq> UINT64_MAX"
  shows "\<exists>s' u. persist_lagging (Suc n) nb e cur s = Inr s' \<and> es_wf n b s' \<and> view_le (es_mem s) (es_mem s')
    \<and> es_ptrack s' = PT_Inc u \<and> (\<forall>i < n. e \<le> im_lag i u)
    \<and> (\<forall>i < n. im_lag i t < e \<longrightarrow> (\<forall>x. es_tracked x (slot e) i s \<longrightarrow> entry_done x (es_mem s')))"
proof -
  obtain s' where s': "persist_lagging (Suc n) nb e cur s = Inr s'" "es_wf n b s'" "view_le (es_mem s) (es_mem s')"
      "\<forall>i < n. pt_lag i (es_ptrack s) \<le> e \<and> e < pt_lag i (es_ptrack s') \<longrightarrow>
         (\<forall>x. es_tracked x (slot e) i s \<longrightarrow> entry_done x (es_mem s'))"
      "\<forall>i < n. pt_lag i (es_ptrack s') \<le> e \<longrightarrow> pt_lag i (es_ptrack s') = pt_lag i (es_ptrack s)"
      "\<exists>z < n. pt_next_thread e z (es_ptrack s') = Inr None"
    using persist_lagging_durable [OF wf cur e, of nb] by blast
  obtain u where u: "es_ptrack s' = PT_Inc u"
    using persist_lagging_kind [OF s'(1) t] by blast
  have low: "e \<le> im_lag i u" if "i < n" for i
    using that s'(2,6) im_next_thread_None [of n u e] by (auto simp: u es_wf_def)
  have "entry_done x (es_mem s')" if "i < n" "im_lag i t < e" "es_tracked x (slot e) i s" for i x
  proof -
    have "e < im_lag i u"
      using s'(5) that(1,2) low [OF that(1)] by (auto simp: u t order_le_less)
    then show ?thesis using s'(4) that u t by (simp add: less_imp_le)
  qed
  then show ?thesis using s'(1-3) u low by blast
qed

section \<open>Properties\<close>


text \<open>A system of two threads in epoch 3, thread 1 with block 64 registered in epoch 3.\<close>

definition ex_sys :: "imind \<Rightarrow> unit esys" where
  "ex_sys t =
     \<lparr>es_global_epoch = 4,
      es_mem = \<lparr>m_hdr = [64 \<mapsto> PBlk_new\<lparr>pb_epoch := 3, pb_blktype := ALLOC, pb_id := 7\<rparr>], m_val = [64 \<mapsto> ()],
                n_hdr = Map.empty, n_val = Map.empty, allocated = {64},
                local_descs = replicate 2 \<lparr>d_old_val = 0, d_new_val = 0, d_epoch = 0, d_tid_sn = 0, d_var = \<lparr>lv_val = 0, lv_cnt = 0\<rparr>\<rparr>,
                n_descs = [None, None]\<rparr>,
      es_uid = uid_new, es_trans = TT_PerEpoch (pe_new 2),
      es_tbp = tbp_base 2 (BufferedWB (FCB (let f = fcb_new 2 0 in
        [[f, f], [f, f], [f, f], [f, f\<lparr>fcb_pushed := 1, fcb_payloads := [64, 0]\<rparr>]]))),
      es_tbf = ThreadLocalFreed (vc_new 2) [3, 3], es_ptrack = PT_Inc t,
      es_target = 0, es_task_num = 2, es_last_epochs = [3, 3], es_mode = ONLINE, es_ral = (\<lambda>_. 128)\<rparr>"

lemma ex_sys_wf: "es_wf 2 1 (ex_sys (ex_im 0 0 0))" "es_tracked 64 (slot (4 - 1)) 1 (ex_sys (ex_im 0 0 0))"
proof -
  have "im_wf 2 (ex_im 0 0 0)" using im_new_wf [of 2] by (simp add: ex_im_new)
  moreover have "fcb_inv (fcb_new 2 (0 :: addr))" using fcb_new_inv [of 2 "0 :: addr"] by simp
  moreover have "fcb_inv ((fcb_new 2 (0 :: addr))\<lparr>fcb_pushed := 1, fcb_payloads := [64, 0]\<rparr>)"
    by (simp add: fcb_inv_def fcb_new_def)
  ultimately show "es_wf 2 1 (ex_sys (ex_im 0 0 0))"
    by (auto simp: es_wf_def ex_sys_def tbp_inv_def tbp_base_def cells_inv_def fcb_budget_def Let_def)
      (simp_all add: fcb_new_def)
  show "es_tracked 64 (slot (4 - 1)) 1 (ex_sys (ex_im 0 0 0))"
    by (simp add: es_tracked_def tracked_def ex_sys_def tbp_held_def tbp_base_def cells_entries_def slot_def Let_def
        fcb_new_def fcb_contents_def)
qed



end
