(* ===== verification/Block_Ops.thy ===== *)
theory Block_Ops
  imports Epoch_Durability
begin

text \<open>
  What the operations of \<^verbatim>\<open>EpochSys\<close> on blocks do to memory and to the containers: a write to a block
  of an older epoch goes to a copy and leaves the old version, in memory and in the persistent image,
  for recovery; a retired block gets one delete node of the same identifier; new
  blocks and delete nodes are registered for write-back.
\<close>

section \<open>Allocation and delayed reclamation\<close>

text \<open>What the code relies on of \<^verbatim>\<open>Ralloc\<close>: the next address is free, not null and aligned.\<close>

definition ral_ok :: "'v esys \<Rightarrow> bool" where
  "ral_ok s \<longleftrightarrow> (let a = es_ral s (allocated (es_mem s)) in a \<notin> allocated (es_mem s) \<and> a \<noteq> 0 \<and> \<not> is_raw a)"

text \<open>The buckets of blocks that wait to be reclaimed, for the two containers that have them.\<close>

fun tbf_vc :: "tbf \<Rightarrow> addr vc option" where
  "tbf_vc (ThreadLocalFreed k te) = Some k"
| "tbf_vc (PerEpochFreed k) = Some k"
| "tbf_vc NoToBeFreed = None"

definition defers :: "nat \<Rightarrow> tbf \<Rightarrow> bool" where
  "defers n f \<longleftrightarrow> (case tbf_vc f of None \<Rightarrow> False | Some k \<Rightarrow> vc_wf n k)"

definition awaits_free :: "addr \<Rightarrow> nat \<Rightarrow> u64 \<Rightarrow> tbf \<Rightarrow> bool" where
  "awaits_free a tid c f \<longleftrightarrow> (case tbf_vc f of None \<Rightarrow> False | Some k \<Rightarrow> a \<in> set (bucket k tid c))"

lemma vc_push_bucket:
  assumes "vc_wf n k" "tid < n"
  shows "\<exists>k'. vc_push x tid c k = Inr k' \<and> vc_wf n k' \<and> x \<in> set (bucket k' tid c)
    \<and> (\<forall>u e. set (bucket k u e) \<subseteq> set (bucket k' u e))"
  using assms by (auto simp: vc_push_def ptv_push_def vc_wf_def bucket_def nth_upd)

lemma register_free_deferred:
  assumes "defers n (es_tbf s)" "tid < n" "a \<noteq> 0"
  shows "\<exists>f. register_free tid a c s = Inr (s\<lparr>es_tbf := f\<rparr>) \<and> defers n f \<and> awaits_free a tid c f
    \<and> (\<forall>x u e. awaits_free x u e (es_tbf s) \<longrightarrow> awaits_free x u e f)"
proof -
  obtain k where k: "tbf_vc (es_tbf s) = Some k" "vc_wf n k" using assms(1) by (auto simp: defers_def split: option.splits)
  from vc_push_bucket [OF k(2) assms(2), of a c] obtain k' where
    p: "vc_push a tid c k = Inr k'" "vc_wf n k'" "a \<in> set (bucket k' tid c)"
      "\<forall>u e. set (bucket k u e) \<subseteq> set (bucket k' u e)" by blast
  have "register_free tid a c s = Inr (s\<lparr>es_tbf := f\<rparr>)"
    if "tbf_register_free (delete_pblk tid) a c tid (es_tbf s, s) = Inr (f, s)" for f
    using that by (simp add: register_free_def on_tbf_def)
  moreover have "\<exists>f. tbf_register_free (delete_pblk tid) a c tid (es_tbf s, s) = Inr (f, s) \<and> tbf_vc f = Some k'"
    using k(1) p(1) assms(3) by (cases "es_tbf s") (simp_all add: rassert_def)
  ultimately obtain f where "register_free tid a c s = Inr (s\<lparr>es_tbf := f\<rparr>)" "tbf_vc f = Some k'" by blast
  then show ?thesis using k p by (intro exI [of _ f]) (auto simp: defers_def awaits_free_def)
qed

section \<open>Opening a block for writing\<close>

lemma new_pblk_mem:
  assumes "new_pblk b v s = (a, s')"
  shows "a = es_ral s (allocated (es_mem s))" "m_hdr (es_mem s') = (m_hdr (es_mem s))(a \<mapsto> b)"
    "m_val (es_mem s') = (case v of None \<Rightarrow> m_val (es_mem s) | Some x \<Rightarrow> (m_val (es_mem s))(a \<mapsto> x))"
    "n_hdr (es_mem s') = n_hdr (es_mem s)" "n_val (es_mem s') = n_val (es_mem s)"
    "allocated (es_mem s') = insert a (allocated (es_mem s))" "s' = s\<lparr>es_mem := es_mem s'\<rparr>"
    "local_descs (es_mem s') = local_descs (es_mem s)"
  using assms by (auto simp: new_pblk_def ral_new_def Let_def split: prod.splits)

lemma openwrite_new_version:
  assumes a: "m_hdr (es_mem s) a = Some b" "m_val (es_mem s) a = Some v" "a \<in> allocated (es_mem s)" "a \<noteq> 0"
    and e: "pb_epoch b < c" and s: "defers n (es_tbf s)" "tid < n" "ral_ok s"
  shows "\<exists>a' s' b'. openwrite_pblk tid a c s = Inr (a', s') \<and> a' \<notin> allocated (es_mem s) \<and> a' \<noteq> 0 \<and> \<not> is_raw a'
    \<and> m_hdr (es_mem s') a' = Some b' \<and> pb_id b' = pb_id b \<and> pb_epoch b' = c \<and> pb_blktype b' = UPDATE \<and> pb_retire b' = 0
    \<and> m_val (es_mem s') a' = Some v
    \<and> (\<forall>x. x \<noteq> a' \<longrightarrow> m_hdr (es_mem s') x = m_hdr (es_mem s) x \<and> m_val (es_mem s') x = m_val (es_mem s) x)
    \<and> n_hdr (es_mem s') = n_hdr (es_mem s) \<and> n_val (es_mem s') = n_val (es_mem s)
    \<and> awaits_free a tid c (es_tbf s') \<and> es_tbp s' = es_tbp s"
proof -
  have c: "c \<noteq> NULL_EPOCH" using e by auto
  obtain f where f: "register_free tid a c s = Inr (s\<lparr>es_tbf := f\<rparr>)" "awaits_free a tid c f"
    using register_free_deferred [OF s(1,2) a(4), of c] by blast
  let ?b' = "(PBlk_copy b)\<lparr>pb_epoch := c, pb_blktype := UPDATE\<rparr>"
  obtain a' s' where n: "new_pblk ?b' (Some v) (s\<lparr>es_tbf := f\<rparr>) = (a', s')" by fastforce
  note m = new_pblk_mem [OF n]
  have "openwrite_pblk tid a c s = Inr (a', s')"
    using a(1,2) c e f(1) n by (simp add: openwrite_pblk_def validate_access_def block_def hdr_def)
  moreover have "a' \<notin> allocated (es_mem s)" "a' \<noteq> 0" "\<not> is_raw a'"
    using m(1) s(3) by (simp_all add: ral_ok_def Let_def)
  moreover have "es_tbf s' = f" "es_tbp s' = es_tbp s" using n by (auto simp: new_pblk_def split: prod.splits)
  ultimately show ?thesis using m(2-5) f(2) by (intro exI [of _ a'] exI [of _ s'] exI [of _ ?b']) (simp add: PBlk_copy_def)
qed

section \<open>Registering, allocating and retiring\<close>

lemma on_tbp_register:
  assumes "tbp_inv n (Suc k) (es_tbp s)" "tid < n" "a \<noteq> 0" "\<not> is_raw a" "c \<noteq> NULL_EPOCH" "tbp_kind (es_tbp s) \<noteq> NoToBePersist"
  shows "\<exists>s'. on_tbp (tbp_register_persist a c tid) s = Inr s' \<and> same_view (es_mem s) (es_mem s')
    \<and> tbp_inv n k (es_tbp s') \<and> tbp_kind (es_tbp s') \<noteq> NoToBePersist \<and> es_tracked a (slot c) tid s'
    \<and> (\<forall>x sl u. es_tracked x sl u s \<longrightarrow> es_tracked x sl u s') \<and> es_tbf s' = es_tbf s \<and> es_ptrack s' = es_ptrack s"
proof -
  from tbp_register_persist_ok [of n k "(es_tbp s, es_mem s)" tid a c] assms obtain st where
    st: "tbp_register_persist a c tid (es_tbp s, es_mem s) = Inr st" "reg_ok n k a c tid (es_tbp s, es_mem s) st" by auto
  obtain t m where tm: "st = (t, m)" by (cases st)
  let ?s' = "s\<lparr>es_tbp := t, es_mem := m\<rparr>"
  have "on_tbp (tbp_register_persist a c tid) s = Inr ?s'" using st(1) tm by (simp add: on_tbp_def)
  then show ?thesis using st(2) assms(6) by (intro exI [of _ ?s']) (simp add: tm reg_ok_def es_tracked_def)
qed

lemma update_block_simps [simp]:
  "es_tbp (update_block a b s) = es_tbp s" "es_tbf (update_block a b s) = es_tbf s"
  "m_hdr (es_mem (update_block a b s)) = (m_hdr (es_mem s))(a \<mapsto> b)" "m_val (es_mem (update_block a b s)) = m_val (es_mem s)"
  "es_uid (update_block a b s) = es_uid s"
  by (simp_all add: update_block_def on_mem_def set_hdr_def)

text \<open>A block of an older epoch is retired by a delete node, once.\<close>

lemma retire_older:
  assumes a: "m_hdr (es_mem s) a = Some b" "a \<in> allocated (es_mem s)" "a \<noteq> 0" "\<not> is_raw a" "pb_retire b = 0"
    and e: "pb_epoch b < c" and s: "tbp_inv n (Suc (Suc k)) (es_tbp s)" "tbp_kind (es_tbp s) \<noteq> NoToBePersist" "tid < n" "ral_ok s"
  shows "\<exists>s' anti d. retire_pblk tid a c s = Inr s' \<and> anti \<notin> allocated (es_mem s) \<and> anti \<noteq> 0
    \<and> m_hdr (es_mem s') = (m_hdr (es_mem s))(anti \<mapsto> d, a \<mapsto> b\<lparr>pb_retire := anti\<rparr>)
    \<and> pb_blktype d = DELETE \<and> pb_id d = pb_id b \<and> pb_epoch d = c \<and> m_val (es_mem s') = m_val (es_mem s)
    \<and> tbp_inv n k (es_tbp s') \<and> es_tracked anti (slot c) tid s' \<and> es_tracked a (slot c) tid s'"
proof -
  have c: "c \<noteq> NULL_EPOCH" using e by auto
  let ?d = "(PBlk_copy b)\<lparr>pb_blktype := DELETE, pb_epoch := c\<rparr>"
  obtain anti s1 where n: "new_pblk ?d None s = (anti, s1)" by fastforce
  note m = new_pblk_mem [OF n]
  have anti: "anti \<notin> allocated (es_mem s)" "anti \<noteq> 0" "\<not> is_raw anti"
    using m(1) s(4) by (simp_all add: ral_ok_def Let_def)
  have tbp: "es_tbp s1 = es_tbp s" using n by (auto simp: new_pblk_def split: prod.splits)
  let ?s2 = "update_block a (b\<lparr>pb_retire := anti\<rparr>) s1"
  from on_tbp_register [of n "Suc k" ?s2 tid anti c] s(1-3) anti c tbp obtain s3 where
    s3: "on_tbp (tbp_register_persist anti c tid) ?s2 = Inr s3" "same_view (es_mem ?s2) (es_mem s3)"
      "tbp_inv n (Suc k) (es_tbp s3)" "tbp_kind (es_tbp s3) \<noteq> NoToBePersist" "es_tracked anti (slot c) tid s3" by auto
  from on_tbp_register [OF s3(3) s(3) a(3,4) c s3(4)] obtain s' where
    s': "on_tbp (tbp_register_persist a c tid) s3 = Inr s'" "same_view (es_mem s3) (es_mem s')"
      "tbp_inv n k (es_tbp s')" "es_tracked a (slot c) tid s'" "\<forall>x sl u. es_tracked x sl u s3 \<longrightarrow> es_tracked x sl u s'" by blast
  have "retire_pblk tid a c s = Inr s'"
    using a(1,5) order_less_imp_not_less [OF e] order_less_imp_not_eq [OF e] n s3(1) s'(1)
    by (simp add: retire_pblk_def block_def hdr_def)
  moreover have "m_hdr (es_mem s') = (m_hdr (es_mem s))(anti \<mapsto> ?d, a \<mapsto> b\<lparr>pb_retire := anti\<rparr>)"
    "m_val (es_mem s') = m_val (es_mem s)"
    using same_view_trans [OF s3(2) s'(2)] m(2,3) by (simp_all add: same_view_def)
  ultimately show ?thesis using anti s3(5) s'(3-5)
    by (intro exI [of _ s'] exI [of _ anti] exI [of _ ?d]) (simp add: PBlk_copy_def)
qed

text \<open>A new block gets the epoch, the type and an identifier of its own, and is registered.\<close>

lemma register_alloc_new:
  assumes a: "m_hdr (es_mem s) a = Some PBlk_new" "a \<noteq> 0" "\<not> is_raw a" and c: "c \<noteq> NULL_EPOCH"
    and s: "tbp_inv n (Suc k) (es_tbp s)" "tbp_kind (es_tbp s) \<noteq> NoToBePersist" "tid < n"
    and g: "uid_get_id tid (es_uid s) = Inr (i, g)"
  shows "\<exists>s'. register_alloc_pblk tid a c s = Inr s'
    \<and> m_hdr (es_mem s') = (m_hdr (es_mem s))(a \<mapsto> PBlk_new\<lparr>pb_epoch := c, pb_blktype := ALLOC, pb_id := i\<rparr>)
    \<and> m_val (es_mem s') = m_val (es_mem s) \<and> es_tracked a (slot c) tid s' \<and> tbp_inv n k (es_tbp s')"
proof -
  let ?s1 = "update_block a (PBlk_new\<lparr>pb_epoch := c, pb_blktype := ALLOC, pb_id := i\<rparr>) (s\<lparr>es_uid := g\<rparr>)"
  from on_tbp_register [of n k ?s1 tid a c] s a(2,3) c obtain s' where
    s': "on_tbp (tbp_register_persist a c tid) ?s1 = Inr s'" "same_view (es_mem ?s1) (es_mem s')"
      "tbp_inv n k (es_tbp s')" "es_tracked a (slot c) tid s'" by auto
  have "register_alloc_pblk tid a c s = Inr s'"
    using a(1) c g s'(1) by (simp add: register_alloc_pblk_def block_def hdr_def PBlk_new_def rassert_def Let_def)
  then show ?thesis using s'(2-4) by (simp add: same_view_def)
qed

section \<open>Properties\<close>


lemma ex_sys_block:
  "m_hdr (es_mem (ex_sys t)) 64 = Some (PBlk_new\<lparr>pb_epoch := 3, pb_blktype := ALLOC, pb_id := 7\<rparr>)"
  "m_val (es_mem (ex_sys t)) 64 = Some ()" "64 \<in> allocated (es_mem (ex_sys t))" "defers 2 (es_tbf (ex_sys t))" "ral_ok (ex_sys t)"
  using vc_new_wf [of 2] by (simp_all add: ex_sys_def defers_def ral_ok_def is_raw_def)


text \<open>
  C18.  Retiring a block of an older epoch makes exactly one delete node, of the same
  identifier and the current epoch, and links it from the block; both are registered for
  write-back in the current epoch, and a second attempt to retire the block is refused.
\<close>

theorem retire_once:
  assumes "m_hdr (es_mem s) a = Some b" "a \<in> allocated (es_mem s)" "a \<noteq> 0" "\<not> is_raw a" "pb_retire b = 0"
    and "pb_epoch b < c" and "tbp_inv n (Suc (Suc k)) (es_tbp s)" "tbp_kind (es_tbp s) \<noteq> NoToBePersist" "tid < n" "ral_ok s"
  shows "\<exists>s' anti d. retire_pblk tid a c s = Inr s' \<and> anti \<notin> allocated (es_mem s)
    \<and> m_hdr (es_mem s') = (m_hdr (es_mem s))(anti \<mapsto> d, a \<mapsto> b\<lparr>pb_retire := anti\<rparr>)
    \<and> pb_blktype d = DELETE \<and> pb_id d = pb_id b \<and> pb_epoch d = c \<and> m_val (es_mem s') = m_val (es_mem s)
    \<and> es_tracked anti (slot c) tid s' \<and> es_tracked a (slot c) tid s'
    \<and> (\<forall>c'. retire_pblk tid a c' s'
         = Inl (ErrExit ''double retire error, or this block was tentatively retired before recent crash.''))"
proof -
  from retire_older [OF assms] obtain s' anti d where
    r: "retire_pblk tid a c s = Inr s'" "anti \<notin> allocated (es_mem s)" "anti \<noteq> 0"
      "m_hdr (es_mem s') = (m_hdr (es_mem s))(anti \<mapsto> d, a \<mapsto> b\<lparr>pb_retire := anti\<rparr>)"
      "pb_blktype d = DELETE" "pb_id d = pb_id b" "pb_epoch d = c" "m_val (es_mem s') = m_val (es_mem s)"
      "es_tracked anti (slot c) tid s'" "es_tracked a (slot c) tid s'" by blast
  have "retire_pblk tid a c' s'
      = Inl (ErrExit ''double retire error, or this block was tentatively retired before recent crash.'')" for c'
    using r(3,4) by (simp add: retire_pblk_def block_def hdr_def)
  with r show ?thesis by blast
qed

theorem retire_once_witness:
  "\<exists>s' anti. retire_pblk 0 64 4 ((ex_sys (ex_im 0 0 0))\<lparr>es_tbp := tbp_base 2 DirWB\<rparr>) = Inr s' \<and> anti \<noteq> (64 :: addr)
     \<and> es_tracked anti (slot 4) 0 s' \<and> es_tracked 64 (slot 4) 0 s'"
proof -
  let ?s = "(ex_sys (ex_im 0 0 0))\<lparr>es_tbp := tbp_base 2 DirWB\<rparr>"
  have h: "m_hdr (es_mem ?s) 64 = Some (PBlk_new\<lparr>pb_epoch := 3, pb_blktype := ALLOC, pb_id := 7\<rparr>)"
      "64 \<in> allocated (es_mem ?s)" "ral_ok ?s" "tbp_inv 2 (Suc (Suc 0)) (es_tbp ?s)" "tbp_kind (es_tbp ?s) \<noteq> NoToBePersist"
    using ex_sys_block [of "ex_im 0 0 0"] by (simp_all add: tbp_inv_def tbp_base_def ral_ok_def)
  from retire_once [OF h(1,2) _ _ _ _ h(4,5) _ h(3), of 4 0] obtain s' :: "unit esys" and anti where
    w: "retire_pblk 0 64 4 ?s = Inr s'" "anti \<notin> allocated (es_mem ?s)" "es_tracked anti (slot 4) 0 s'" "es_tracked 64 (slot 4) 0 s'"
    by (auto simp: PBlk_new_def is_raw_def)
  then have "anti \<noteq> 64" using h(2) by metis
  with w show ?thesis by blast
qed

end
