(* ===== verification/Epoch_Advancers.thy ===== *)
theory Epoch_Advancers
  imports Block_Ops
begin

text \<open>
  \<^verbatim>\<open>src/persist/EpochAdvancers.hpp\<close> and \<^verbatim>\<open>EpochAdvancers.cpp\<close>: the thread that moves the epoch, and \<^verbatim>\<open>sync\<close>,
  by which a worker moves it itself.  \<^verbatim>\<open>target_epoch\<close> is the field \<^verbatim>\<open>es_target\<close> of the system.  Sleeping, binding
  to a processor and the messages are left out.  Where a loop runs beside other threads, what they do to
  the system between the end of an epoch and the compare-exchange is an argument.
\<close>

section \<open>The two epoch systems\<close>

datatype sys_kind = Blocking | Nonblocking

text \<open>\<^verbatim>\<open>nbEpochSys::on_epoch_begin\<close> does nothing.\<close>

fun es_on_epoch_begin :: "sys_kind \<Rightarrow> nat \<Rightarrow> u64 \<Rightarrow> 'v esys \<Rightarrow> 'v esys res" where
  "es_on_epoch_begin Blocking tid c s = on_epoch_begin tid c s"
| "es_on_epoch_begin Nonblocking tid c s = Inr s"

fun es_on_epoch_end :: "sys_kind \<Rightarrow> nat \<Rightarrow> u64 \<Rightarrow> 'v esys \<Rightarrow> 'v esys res" where
  "es_on_epoch_end Blocking tid c s = on_epoch_end tid c s"
| "es_on_epoch_end Nonblocking tid c s = nb_on_epoch_end tid c s"

section \<open>Configuration\<close>

text \<open>
  The length of an epoch in microseconds from the configuration variables \<^verbatim>\<open>EpochLength\<close>, which
  \<^verbatim>\<open>stoi\<close> reads, and \<^verbatim>\<open>EpochLengthUnit\<close>; the constructors of both advancers start alike.
\<close>

definition advancer_epoch_length :: "u64 option \<Rightarrow> string option \<Rightarrow> u64 res" where
  "advancer_epoch_length env_length env_unit =
     (let epoch_length = (case env_length of Some n \<Rightarrow> n | None \<Rightarrow> 100 * 1000) in
      case env_unit of
        None \<Rightarrow> Inr epoch_length
      | Some u \<Rightarrow>
          if u = ''Second'' then Inr (epoch_length * 1000000)
          else if u = ''Millisecond'' then Inr (epoch_length * 1000)
          else if u = ''Microsecond'' then Inr epoch_length
          else Inl (ErrExit ''time unit not supported.''))"

text \<open>\<^verbatim>\<open>DedicatedEpochAdvancer\<close> does not store an initial target, \<^verbatim>\<open>DedicatedEpochAdvancerNbSync\<close> does.\<close>

definition nbsync_init_target :: "'v esys \<Rightarrow> 'v esys" where
  "nbsync_init_target s = s\<lparr>es_target := INIT_EPOCH\<rparr>"

definition ongoing_target :: "'v esys \<Rightarrow> u64" where
  "ongoing_target s = es_target s"

section \<open>One turn of the advancer thread\<close>

text \<open>The compare-exchange on the target; its result is not used.\<close>

definition bump_target :: "u64 \<Rightarrow> 'v esys \<Rightarrow> 'v esys" where
  "bump_target curr_epoch s = (if es_target s = curr_epoch then s\<lparr>es_target := curr_epoch + 1\<rparr> else s)"

definition advancer_turn :: "sys_kind \<Rightarrow> nat \<Rightarrow> ('v esys \<Rightarrow> 'v esys) \<Rightarrow> u64 \<times> 'v esys \<Rightarrow> (u64 \<times> 'v esys) res" where
  "advancer_turn k tid other = (\<lambda>(curr_epoch, s).
     rbind (es_on_epoch_end k tid curr_epoch (bump_target curr_epoch s)) (\<lambda>s1.
     case epoch_CAS curr_epoch (curr_epoch + 1) (other s1) of (ok, curr_epoch', s2) \<Rightarrow>
       if ok then rbind (es_on_epoch_begin k tid (curr_epoch' + 1) s2) (\<lambda>s3. Inr (curr_epoch' + 1, s3))
       else Inr (curr_epoch', s2)))"

text \<open>\<^verbatim>\<open>DedicatedEpochAdvancerNbSync\<close> begins an epoch whether or not its compare-exchange succeeded.\<close>

definition nbsync_advancer_turn :: "sys_kind \<Rightarrow> nat \<Rightarrow> ('v esys \<Rightarrow> 'v esys) \<Rightarrow> u64 \<times> 'v esys \<Rightarrow> (u64 \<times> 'v esys) res" where
  "nbsync_advancer_turn k tid other = (\<lambda>(curr_epoch, s).
     rbind (es_on_epoch_end k tid curr_epoch (bump_target curr_epoch s)) (\<lambda>s1.
     case epoch_CAS curr_epoch (curr_epoch + 1) (other s1) of (ok, curr_epoch', s2) \<Rightarrow>
       let next_epoch = (if ok then curr_epoch' + 1 else curr_epoch') in
       rbind (es_on_epoch_begin k tid (next_epoch + 1) s2) (\<lambda>s3. Inr (next_epoch, s3))))"

section \<open>Synchronising\<close>

text \<open>The first loop of \<^verbatim>\<open>sync\<close>: a compare-exchange that no one disturbs succeeds at once.\<close>

definition raise_target :: "u64 \<Rightarrow> 'v esys \<Rightarrow> 'v esys" where
  "raise_target c s = (if es_target s < c + 2 then s\<lparr>es_target := c + 2\<rparr> else s)"

text \<open>
  The second loop; a failed compare-exchange overwrites \<^verbatim>\<open>curr_epoch\<close> before it is incremented.  Each turn takes one
  element of the list of what other threads do.
\<close>

fun sync_loop :: "sys_kind \<Rightarrow> nat \<Rightarrow> u64 \<Rightarrow> ('v esys \<Rightarrow> 'v esys) list \<Rightarrow> u64 \<Rightarrow> 'v esys \<Rightarrow> 'v esys res" where
  "sync_loop k tid c [] curr_epoch s = (if curr_epoch < c + 2 then Inl Diverges else Inr s)"
| "sync_loop k tid c (other # others) curr_epoch s =
     (if curr_epoch < c + 2
      then rbind (es_on_epoch_end k tid curr_epoch s) (\<lambda>s1.
           case epoch_CAS curr_epoch (curr_epoch + 1) (other s1) of (ok, curr_epoch', s2) \<Rightarrow>
             rbind (if ok then es_on_epoch_begin k tid (curr_epoch' + 1) s2 else Inr s2)
               (sync_loop k tid c others (curr_epoch' + 1)))
      else Inr s)"

definition advancer_sync :: "sys_kind \<Rightarrow> nat \<Rightarrow> u64 \<Rightarrow> ('v esys \<Rightarrow> 'v esys) list \<Rightarrow> 'v esys \<Rightarrow> 'v esys res" where
  "advancer_sync k tid c others s = (let s1 = raise_target c s in sync_loop k tid c others (get_epoch s1) s1)"

fun nbsync_sync_loop :: "sys_kind \<Rightarrow> nat \<Rightarrow> u64 \<Rightarrow> ('v esys \<Rightarrow> 'v esys) list \<Rightarrow> u64 \<Rightarrow> 'v esys \<Rightarrow> 'v esys res" where
  "nbsync_sync_loop k tid c [] curr_epoch s = (if curr_epoch < c + 2 then Inl Diverges else Inr s)"
| "nbsync_sync_loop k tid c (other # others) curr_epoch s =
     (if curr_epoch < c + 2
      then rbind (es_on_epoch_end k tid curr_epoch s) (\<lambda>s1.
           case epoch_CAS curr_epoch (curr_epoch + 1) (other s1) of (ok, curr_epoch', s2) \<Rightarrow>
             rbind (es_on_epoch_begin k tid (curr_epoch' + 1) s2)
               (nbsync_sync_loop k tid c others (curr_epoch' + 1)))
      else Inr s)"

definition nbsync_sync :: "sys_kind \<Rightarrow> nat \<Rightarrow> u64 \<Rightarrow> ('v esys \<Rightarrow> 'v esys) list \<Rightarrow> 'v esys \<Rightarrow> 'v esys res" where
  "nbsync_sync k tid c others s = (let s1 = raise_target c s in nbsync_sync_loop k tid c others (get_epoch s1) s1)"

text \<open>\<^verbatim>\<open>EpochSys::sync\<close>, and the destructor of the advancer, which synchronises twice.\<close>

definition esys_sync :: "sys_kind \<Rightarrow> nat \<Rightarrow> ('v esys \<Rightarrow> 'v esys) list \<Rightarrow> 'v esys \<Rightarrow> 'v esys res" where
  "esys_sync k tid others s = rbind (rnth (es_last_epochs s) tid) (\<lambda>c. advancer_sync k tid c others s)"

definition advancer_destroy :: "sys_kind \<Rightarrow> nat \<Rightarrow> ('v esys \<Rightarrow> 'v esys) list \<Rightarrow> 'v esys \<Rightarrow> 'v esys res" where
  "advancer_destroy k tid others s =
     rbind (advancer_sync k tid (get_epoch s) others s) (\<lambda>s1. advancer_sync k tid (get_epoch s1) others s1)"

section \<open>What the end of an epoch leaves alone\<close>

definition same_ctl :: "'v esys \<Rightarrow> 'v esys \<Rightarrow> bool" where
  "same_ctl s s' \<longleftrightarrow> es_global_epoch s' = es_global_epoch s \<and> es_trans s' = es_trans s \<and> es_tbf s' = es_tbf s
     \<and> es_target s' = es_target s \<and> es_last_epochs s' = es_last_epochs s \<and> es_task_num s' = es_task_num s
     \<and> es_mode s' = es_mode s \<and> es_uid s' = es_uid s \<and> es_ral s' = es_ral s"

lemma same_ctl_refl [simp]: "same_ctl s s"
  by (simp add: same_ctl_def)

lemma same_ctl_trans: "same_ctl s s1 \<Longrightarrow> same_ctl s1 s2 \<Longrightarrow> same_ctl s s2"
  by (simp add: same_ctl_def)

lemma same_ctl_ops:
  "on_tbp f s = Inr s' \<Longrightarrow> same_ctl s s'" "with_desc i g s = Inr s' \<Longrightarrow> same_ctl s s'"
  "with_ptrack h s = Inr s' \<Longrightarrow> same_ctl s s'"
  by (auto simp: same_ctl_def on_tbp_def with_desc_def with_ptrack_def on_mem_def rbind_eq_Inr_iff)

lemma persist_lagging_ctl: "persist_lagging fuel nb e cur s = Inr s' \<Longrightarrow> same_ctl s s'"
proof (induction fuel arbitrary: cur s)
  case (Suc fuel)
  from Suc.prems obtain r where r: "pt_next_thread e cur (es_ptrack s) = Inr r" by (auto simp: rbind_eq_Inr_iff)
  show ?case
  proof (cases r)
    case (Some i)
    with Suc.prems r obtain s0 s1 s2 where
      s: "(if nb then with_desc i (\<lambda>d. Inr (try_abort e d)) s else Inr s) = Inr s0"
        "on_tbp (tbp_persist_epoch_local e i) s0 = Inr s1" "with_ptrack (pt_after_persist_epoch e i) s1 = Inr s2"
        "persist_lagging fuel nb e i s2 = Inr s'" by (auto simp: rbind_eq_Inr_iff)
    have "same_ctl s s0" using s(1) same_ctl_ops(2) by (cases nb) auto
    with same_ctl_ops(1) [OF s(2)] same_ctl_ops(3) [OF s(3)] Suc.IH [OF s(4)] show ?thesis
      by (meson same_ctl_trans)
  qed (use Suc.prems r in auto)
qed simp

lemma es_on_epoch_end_ok:
  assumes "es_wf n b s" "es_ptrack s = PT_Inc t" "c - 1 \<noteq> UINT64_MAX" "k = Blocking \<longrightarrow> tt_no_active (c - 1) (es_trans s)"
  shows "\<exists>s' u. es_on_epoch_end k tid c s = Inr s' \<and> es_wf n b s' \<and> view_le (es_mem s) (es_mem s')
    \<and> es_ptrack s' = PT_Inc u \<and> (\<forall>i < n. c - 1 \<le> im_lag i u) \<and> same_ctl s s'"
proof -
  have n: "es_task_num s = n" "tid mod n < n" using assms(1) by (simp_all add: es_wf_def)
  have "es_on_epoch_end k tid c s = persist_lagging (Suc n) (k = Nonblocking) (c - 1) (tid mod n) s"
    using assms(4) n by (cases k) (simp_all add: on_epoch_end_def nb_on_epoch_end_def)
  with persist_lagging_inc [OF assms(1,2) n(2) assms(3), of "k = Nonblocking"] persist_lagging_ctl show ?thesis
    by metis
qed

text \<open>Only \<^verbatim>\<open>PerEpochFreedContainer\<close> frees anything when an epoch begins.\<close>

definition frees_locally :: "tbf \<Rightarrow> bool" where
  "frees_locally f \<longleftrightarrow> (\<forall>k. f \<noteq> PerEpochFreed k)"

lemma es_on_epoch_begin_local: "frees_locally (es_tbf s) \<Longrightarrow> es_on_epoch_begin k tid c s = Inr s"
  by (cases k; cases "es_tbf s") (simp_all add: frees_locally_def on_epoch_begin_def on_tbf_def)

text \<open>The state from which an undisturbed epoch change always succeeds.\<close>

definition can_advance :: "nat \<Rightarrow> nat \<Rightarrow> 'v esys \<Rightarrow> bool" where
  "can_advance n b s \<longleftrightarrow> es_wf n b s \<and> (\<exists>t. es_ptrack s = PT_Inc t) \<and> frees_locally (es_tbf s)"

lemma epoch_change:
  assumes "can_advance n b s" "c - 1 \<noteq> UINT64_MAX" "k = Blocking \<longrightarrow> tt_no_active (c - 1) (es_trans s)"
  shows "\<exists>s1. es_on_epoch_end k tid c s = Inr s1 \<and> can_advance n b s1 \<and> view_le (es_mem s) (es_mem s1)
    \<and> (\<forall>i < n. c - 1 \<le> pt_lag i (es_ptrack s1)) \<and> same_ctl s s1"
proof -
  from assms(1) obtain t where t: "es_wf n b s" "es_ptrack s = PT_Inc t" "frees_locally (es_tbf s)" by (auto simp: can_advance_def)
  from es_on_epoch_end_ok [OF t(1,2) assms(2,3), of tid] obtain s1 u where
    s1: "es_on_epoch_end k tid c s = Inr s1" "es_wf n b s1" "view_le (es_mem s) (es_mem s1)"
      "es_ptrack s1 = PT_Inc u" "\<forall>i < n. c - 1 \<le> im_lag i u" "same_ctl s s1" by blast
  then show ?thesis using t(3) by (auto simp: can_advance_def same_ctl_def)
qed

lemma can_advance_set_epoch [simp]:
  "can_advance n b (set_epoch e s) = can_advance n b s" "es_mem (set_epoch e s) = es_mem s"
  "es_ptrack (set_epoch e s) = es_ptrack s" "es_global_epoch (set_epoch e s) = e" "es_trans (set_epoch e s) = es_trans s"
  "es_tbf (set_epoch e s) = es_tbf s"
  by (simp_all add: can_advance_def es_wf_def set_epoch_def)

section \<open>Undisturbed synchronisation\<close>

lemma sync_loop_advances:
  assumes "can_advance n b s" "es_global_epoch s = cur" "1 \<le> cur" "cur \<le> c + 2" "unat c + 2 < 2 ^ 64"
    and "\<forall>e. cur - 1 \<le> e \<and> e \<le> c \<longrightarrow> k = Blocking \<longrightarrow> tt_no_active e (es_trans s)"
    and "unat c + 2 - unat cur \<le> m"
  shows "\<exists>s'. sync_loop k tid c (replicate m id) cur s = Inr s' \<and> es_global_epoch s' = c + 2 \<and> can_advance n b s'
    \<and> view_le (es_mem s) (es_mem s') \<and> es_trans s' = es_trans s
    \<and> (cur < c + 2 \<longrightarrow> (\<forall>i < n. c \<le> pt_lag i (es_ptrack s')))"
  using assms
proof (induction m arbitrary: cur s)
  case 0
  have u: "unat (c + 2) = unat c + 2" using 0 by (simp add: unat_word_ariths)
  have "cur = c + 2" using 0 u by (simp add: word_le_nat_alt word_unat_eq_iff)
  then show ?case using 0 by simp
next
  case (Suc m)
  have u: "unat (c + 2) = unat c + 2" using Suc.prems(5) by (simp add: unat_word_ariths)
  show ?case
  proof (cases "cur < c + 2")
    case False
    then have "cur = c + 2" using Suc.prems(4) by simp
    then show ?thesis using Suc.prems by simp
  next
    case True
    then have cu: "unat cur < unat c + 2" using u by (simp add: word_less_nat_alt)
    have u1: "unat (cur + 1) = unat cur + 1" using cu Suc.prems(5) by (simp add: unat_word_ariths)
    have u0: "unat (cur - 1) = unat cur - 1" using Suc.prems(3) by (simp add: unat_sub)
    have le: "cur - 1 \<le> c" using cu u0 by (simp add: word_le_nat_alt)
    have nm: "cur - 1 \<noteq> UINT64_MAX" using u0 cu Suc.prems(5) unat_max by auto
    from epoch_change [OF Suc.prems(1) nm, of k tid] Suc.prems(6) le obtain s1 where
      s1: "es_on_epoch_end k tid cur s = Inr s1" "can_advance n b s1" "view_le (es_mem s) (es_mem s1)"
        "\<forall>i < n. cur - 1 \<le> pt_lag i (es_ptrack s1)" "same_ctl s s1" by auto
    let ?s2 = "set_epoch (cur + 1) s1"
    have cas: "epoch_CAS cur (cur + 1) (id s1) = (True, cur, ?s2)"
      using s1(5) Suc.prems(2) by (simp add: epoch_CAS_def same_ctl_def)
    have bg: "es_on_epoch_begin k tid (cur + 1) ?s2 = Inr ?s2"
      using s1(2) by (intro es_on_epoch_begin_local) (simp add: can_advance_def)
    have tr: "es_trans ?s2 = es_trans s" using s1(5) by (simp add: same_ctl_def)
    have lo: "cur - 1 \<le> e" if "cur + 1 - 1 \<le> e" for e
      using that u0 by (simp add: word_le_nat_alt)
    have "\<exists>s'. sync_loop k tid c (replicate m id) (cur + 1) ?s2 = Inr s' \<and> es_global_epoch s' = c + 2 \<and> can_advance n b s'
      \<and> view_le (es_mem ?s2) (es_mem s') \<and> es_trans s' = es_trans ?s2
      \<and> (cur + 1 < c + 2 \<longrightarrow> (\<forall>i < n. c \<le> pt_lag i (es_ptrack s')))"
    proof (rule Suc.IH)
      show "\<forall>e. cur + 1 - 1 \<le> e \<and> e \<le> c \<longrightarrow> k = Blocking \<longrightarrow> tt_no_active e (es_trans ?s2)"
        using Suc.prems(6) tr lo by auto
      show "1 \<le> cur + 1" "cur + 1 \<le> c + 2" using u u1 cu by (simp_all add: word_le_nat_alt)
      show "unat c + 2 - unat (cur + 1) \<le> m" using Suc.prems(7) u1 by simp
    qed (use s1(2) Suc.prems(5) in simp_all)
    then obtain s' where s': "sync_loop k tid c (replicate m id) (cur + 1) ?s2 = Inr s'" "es_global_epoch s' = c + 2"
        "can_advance n b s'" "view_le (es_mem s1) (es_mem s')" "es_trans s' = es_trans s"
        "cur + 1 < c + 2 \<longrightarrow> (\<forall>i < n. c \<le> pt_lag i (es_ptrack s'))" using tr by auto
    have "\<forall>i < n. c \<le> pt_lag i (es_ptrack s')"
    proof (cases "cur + 1 < c + 2")
      case False
      then have eq: "cur + 1 = c + 2" using u u1 cu by (simp add: word_less_nat_alt word_unat_eq_iff)
      then have "cur - 1 = c" by (simp add: algebra_simps)
      moreover have "s' = ?s2" using s'(1) eq by (cases m) (simp_all add: add.commute)
      ultimately show ?thesis using s1(4) by simp
    qed (use s'(6) in simp)
    moreover have "sync_loop k tid c (replicate (Suc m) id) cur s = Inr s'"
      using True s1(1) cas bg s'(1) by (simp add: id_def)
    ultimately show ?thesis using s' view_le_trans [OF s1(3) s'(4)] by blast
  qed
qed

section \<open>Properties\<close>

text \<open>
  C17.  When no operation of the epochs up to c is in progress and no other thread moves the epoch,
  \<^verbatim>\<open>sync(c)\<close> ends, with one turn for each epoch from the current one to c + 2: the epoch is then at
  least c + 2, every thread's record of what it has persisted has reached c, nothing the program
  sees has changed and nothing written back is undone.
\<close>

theorem sync_reaches:
  assumes "can_advance n b s" "1 \<le> es_global_epoch s" "unat c + 2 < 2 ^ 64"
    and "\<forall>e. es_global_epoch s - 1 \<le> e \<and> e \<le> c \<longrightarrow> tt_no_active e (es_trans s)"
    and "unat c + 2 - unat (es_global_epoch s) \<le> m"
  shows "\<exists>s'. advancer_sync k tid c (replicate m id) s = Inr s' \<and> es_global_epoch s' = max (es_global_epoch s) (c + 2)
    \<and> view_le (es_mem s) (es_mem s')
    \<and> (es_global_epoch s < c + 2 \<longrightarrow> (\<forall>i < n. c \<le> pt_lag i (es_ptrack s')))"
proof -
  let ?s = "raise_target c s"
  have r: "can_advance n b ?s" "es_global_epoch ?s = es_global_epoch s" "es_trans ?s = es_trans s" "es_mem ?s = es_mem s"
    using assms(1) by (simp_all add: raise_target_def can_advance_def es_wf_def)
  show ?thesis
  proof (cases "es_global_epoch s \<le> c + 2")
    case True
    from sync_loop_advances [OF r(1) r(2) assms(2) True assms(3) _ assms(5), of k tid] assms(4) r(3,4)
    show ?thesis using True r(2) by (auto simp: advancer_sync_def get_epoch_def max_def)
  next
    case False
    then have "\<not> es_global_epoch s < c + 2" by simp
    with False r show ?thesis by (cases m) (simp_all add: advancer_sync_def get_epoch_def Let_def)
  qed
qed

lemma ex_sys_can_advance: "can_advance 2 1 (ex_sys (ex_im 0 0 0))"
  using ex_sys_wf(1) by (simp add: can_advance_def) (simp add: ex_sys_def frees_locally_def)

theorem sync_reaches_witness:
  "\<exists>s'. advancer_sync Blocking 0 4 (replicate 2 id) (ex_sys (ex_im 0 0 0)) = Inr s' \<and> es_global_epoch s' = 6"
proof -
  have q: "tt_no_active e (es_trans (ex_sys (ex_im 0 0 0)))" for e
    by (simp add: ex_sys_def pe_no_active_def pe_new_def list_all_iff)
  have g: "es_global_epoch (ex_sys (ex_im 0 0 0)) = 4" by (simp add: ex_sys_def)
  show ?thesis
    using sync_reaches [OF ex_sys_can_advance, of 4 2 Blocking 0] q unfolding g by auto
qed

text \<open>
  C34.  An undisturbed turn of the advancer thread always ends; it moves the epoch by one if the
  advancer knew the current epoch, and otherwise learns it, so that the next turn moves it.
\<close>

theorem advancer_turn_progress:
  assumes "can_advance n b s" "cur - 1 \<noteq> UINT64_MAX" "tt_no_active (cur - 1) (es_trans s)"
  shows "\<exists>s'. advancer_turn k tid id (cur, s) = Inr (es_global_epoch s', s')
    \<and> es_global_epoch s' = (if cur = es_global_epoch s then es_global_epoch s + 1 else es_global_epoch s)
    \<and> can_advance n b s' \<and> es_trans s' = es_trans s \<and> view_le (es_mem s) (es_mem s')"
proof -
  let ?s = "bump_target cur s"
  have r: "can_advance n b ?s" "es_global_epoch ?s = es_global_epoch s" "es_trans ?s = es_trans s" "es_mem ?s = es_mem s"
    using assms(1) by (simp_all add: bump_target_def can_advance_def es_wf_def)
  from epoch_change [OF r(1) assms(2), of k tid] assms(3) r obtain s1 where
    s1: "es_on_epoch_end k tid cur ?s = Inr s1" "can_advance n b s1" "view_le (es_mem s) (es_mem s1)" "same_ctl ?s s1" by auto
  have "es_on_epoch_begin k tid (cur + 1) (set_epoch (cur + 1) s1) = Inr (set_epoch (cur + 1) s1)"
    using s1(2) by (intro es_on_epoch_begin_local) (simp add: can_advance_def)
  then show ?thesis using s1 r by (auto simp: advancer_turn_def epoch_CAS_def same_ctl_def)
qed

theorem advancer_turn_progress_witness:
  "\<exists>s'. advancer_turn Blocking 2 id (4, ex_sys (ex_im 0 0 0)) = Inr (5, s') \<and> es_global_epoch s' = 5"
proof -
  have q: "tt_no_active (4 - 1) (es_trans (ex_sys (ex_im 0 0 0)))" "(4 :: u64) - 1 \<noteq> UINT64_MAX"
      "es_global_epoch (ex_sys (ex_im 0 0 0)) = 4"
    by (simp_all add: ex_sys_def pe_no_active_def pe_new_def list_all_iff UINT64_MAX_def)
  show ?thesis using advancer_turn_progress [OF ex_sys_can_advance q(2,1), of Blocking 2] q(3) by auto
qed


end
