(* ===== verification/Epoch_Init.thy ===== *)
theory Epoch_Init
  imports Epoch_Advancers
begin

text \<open>
  Construction of an epoch system: \<^verbatim>\<open>EpochSys::EpochSys\<close>, \<^verbatim>\<open>init\<close>, \<^verbatim>\<open>reset\<close> and \<^verbatim>\<open>parse_env\<close>, and
  their nonblocking variants.  The configuration variables are a record of optional values; the
  heap's name and its size are not modelled.  A restart passes the epoch that
  recovery found and, for the nonblocking system, the descriptors it collected.
\<close>

section \<open>Configuration\<close>

record config =
  cf_task_num :: nat
  cf_EpochLength :: "u64 option"
  cf_EpochLengthUnit :: "string option"
  cf_BufferSize :: "u64 option"
  cf_Container :: "string option"
  cf_PersistStrat :: "string option"
  cf_Free :: "string option"
  cf_TransTracker :: "string option"
  cf_PersistTracker :: "string option"

definition env_default :: "'a \<Rightarrow> 'a option \<Rightarrow> 'a option" where
  "env_default d v = (case v of None \<Rightarrow> Some d | Some x \<Rightarrow> Some x)"

definition env_defaults :: "config \<Rightarrow> config" where
  "env_defaults g = g\<lparr>cf_EpochLengthUnit := env_default ''Millisecond'' (cf_EpochLengthUnit g),
     cf_EpochLength := env_default 50 (cf_EpochLength g), cf_BufferSize := env_default 64 (cf_BufferSize g)\<rparr>"

section \<open>Choice of the parts\<close>

definition make_to_be_persisted :: "config \<Rightarrow> tbp res" where
  "make_to_be_persisted g =
     (case cf_PersistStrat g of
        Some p \<Rightarrow>
          if p = ''DirWB'' then Inr (tbp_base (cf_task_num g) DirWB)
          else if p = ''BufferedWB'' then BufferedWB_new (cf_task_num g) (cf_BufferSize g) (cf_Container g)
          else Inl (ErrExit ''unrecognized 'persist' environment'')
      | None \<Rightarrow> BufferedWB_new (cf_task_num g) (cf_BufferSize g) (cf_Container g))"

definition make_to_be_freed :: "config \<Rightarrow> tbf res" where
  "make_to_be_freed g =
     (case cf_Free g of
        Some f \<Rightarrow>
          if f = ''PerEpoch'' then Inr (PerEpochFreed_new (cf_task_num g))
          else if f = ''ThreadLocal'' then Inr (ThreadLocalFreed_new (cf_task_num g))
          else if f = ''No'' then Inr NoToBeFreed
          else Inl (ErrExit ''unrecognized 'free' environment'')
      | None \<Rightarrow> Inr (ThreadLocalFreed_new (cf_task_num g)))"

text \<open>\<^verbatim>\<open>FenceBeginTransactionTracker\<close> is the no-fence tracker with a fence.\<close>

definition make_trans_tracker :: "config \<Rightarrow> ttracker res" where
  "make_trans_tracker g =
     (case cf_TransTracker g of
        Some t \<Rightarrow>
          if t = ''AtomicCounter'' then Inr (TT_Atomic at_new)
          else if t = ''ActiveThread'' then Inr (TT_NoFence (nf_new (cf_task_num g)))
          else if t = ''CurrEpoch'' then Inr (TT_PerEpoch (pe_new (cf_task_num g)))
          else Inl (ErrExit ''unrecognized 'transaction counter' environment'')
      | None \<Rightarrow> Inr (TT_PerEpoch (pe_new (cf_task_num g))))"

definition make_persist_tracker :: "config \<Rightarrow> ptracker res" where
  "make_persist_tracker g =
     (case cf_PersistTracker g of
        Some t \<Rightarrow>
          if t = ''IncreasingMindicator'' then rbind (im_new (cf_task_num g)) (\<lambda>p. Inr (PT_Inc p))
          else if t = ''Mindicator'' then rbind (md_new (cf_task_num g)) (\<lambda>p. Inr (PT_Min p))
          else Inl (ErrExit ''unrecognized 'persist tracker' environment'')
      | None \<Rightarrow> rbind (im_new (cf_task_num g)) (\<lambda>p. Inr (PT_Inc p)))"

text \<open>
  \<^verbatim>\<open>parse_env\<close>.  \<^verbatim>\<open>NoEpochAdvancer\<close> reports \<^verbatim>\<open>INIT_EPOCH\<close> as its target; the target of a new
  \<^verbatim>\<open>DedicatedEpochAdvancer\<close> is the zero its member is initialised with.
\<close>

definition parse_env :: "config \<Rightarrow> 'v esys \<Rightarrow> 'v esys res" where
  "parse_env g0 s =
     (let g = env_defaults g0 in
      if cf_PersistStrat g = Some ''No''
      then rbind (im_new (cf_task_num g)) (\<lambda>p.
             Inr (s\<lparr>es_tbp := \<lparr>tbp_kind = NoToBePersist, descs_p = [], desc_persist_indicators = []\<rparr>,
                    es_tbf := NoToBeFreed, es_target := INIT_EPOCH, es_trans := TT_No, es_ptrack := PT_Inc p\<rparr>))
      else rbind (make_to_be_persisted g) (\<lambda>tb.
           rbind (make_to_be_freed g) (\<lambda>fr.
           rbind (make_trans_tracker g) (\<lambda>tt.
           rbind (make_persist_tracker g) (\<lambda>pt.
           rbind (advancer_epoch_length (cf_EpochLength g) (cf_EpochLengthUnit g)) (\<lambda>_.
             Inr (s\<lparr>es_tbp := tb, es_tbf := fr, es_trans := tt, es_ptrack := pt, es_target := 0\<rparr>)))))))"

section \<open>Construction\<close>

text \<open>The state the constructor leaves; the parts are null until \<^verbatim>\<open>parse_env\<close> sets them.\<close>

definition EpochSys_new :: "config \<Rightarrow> (addr set \<Rightarrow> addr) \<Rightarrow> 'v pmem \<Rightarrow> 'v esys res" where
  "EpochSys_new g ral m =
     rbind (uid_init (of_nat (cf_task_num g)) uid_new) (\<lambda>u.
       Inr \<lparr>es_global_epoch = NULL_EPOCH, es_mem = m\<lparr>local_descs := [], n_descs := []\<rparr>, es_uid = u, es_trans = TT_No,
            es_tbp = \<lparr>tbp_kind = NoToBePersist, descs_p = [], desc_persist_indicators = []\<rparr>, es_tbf = NoToBeFreed,
            es_ptrack = PT_Inc (MLeaf 0 0), es_target = 0, es_task_num = cf_task_num g,
            es_last_epochs = replicate (cf_task_num g) 0, es_mode = ONLINE, es_ral = ral\<rparr>)"

definition mark_epoch_container :: "phdr \<Rightarrow> phdr" where
  "mark_epoch_container b = b\<lparr>pb_id := UINT64_MAX\<rparr>"

text \<open>\<^verbatim>\<open>reset\<close>; \<^term>\<open>restart\<close> is the epoch of the container that recovery found, if there was a restart.\<close>

definition esys_reset :: "config \<Rightarrow> u64 option \<Rightarrow> 'v esys \<Rightarrow> 'v esys res" where
  "esys_reset g restart s =
     parse_env g
       (case restart of
          Some e \<Rightarrow> set_epoch e s
        | None \<Rightarrow>
            (case new_pblk (mark_epoch_container (PBlk_new\<lparr>pb_blktype := EPOCH\<rparr>)) None s of
               (_, s1) \<Rightarrow> set_epoch INIT_EPOCH s1))"

text \<open>The descriptors, made one per thread and written back.\<close>

definition add_desc :: "sc_desc \<Rightarrow> u64 \<Rightarrow> nat \<Rightarrow> 'v esys \<Rightarrow> 'v esys" where
  "add_desc d e i s =
     on_mem (\<lambda>m. m\<lparr>local_descs := local_descs m @ [d], n_descs := n_descs m @ [Some d]\<rparr>) (set_last_epoch i e s)"

definition init_descs :: "nat list \<Rightarrow> 'v esys \<Rightarrow> 'v esys res" where
  "init_descs = rfold (\<lambda>i s. rbind (desc_new (of_nat i)) (\<lambda>d. Inr (add_desc d NULL_EPOCH i s)))"

definition esys_init :: "config \<Rightarrow> u64 option \<Rightarrow> 'v esys \<Rightarrow> 'v esys res" where
  "esys_init g restart s = rbind (init_descs [0..<cf_task_num g] s) (esys_reset g restart)"

text \<open>
  \<^verbatim>\<open>nbEpochSys::init\<close> keeps the descriptors that recovery put into \<^verbatim>\<open>local_descs\<close> and makes the others; reused
  descriptors have to come first.
\<close>

fun nb_init_descs :: "bool \<Rightarrow> nat \<Rightarrow> sc_desc option list \<Rightarrow> 'v esys \<Rightarrow> 'v esys res" where
  "nb_init_descs reached i [] s = Inr s"
| "nb_init_descs reached i (None # ds) s =
     rbind (desc_new (of_nat i)) (\<lambda>d. nb_init_descs True (Suc i) ds (add_desc d NULL_EPOCH i s))"
| "nb_init_descs reached i (Some d # ds) s =
     rassert (\<not> reached) (nb_init_descs reached (Suc i) ds (add_desc d (d_epoch d) i s))"

definition nb_esys_init :: "config \<Rightarrow> u64 option \<Rightarrow> sc_desc option list \<Rightarrow> 'v esys \<Rightarrow> 'v esys res" where
  "nb_esys_init g restart descs s =
     rbind (nb_init_descs False 0 descs s) (\<lambda>s1.
     rbind (esys_reset g restart s1) (\<lambda>s2.
       Inr (s2\<lparr>es_tbp := fold tbp_init_desc_local [0..<cf_task_num g] (es_tbp s2)\<rparr>)))"

section \<open>A new system is well formed\<close>

definition strat_ok :: "config \<Rightarrow> bool" where
  "strat_ok g \<longleftrightarrow> cf_PersistStrat g = Some ''DirWB''
     \<or> cf_PersistStrat g \<in> {None, Some ''BufferedWB''} \<and> cf_Container g \<in> {None, Some ''CircBuffer'', Some ''HashSet''}"

definition free_ok :: "config \<Rightarrow> bool" where
  "free_ok g \<longleftrightarrow> cf_Free g \<in> {None, Some ''PerEpoch'', Some ''ThreadLocal'', Some ''No''}"

definition trans_ok :: "config \<Rightarrow> bool" where
  "trans_ok g \<longleftrightarrow> cf_TransTracker g \<in> {None, Some ''AtomicCounter'', Some ''ActiveThread'', Some ''CurrEpoch''}"

definition ptrack_ok :: "config \<Rightarrow> bool" where
  "ptrack_ok g \<longleftrightarrow> cf_PersistTracker g \<in> {None, Some ''IncreasingMindicator'', Some ''Mindicator''}"

definition unit_ok :: "config \<Rightarrow> bool" where
  "unit_ok g \<longleftrightarrow> cf_EpochLengthUnit g \<in> {None, Some ''Second'', Some ''Millisecond'', Some ''Microsecond''}"

definition config_ok :: "config \<Rightarrow> bool" where
  "config_ok g \<longleftrightarrow> cf_PersistStrat g = Some ''No''
     \<or> strat_ok g \<and> free_ok g \<and> trans_ok g \<and> ptrack_ok g \<and> unit_ok g"

definition fails :: "'a res \<Rightarrow> bool" where
  "fails r \<longleftrightarrow> (\<exists>msg. r = Inl (ErrExit msg))"

definition buffer_size_of :: "config \<Rightarrow> u64" where
  "buffer_size_of g = (case cf_BufferSize g of None \<Rightarrow> 64 | Some n \<Rightarrow> n)"

lemma env_defaults_simps [simp]:
  "cf_task_num (env_defaults g) = cf_task_num g" "cf_Container (env_defaults g) = cf_Container g"
  "cf_PersistStrat (env_defaults g) = cf_PersistStrat g" "cf_Free (env_defaults g) = cf_Free g"
  "cf_TransTracker (env_defaults g) = cf_TransTracker g" "cf_PersistTracker (env_defaults g) = cf_PersistTracker g"
  "cf_EpochLengthUnit (env_defaults g) = Some (case cf_EpochLengthUnit g of None \<Rightarrow> ''Millisecond'' | Some u \<Rightarrow> u)"
  "cf_BufferSize (env_defaults g) = Some (buffer_size_of g)"
  by (simp_all add: env_defaults_def env_default_def buffer_size_of_def split: option.splits)

lemma make_to_be_persisted_ok:
  assumes "buffer_size_of g \<noteq> 0" "unat (buffer_size_of g) + b \<le> 2 ^ 64" "cf_PersistStrat g \<noteq> Some ''No''"
  shows "if strat_ok g then \<exists>t. make_to_be_persisted (env_defaults g) = Inr t \<and> tbp_inv (cf_task_num g) b t \<and> tbp_kind t \<noteq> NoToBePersist
    else fails (make_to_be_persisted (env_defaults g))"
  using assms fc_new_inv(1) [of "buffer_size_of g" b "cf_task_num g"] fc_new_inv(2) [of "buffer_size_of g" "cf_task_num g" b]
  by (cases "cf_PersistStrat g"; cases "cf_Container g")
    (auto simp: make_to_be_persisted_def BufferedWB_new_def tbp_inv_def tbp_base_def fails_def strat_ok_def Let_def)

lemma make_to_be_freed_ok:
  "if free_ok g
   then \<exists>f. make_to_be_freed (env_defaults g) = Inr f \<and> (cf_Free g \<noteq> Some ''No'' \<longrightarrow> defers (cf_task_num g) f)
   else fails (make_to_be_freed (env_defaults g))"
  using vc_new_wf [of "cf_task_num g"]
  by (cases "cf_Free g") (auto simp: make_to_be_freed_def ThreadLocalFreed_new_def PerEpochFreed_new_def defers_def fails_def free_ok_def)

lemma make_trans_tracker_ok:
  "if trans_ok g
   then \<exists>t. make_trans_tracker (env_defaults g) = Inr t \<and> (\<forall>e. e \<noteq> NULL_EPOCH \<longrightarrow> tt_no_active e t)
   else fails (make_trans_tracker (env_defaults g))"
  by (cases "cf_TransTracker g")
    (auto simp: make_trans_tracker_def fails_def trans_ok_def pe_no_active_def pe_new_def at_no_active_def at_new_def slot_less
      nf_no_active_def nf_all_false_def nf_new_def list_all_iff)

lemma make_persist_tracker_ok:
  assumes "0 < cf_task_num g"
  shows "if ptrack_ok g then \<exists>t. make_persist_tracker (env_defaults g) = Inr t \<and> pt_wf (cf_task_num g) t
    else fails (make_persist_tracker (env_defaults g))"
  using im_new_wf [OF assms] md_new_wf [OF assms]
  by (cases "cf_PersistTracker g") (auto simp: make_persist_tracker_def fails_def ptrack_ok_def)

lemma advancer_epoch_length_ok:
  "if unit_ok g then \<exists>l. advancer_epoch_length n (cf_EpochLengthUnit (env_defaults g)) = Inr l
   else fails (advancer_epoch_length n (cf_EpochLengthUnit (env_defaults g)))"
  by (cases "cf_EpochLengthUnit g") (auto simp: advancer_epoch_length_def fails_def unit_ok_def Let_def)

text \<open>What a successful \<^verbatim>\<open>parse_env\<close> establishes.\<close>

definition parsed :: "config \<Rightarrow> nat \<Rightarrow> 'v esys \<Rightarrow> 'v esys \<Rightarrow> bool" where
  "parsed g b s s' \<longleftrightarrow> tbp_inv (cf_task_num g) b (es_tbp s') \<and> pt_wf (cf_task_num g) (es_ptrack s')
     \<and> (\<forall>e. e \<noteq> NULL_EPOCH \<longrightarrow> tt_no_active e (es_trans s'))
     \<and> (cf_PersistStrat g \<noteq> Some ''No'' \<and> cf_Free g \<noteq> Some ''No'' \<longrightarrow> defers (cf_task_num g) (es_tbf s'))
     \<and> (tbp_kind (es_tbp s') = NoToBePersist \<longleftrightarrow> cf_PersistStrat g = Some ''No'')
     \<and> es_mem s' = es_mem s \<and> es_global_epoch s' = es_global_epoch s \<and> es_task_num s' = es_task_num s
     \<and> es_last_epochs s' = es_last_epochs s"

lemma parse_env_ok:
  assumes "0 < cf_task_num g" "buffer_size_of g \<noteq> 0" "unat (buffer_size_of g) + b \<le> 2 ^ 64"
  shows "if config_ok g then \<exists>s'. parse_env g s = Inr s' \<and> parsed g b s s' else fails (parse_env g s)"
proof (cases "cf_PersistStrat g = Some ''No''")
  case True
  with im_new_wf [OF assms(1)] show ?thesis by (auto simp: parse_env_def config_ok_def parsed_def tbp_inv_def)
next
  case False
  note tb = make_to_be_persisted_ok [OF assms(2,3) False] and fr = make_to_be_freed_ok [of g]
    and tt = make_trans_tracker_ok [of g] and pt = make_persist_tracker_ok [OF assms(1)]
    and ln = advancer_epoch_length_ok [of g "cf_EpochLength (env_defaults g)"]
  have eq: "parse_env g s = rbind (make_to_be_persisted (env_defaults g)) (\<lambda>tb. rbind (make_to_be_freed (env_defaults g)) (\<lambda>fr.
      rbind (make_trans_tracker (env_defaults g)) (\<lambda>tt. rbind (make_persist_tracker (env_defaults g)) (\<lambda>pt.
      rbind (advancer_epoch_length (cf_EpochLength (env_defaults g)) (cf_EpochLengthUnit (env_defaults g))) (\<lambda>_.
        Inr (s\<lparr>es_tbp := tb, es_tbf := fr, es_trans := tt, es_ptrack := pt, es_target := 0\<rparr>))))))"
    using False by (simp add: parse_env_def Let_def)
  show ?thesis
  proof (cases "strat_ok g \<and> free_ok g \<and> trans_ok g \<and> ptrack_ok g \<and> unit_ok g")
    case True
    then show ?thesis unfolding eq using tb fr tt pt ln False by (auto simp: config_ok_def parsed_def)
  next
    case bad: False
    then have "fails (parse_env g s)"
      unfolding eq using tb fr tt pt ln by (auto simp: fails_def split: if_splits)
    then show ?thesis using bad False by (auto simp: config_ok_def)
  qed
qed

text \<open>The descriptors are made without touching anything else.\<close>

definition descs_added :: "nat \<Rightarrow> 'v esys \<Rightarrow> 'v esys \<Rightarrow> bool" where
  "descs_added n s s' \<longleftrightarrow> length (local_descs (es_mem s')) = length (local_descs (es_mem s)) + n
     \<and> m_hdr (es_mem s') = m_hdr (es_mem s) \<and> es_task_num s' = es_task_num s"

lemma desc_new_total: "i < 65536 \<Longrightarrow> \<exists>d. desc_new (of_nat i) = Inr d"
  by (simp add: desc_new_def set_tid_sn_def rassert_def word_less_nat_alt unat_of_nat)

lemma init_descs_ok: "\<forall>i \<in> set is. i < 65536 \<Longrightarrow> \<exists>s'. init_descs is s = Inr s' \<and> descs_added (length is) s s'"
proof (induction "is" arbitrary: s)
  case (Cons i "is")
  obtain d where d: "desc_new (of_nat i) = Inr d" using desc_new_total Cons.prems by auto
  let ?s = "add_desc d NULL_EPOCH i s"
  from Cons obtain s' where "init_descs is ?s = Inr s'" "descs_added (length is) ?s s'" by auto
  then show ?case using d by (auto simp: init_descs_def descs_added_def add_desc_def on_mem_def set_last_epoch_def)
qed (simp add: init_descs_def descs_added_def)

definition boot :: "config \<Rightarrow> (addr set \<Rightarrow> addr) \<Rightarrow> u64 option \<Rightarrow> 'v pmem \<Rightarrow> 'v esys res" where
  "boot g ral restart m = rbind (EpochSys_new g ral m) (esys_init g restart)"

lemma EpochSys_new_ok: "\<exists>s. EpochSys_new g ral m = Inr s \<and> es_task_num s = cf_task_num g"
  by (simp add: EpochSys_new_def uid_init_def uid_new_def Let_def split: prod.splits)

section \<open>Properties\<close>


definition ex_config :: config where
  "ex_config = \<lparr>cf_task_num = 2, cf_EpochLength = None, cf_EpochLengthUnit = None, cf_BufferSize = None, cf_Container = None,
     cf_PersistStrat = None, cf_Free = None, cf_TransTracker = None, cf_PersistTracker = None\<rparr>"

definition ex_pmem :: "unit pmem" where
  "ex_pmem = \<lparr>m_hdr = Map.empty, m_val = Map.empty, n_hdr = Map.empty, n_val = Map.empty, allocated = {},
     local_descs = [], n_descs = []\<rparr>"


end
