(* ===== verification/Recoverable_API.thy ===== *)
theory Recoverable_API
  imports Epoch_Init
begin

text \<open>
  \<^verbatim>\<open>src/persist/api/Recoverable.hpp\<close> and \<^verbatim>\<open>Recoverable.cpp\<close>: the base class of persistent structures, which
  brackets operations, keeps the allocations and retirements a thread made outside an operation, and through
  which payload fields are read and written.  \<^verbatim>\<open>tid\<close> is \<^verbatim>\<open>EpochSys::tid\<close>; the virtual calls go to the blocking
  or the nonblocking system.
\<close>

section \<open>Virtual calls\<close>

fun es_begin_transaction :: "sys_kind \<Rightarrow> nat \<Rightarrow> 'v esys \<Rightarrow> (u64 \<times> 'v esys) res" where
  "es_begin_transaction Blocking tid s = begin_transaction tid s"
| "es_begin_transaction Nonblocking tid s = nb_begin_transaction tid s"

fun es_end_transaction :: "sys_kind \<Rightarrow> nat \<Rightarrow> u64 \<Rightarrow> 'v esys \<Rightarrow> 'v esys res" where
  "es_end_transaction Blocking tid c s = end_transaction tid c s"
| "es_end_transaction Nonblocking tid c s = Inr (nb_end_transaction tid c s)"

fun es_begin_reclaim :: "sys_kind \<Rightarrow> nat \<Rightarrow> 'v esys \<Rightarrow> (u64 \<times> 'v esys) res" where
  "es_begin_reclaim Blocking tid s = begin_reclaim_transaction tid s"
| "es_begin_reclaim Nonblocking tid s = nb_begin_reclaim_transaction tid s"

fun es_end_reclaim :: "sys_kind \<Rightarrow> nat \<Rightarrow> u64 \<Rightarrow> 'v esys \<Rightarrow> 'v esys res" where
  "es_end_reclaim Blocking tid c s = end_reclaim_transaction tid c s"
| "es_end_reclaim Nonblocking tid c s = Inr (nb_end_reclaim_transaction tid c s)"

fun es_end_readonly :: "sys_kind \<Rightarrow> nat \<Rightarrow> u64 \<Rightarrow> 'v esys \<Rightarrow> 'v esys res" where
  "es_end_readonly Blocking tid c s = end_readonly_transaction tid c s"
| "es_end_readonly Nonblocking tid c s = Inr (nb_end_readonly_transaction tid c s)"

fun es_abort :: "sys_kind \<Rightarrow> nat \<Rightarrow> u64 \<Rightarrow> 'v esys \<Rightarrow> 'v esys res" where
  "es_abort Blocking tid c s = abort_transaction tid c s"
| "es_abort Nonblocking tid c s = Inr (nb_abort_transaction tid c s)"

fun es_register_alloc :: "sys_kind \<Rightarrow> nat \<Rightarrow> addr \<Rightarrow> u64 \<Rightarrow> 'v esys \<Rightarrow> 'v esys res" where
  "es_register_alloc Blocking tid a c s = register_alloc_pblk tid a c s"
| "es_register_alloc Nonblocking tid a c s = nb_register_alloc_pblk tid a c s"

text \<open>The two overloads of \<^verbatim>\<open>prepare_retire_pblk\<close>: for a pair that is already pending, and for a new one.\<close>

fun es_prepare_pending :: "sys_kind \<Rightarrow> nat \<Rightarrow> u64 \<Rightarrow> addr \<times> addr \<Rightarrow> 'v esys \<Rightarrow> ((addr \<times> addr) \<times> 'v esys) res" where
  "es_prepare_pending Blocking tid c p s = Inr (p, s)"
| "es_prepare_pending Nonblocking tid c (b, anti) s =
     rassert (anti = 0) (rbind (nb_prepare_retire tid b c s) (\<lambda>(anti', s'). Inr ((b, anti'), s')))"

fun es_prepare_retire :: "sys_kind \<Rightarrow> nat \<Rightarrow> u64 \<Rightarrow> addr \<Rightarrow> 'v esys \<Rightarrow> ((addr \<times> addr) \<times> 'v esys) res" where
  "es_prepare_retire Blocking tid c b s = Inr ((b, 0), s)"
| "es_prepare_retire Nonblocking tid c b s =
     rbind (nb_prepare_retire tid b c s) (\<lambda>(anti, s'). Inr ((b, anti), s'))"

fun es_retire :: "sys_kind \<Rightarrow> nat \<Rightarrow> u64 \<Rightarrow> addr \<times> addr \<Rightarrow> 'v esys \<Rightarrow> 'v esys res" where
  "es_retire Blocking tid c (b, anti) s = retire_pblk tid b c s"
| "es_retire Nonblocking tid c (b, anti) s = nb_retire_pblk b c anti s"

fun es_withdraw :: "sys_kind \<Rightarrow> nat \<Rightarrow> u64 \<Rightarrow> addr \<times> addr \<Rightarrow> 'v esys \<Rightarrow> 'v esys res" where
  "es_withdraw Blocking tid c p s = Inr s"
| "es_withdraw Nonblocking tid c (b, anti) s = nb_withdraw_retire_pblk tid anti c s"

section \<open>State\<close>

record 'v recoverable =
  r_esys :: "'v esys"
  r_kind :: sys_kind
  r_epochs :: "u64 list"
  r_pending_allocs :: "addr list list"
  r_pending_retires :: "(addr \<times> addr) list list"

definition r_set_epoch :: "nat \<Rightarrow> u64 \<Rightarrow> 'v recoverable \<Rightarrow> 'v recoverable" where
  "r_set_epoch tid c r = r\<lparr>r_epochs := (r_epochs r)[tid := c]\<rparr>"

definition r_set_allocs :: "nat \<Rightarrow> addr list \<Rightarrow> 'v recoverable \<Rightarrow> 'v recoverable" where
  "r_set_allocs tid xs r = r\<lparr>r_pending_allocs := (r_pending_allocs r)[tid := xs]\<rparr>"

definition r_set_retires :: "nat \<Rightarrow> (addr \<times> addr) list \<Rightarrow> 'v recoverable \<Rightarrow> 'v recoverable" where
  "r_set_retires tid xs r = r\<lparr>r_pending_retires := (r_pending_retires r)[tid := xs]\<rparr>"

text \<open>The constructor; \<^verbatim>\<open>Liveness\<close> selects the system.\<close>

definition Recoverable_new :: "string option \<Rightarrow> config \<Rightarrow> (addr set \<Rightarrow> addr) \<Rightarrow> u64 option \<Rightarrow> sc_desc option list \<Rightarrow> 'v pmem
    \<Rightarrow> 'v recoverable res" where
  "Recoverable_new liveness g ral restart descs m =
     rbind (case liveness of
              None \<Rightarrow> Inr Blocking
            | Some l \<Rightarrow> if l = ''Nonblocking'' then Inr Nonblocking
                        else if l = ''Blocking'' then Inr Blocking
                        else Inl (ErrExit ''unrecognized 'Liveness' environment'')) (\<lambda>k.
     rbind (EpochSys_new g ral m) (\<lambda>s0.
     rbind (if k = Nonblocking then nb_esys_init g restart descs s0 else esys_init g restart s0) (\<lambda>s.
       Inr \<lparr>r_esys = s, r_kind = k, r_epochs = replicate (cf_task_num g) NULL_EPOCH,
            r_pending_allocs = replicate (cf_task_num g) [], r_pending_retires = replicate (cf_task_num g) []\<rparr>)))"

section \<open>Operations\<close>

fun prepare_all :: "sys_kind \<Rightarrow> nat \<Rightarrow> u64 \<Rightarrow> (addr \<times> addr) list \<Rightarrow> 'v esys \<Rightarrow> ((addr \<times> addr) list \<times> 'v esys) res" where
  "prepare_all k tid c [] s = Inr ([], s)"
| "prepare_all k tid c (p # ps) s =
     rbind (es_prepare_pending k tid c p s) (\<lambda>(p', s1).
     rbind (prepare_all k tid c ps s1) (\<lambda>(ps', s2). Inr (p' # ps', s2)))"

definition register_pending :: "sys_kind \<Rightarrow> nat \<Rightarrow> u64 \<Rightarrow> addr \<Rightarrow> 'v esys \<Rightarrow> 'v esys res" where
  "register_pending k tid c b s =
     rbind (block b s) (\<lambda>h. rassert (pb_epoch h = NULL_EPOCH) (es_register_alloc k tid b c s))"

definition begin_op :: "nat \<Rightarrow> 'v recoverable \<Rightarrow> 'v recoverable res" where
  "begin_op tid r =
     rbind (rnth (r_epochs r) tid) (\<lambda>e. rassert (e = NULL_EPOCH) (
     rbind (es_begin_transaction (r_kind r) tid (r_esys r)) (\<lambda>(c, s1).
     rbind (prepare_all (r_kind r) tid c (r_pending_retires r ! tid) s1) (\<lambda>(rs, s2).
     rbind (rfold (register_pending (r_kind r) tid c) (r_pending_allocs r ! tid) s2) (\<lambda>s3.
     rassert (c \<noteq> NULL_EPOCH) (Inr ((r_set_retires tid rs (r_set_epoch tid c r))\<lparr>r_esys := s3\<rparr>)))))))"

definition end_op :: "nat \<Rightarrow> 'v recoverable \<Rightarrow> 'v recoverable res" where
  "end_op tid r =
     rbind (rnth (r_epochs r) tid) (\<lambda>c. rassert (c \<noteq> NULL_EPOCH) (
     rbind (rfold (es_retire (r_kind r) tid c) (r_pending_retires r ! tid) (r_esys r)) (\<lambda>s1.
     rbind (es_end_transaction (r_kind r) tid c s1) (\<lambda>s2.
       Inr ((r_set_allocs tid [] (r_set_epoch tid NULL_EPOCH (r_set_retires tid [] r)))\<lparr>r_esys := s2\<rparr>)))))"

definition end_readonly_op :: "nat \<Rightarrow> 'v recoverable \<Rightarrow> 'v recoverable res" where
  "end_readonly_op tid r =
     rbind (rnth (r_epochs r) tid) (\<lambda>c. rassert (c \<noteq> NULL_EPOCH) (
     rbind (es_end_readonly (r_kind r) tid c (r_esys r)) (\<lambda>s1.
     rassert (r_pending_allocs r ! tid = [] \<and> r_pending_retires r ! tid = [])
       (Inr ((r_set_epoch tid NULL_EPOCH r)\<lparr>r_esys := s1\<rparr>)))))"

definition abort_op :: "nat \<Rightarrow> 'v recoverable \<Rightarrow> 'v recoverable res" where
  "abort_op tid r =
     rbind (rnth (r_epochs r) tid) (\<lambda>c. rassert (c \<noteq> NULL_EPOCH) (
     rbind (rfold (es_withdraw (r_kind r) tid c) (r_pending_retires r ! tid) (r_esys r)) (\<lambda>s1.
     rbind (rfold (\<lambda>b. reset_alloc_pblk tid b c) (r_pending_allocs r ! tid) s1) (\<lambda>s2.
     rbind (es_abort (r_kind r) tid c s2) (\<lambda>s3.
       Inr ((r_set_epoch tid NULL_EPOCH (r_set_retires tid [] r))\<lparr>r_esys := s3\<rparr>))))))"

text \<open>
  \<^verbatim>\<open>pnew\<close> with the value the constructor gives the payload.  Outside an operation the block waits for the next
  \<^verbatim>\<open>begin_op\<close>.
\<close>

definition pnew :: "nat \<Rightarrow> 'v \<Rightarrow> 'v recoverable \<Rightarrow> (addr \<times> 'v recoverable) res" where
  "pnew tid v r =
     (case new_pblk PBlk_new (Some v) (r_esys r) of (b, s1) \<Rightarrow>
        rbind (rnth (r_epochs r) tid) (\<lambda>c.
          if c = NULL_EPOCH
          then Inr (b, (r_set_allocs tid (r_pending_allocs r ! tid @ [b]) r)\<lparr>r_esys := s1\<rparr>)
          else rbind (es_register_alloc (r_kind r) tid b c s1) (\<lambda>s2. Inr (b, r\<lparr>r_esys := s2\<rparr>))))"

text \<open>Erasing the last occurrence, which \<^verbatim>\<open>std::find\<close> on the reversed range finds.\<close>

definition erase_last :: "'a \<Rightarrow> 'a list \<Rightarrow> 'a list" where
  "erase_last x xs = rev (remove1 x (rev xs))"

definition pdelete :: "nat \<Rightarrow> addr \<Rightarrow> 'v recoverable \<Rightarrow> 'v recoverable res" where
  "pdelete tid b r =
     (if es_mode (r_esys r) = ONLINE
      then rbind (rnth (r_epochs r) tid) (\<lambda>c.
        if c \<noteq> NULL_EPOCH then rbind (free_pblk tid b c (r_esys r)) (\<lambda>s1. Inr (r\<lparr>r_esys := s1\<rparr>))
        else rbind (block b (r_esys r)) (\<lambda>h.
             rbind (if pb_epoch h = NULL_EPOCH
                    then rassert (b \<in> set (r_pending_allocs r ! tid))
                           (Inr (r_set_allocs tid (erase_last b (r_pending_allocs r ! tid)) r))
                    else Inr r) (\<lambda>r1.
             rbind (delete_pblk tid b c (r_esys r1)) (\<lambda>s1. Inr (r1\<lparr>r_esys := s1\<rparr>)))))
      else Inr r)"

definition pretire :: "nat \<Rightarrow> addr \<Rightarrow> 'v recoverable \<Rightarrow> 'v recoverable res" where
  "pretire tid b r =
     rbind (rnth (r_epochs r) tid) (\<lambda>c.
       if c = NULL_EPOCH then Inr (r_set_retires tid (r_pending_retires r ! tid @ [(b, 0)]) r)
       else rbind (es_prepare_retire (r_kind r) tid c b (r_esys r)) (\<lambda>(p, s1).
              Inr ((r_set_retires tid (r_pending_retires r ! tid @ [p]) r)\<lparr>r_esys := s1\<rparr>)))"

definition preclaim :: "nat \<Rightarrow> addr \<Rightarrow> 'v recoverable \<Rightarrow> 'v recoverable res" where
  "preclaim tid b r =
     (if es_mode (r_esys r) = ONLINE
      then rbind (rnth (r_epochs r) tid) (\<lambda>c0.
        if c0 = NULL_EPOCH
        then rbind (es_begin_reclaim (r_kind r) tid (r_esys r)) (\<lambda>(c, s1).
             rbind (block b s1) (\<lambda>h.
             let r1 = (if \<not> retired h \<and> b \<in> set (r_pending_allocs r ! tid)
                       then r_set_allocs tid (erase_last b (r_pending_allocs r ! tid)) r else r) in
             rbind (reclaim_pblk tid b c s1) (\<lambda>s2.
             rbind (es_end_reclaim (r_kind r) tid c s2) (\<lambda>s3.
               Inr ((r_set_epoch tid NULL_EPOCH r1)\<lparr>r_esys := s3\<rparr>)))))
        else rbind (reclaim_pblk tid b c0 (r_esys r)) (\<lambda>s1. Inr (r\<lparr>r_esys := s1\<rparr>)))
      else Inr r)"

definition r_openread :: "nat \<Rightarrow> addr \<Rightarrow> 'v recoverable \<Rightarrow> addr res" where
  "r_openread tid b r =
     rbind (rnth (r_epochs r) tid) (\<lambda>c. rassert (c \<noteq> NULL_EPOCH) (openread_pblk b c (r_esys r)))"

definition r_openwrite :: "nat \<Rightarrow> addr \<Rightarrow> 'v recoverable \<Rightarrow> (addr \<times> 'v recoverable) res" where
  "r_openwrite tid b r =
     rbind (rnth (r_epochs r) tid) (\<lambda>c. rassert (c \<noteq> NULL_EPOCH) (
     rbind (openwrite_pblk tid b c (r_esys r)) (\<lambda>(b', s1). Inr (b', r\<lparr>r_esys := s1\<rparr>))))"

definition r_register_update :: "nat \<Rightarrow> addr \<Rightarrow> 'v recoverable \<Rightarrow> 'v recoverable res" where
  "r_register_update tid b r =
     rbind (rnth (r_epochs r) tid) (\<lambda>c.
     rbind (register_update_pblk tid b c (r_esys r)) (\<lambda>s1. Inr (r\<lparr>r_esys := s1\<rparr>)))"

definition r_sync :: "nat \<Rightarrow> ('v esys \<Rightarrow> 'v esys) list \<Rightarrow> 'v recoverable \<Rightarrow> 'v recoverable res" where
  "r_sync tid others r =
     rbind (rnth (r_epochs r) tid) (\<lambda>c. rassert (c = NULL_EPOCH) (
     rbind (esys_sync (r_kind r) tid others (r_esys r)) (\<lambda>s1. Inr (r\<lparr>r_esys := s1\<rparr>))))"

definition r_flush :: "nat \<Rightarrow> ('v esys \<Rightarrow> 'v esys) list \<Rightarrow> 'v recoverable \<Rightarrow> 'v recoverable res" where
  "r_flush tid others r = rbind (r_sync tid others r) (r_sync tid others)"

definition recover_mode :: "'v recoverable \<Rightarrow> 'v recoverable" where
  "recover_mode r = r\<lparr>r_esys := (r_esys r)\<lparr>es_mode := RECOVER\<rparr>\<rparr>"

definition online_mode :: "'v recoverable \<Rightarrow> 'v recoverable" where
  "online_mode r = r\<lparr>r_esys := (r_esys r)\<lparr>es_mode := ONLINE\<rparr>\<rparr>"

definition r_check_epoch :: "nat \<Rightarrow> 'v recoverable \<Rightarrow> bool res" where
  "r_check_epoch tid r = rbind (rnth (r_epochs r) tid) (\<lambda>c. Inr (check_epoch c (r_esys r)))"

section \<open>Fields\<close>

text \<open>
  The accessors that \<^verbatim>\<open>GENERATE_FIELD\<close> generates: a getter applies the field's selector to the payload, a setter
  its update.
\<close>

definition read_val :: "addr \<Rightarrow> 'v recoverable \<Rightarrow> 'v res" where
  "read_val b r = (case m_val (es_mem (r_esys r)) b of None \<Rightarrow> Inl BadAccess | Some v \<Rightarrow> Inr v)"

definition field_get :: "('v \<Rightarrow> 'f) \<Rightarrow> nat \<Rightarrow> addr \<Rightarrow> 'v recoverable \<Rightarrow> 'f res" where
  "field_get sel tid b r = rbind (r_openread tid b r) (\<lambda>b'. rbind (read_val b' r) (\<lambda>v. Inr (sel v)))"

definition field_get_unsafe :: "('v \<Rightarrow> 'f) \<Rightarrow> addr \<Rightarrow> 'v recoverable \<Rightarrow> 'f res" where
  "field_get_unsafe sel b r = rbind (read_val b r) (\<lambda>v. Inr (sel v))"

definition write_val :: "('v \<Rightarrow> 'v) \<Rightarrow> addr \<Rightarrow> 'v recoverable \<Rightarrow> 'v recoverable res" where
  "write_val f b r = rbind (read_val b r) (\<lambda>v. Inr (r\<lparr>r_esys := on_mem (set_val b (f v)) (r_esys r)\<rparr>))"

definition field_set :: "('v \<Rightarrow> 'v) \<Rightarrow> nat \<Rightarrow> addr \<Rightarrow> 'v recoverable \<Rightarrow> (addr \<times> 'v recoverable) res" where
  "field_set upd tid b r =
     rbind (rnth (r_epochs r) tid) (\<lambda>c. rassert (c \<noteq> NULL_EPOCH) (
     rbind (r_openwrite tid b r) (\<lambda>(b', r1).
     rbind (write_val upd b' r1) (\<lambda>r2.
     rbind (r_register_update tid b' r2) (\<lambda>r3. Inr (b', r3))))))"

definition field_set_unsafe :: "('v \<Rightarrow> 'v) \<Rightarrow> addr \<Rightarrow> 'v recoverable \<Rightarrow> 'v recoverable res" where
  "field_set_unsafe upd b r = write_val upd b r"

section \<open>Writing a field\<close>

text \<open>Setting the value of a block keeps every write-back of other blocks.\<close>

lemma set_val_mem [simp]:
  "m_hdr (es_mem (on_mem (set_val a v) s)) = m_hdr (es_mem s)" "es_tbp (on_mem (set_val a v) s) = es_tbp s"
  "m_val (es_mem (on_mem (set_val a v) s)) = (m_val (es_mem s))(a \<mapsto> v)" "n_hdr (es_mem (on_mem (set_val a v) s)) = n_hdr (es_mem s)"
  "n_val (es_mem (on_mem (set_val a v) s)) = n_val (es_mem s)"
  by (simp_all add: on_mem_def set_val_def)

lemma register_update_ok:
  assumes "tbp_inv n (Suc k) (es_tbp s)" "tid < n" "a \<noteq> 0" "\<not> is_raw a" "c \<noteq> NULL_EPOCH" "tbp_kind (es_tbp s) \<noteq> NoToBePersist"
  shows "\<exists>s'. register_update_pblk tid a c s = Inr s' \<and> same_view (es_mem s) (es_mem s') \<and> es_tracked a (slot c) tid s'"
  using on_tbp_register [OF assms] assms(5) by (auto simp: register_update_pblk_def)

text \<open>The part of a setter after the block has been opened.\<close>

lemma write_and_register:
  assumes r: "tid < length (r_epochs r)" "r_epochs r ! tid = c" "c \<noteq> NULL_EPOCH"
    and b: "m_hdr (es_mem (r_esys r)) b = Some h" "m_val (es_mem (r_esys r)) b = Some v" "pb_epoch h \<le> c" "b \<noteq> 0" "\<not> is_raw b"
    and s: "tbp_inv n (Suc k) (es_tbp (r_esys r))" "tbp_kind (es_tbp (r_esys r)) \<noteq> NoToBePersist" "tid < n"
  shows "\<exists>r1 r2. write_val upd b r = Inr r1 \<and> r_register_update tid b r1 = Inr r2
    \<and> field_get sel tid b r2 = Inr (sel (upd v)) \<and> es_tracked b (slot c) tid (r_esys r2)
    \<and> m_hdr (es_mem (r_esys r2)) = m_hdr (es_mem (r_esys r)) \<and> m_val (es_mem (r_esys r2)) = (m_val (es_mem (r_esys r)))(b \<mapsto> upd v)
    \<and> (\<forall>x. x \<noteq> b \<and> \<not> is_raw x \<and> persisted x (es_mem (r_esys r)) \<longrightarrow> persisted x (es_mem (r_esys r2)))"
proof -
  let ?s1 = "on_mem (set_val b (upd v)) (r_esys r)"
  from register_update_ok [of n k ?s1 tid b c] s b(4,5) r(3) obtain s2 where
    s2: "register_update_pblk tid b c ?s1 = Inr s2" "same_view (es_mem ?s1) (es_mem s2)" "es_tracked b (slot c) tid s2" by auto
  let ?r1 = "r\<lparr>r_esys := ?s1\<rparr>" and ?r2 = "r\<lparr>r_esys := s2\<rparr>"
  have w: "write_val upd b r = Inr ?r1" "r_register_update tid b ?r1 = Inr ?r2"
    using b(2) r s2(1) by (simp_all add: write_val_def read_val_def r_register_update_def)
  have m: "m_hdr (es_mem s2) = m_hdr (es_mem (r_esys r))" "m_val (es_mem s2) = (m_val (es_mem (r_esys r)))(b \<mapsto> upd v)"
    using s2(2) by (simp_all add: same_view_def)
  have "field_get sel tid b ?r2 = Inr (sel (upd v))"
    using r b(1,3) m
    by (simp add: field_get_def r_openread_def openread_pblk_def validate_access_def block_def hdr_def read_val_def rassert_def)
  moreover have "persisted x (es_mem s2)" if "x \<noteq> b" "\<not> is_raw x" "persisted x (es_mem (r_esys r))" for x
  proof -
    have "entry_done x (es_mem ?s1)" using that by (simp add: entry_done_def persisted_def)
    then show ?thesis using s2(2) that(2) by (simp add: same_view_def entry_done_def)
  qed
  ultimately show ?thesis using w m s2(3) by (intro exI [of _ ?r1] exI [of _ ?r2]) simp
qed

section \<open>Properties\<close>

text \<open>
  C16.  Inside an operation a setter returns a block from which the getter reads the new value, and
  registers that block for write-back in the operation's epoch.  If the payload was last written in an
  older epoch the setter makes a new version: the old block keeps its value, and if it was
  durable it stays durable.
\<close>

theorem field_set_get:
  assumes r: "tid < length (r_epochs r)" "r_epochs r ! tid = c" "c \<noteq> NULL_EPOCH"
    and b: "m_hdr (es_mem (r_esys r)) b = Some h" "m_val (es_mem (r_esys r)) b = Some v" "b \<in> allocated (es_mem (r_esys r))"
      "b \<noteq> 0" "\<not> is_raw b" "pb_epoch h \<le> c"
    and s: "tbp_inv n (Suc k) (es_tbp (r_esys r))" "tbp_kind (es_tbp (r_esys r)) \<noteq> NoToBePersist" "tid < n"
      "defers n (es_tbf (r_esys r))" "ral_ok (r_esys r)"
  shows "\<exists>b' r'. field_set upd tid b r = Inr (b', r') \<and> field_get sel tid b' r' = Inr (sel (upd v))
    \<and> es_tracked b' (slot c) tid (r_esys r')
    \<and> (pb_epoch h < c \<longrightarrow> b' \<noteq> b \<and> field_get_unsafe sel b r' = Inr (sel v)
         \<and> (persisted b (es_mem (r_esys r)) \<longrightarrow> persisted b (es_mem (r_esys r'))))"
proof (cases "pb_epoch h < c")
  case True
  from openwrite_new_version [OF b(1-4) True s(4,3,5)] obtain b' s1 h' where
    o: "openwrite_pblk tid b c (r_esys r) = Inr (b', s1)" "b' \<notin> allocated (es_mem (r_esys r))" "b' \<noteq> 0" "\<not> is_raw b'"
      "m_hdr (es_mem s1) b' = Some h'" "pb_epoch h' = c" "m_val (es_mem s1) b' = Some v"
      "\<forall>x. x \<noteq> b' \<longrightarrow> m_hdr (es_mem s1) x = m_hdr (es_mem (r_esys r)) x \<and> m_val (es_mem s1) x = m_val (es_mem (r_esys r)) x"
      "n_hdr (es_mem s1) = n_hdr (es_mem (r_esys r))" "n_val (es_mem s1) = n_val (es_mem (r_esys r))"
      "es_tbp s1 = es_tbp (r_esys r)" by blast
  let ?r1 = "r\<lparr>r_esys := s1\<rparr>"
  have ne: "b' \<noteq> b" using o(2) b(3) by auto
  from write_and_register [of tid ?r1 c b' h' v n k upd sel] r o(3-7,11) s obtain r2 r3 where
    w: "write_val upd b' ?r1 = Inr r2" "r_register_update tid b' r2 = Inr r3" "field_get sel tid b' r3 = Inr (sel (upd v))"
      "es_tracked b' (slot c) tid (r_esys r3)" "m_val (es_mem (r_esys r3)) = (m_val (es_mem s1))(b' \<mapsto> upd v)"
      "\<forall>x. x \<noteq> b' \<and> \<not> is_raw x \<and> persisted x (es_mem s1) \<longrightarrow> persisted x (es_mem (r_esys r3))" by auto
  have "field_set upd tid b r = Inr (b', r3)"
    using r o(1) w(1,2) by (simp add: field_set_def r_openwrite_def rassert_def)
  moreover have "field_get_unsafe sel b r3 = Inr (sel v)"
    using w(5) ne o(8) b(2) by (simp add: field_get_unsafe_def read_val_def)
  moreover have "persisted b (es_mem (r_esys r3))" if "persisted b (es_mem (r_esys r))"
    using that w(6) ne b(5) o(8-10) by (simp add: persisted_def)
  ultimately show ?thesis using w(3,4) ne by blast
next
  case False
  then have o: "r_openwrite tid b r = Inr (b, r)"
    using r b(1,6) by (simp add: r_openwrite_def openwrite_pblk_def validate_access_def block_def hdr_def rassert_def)
  from write_and_register [OF r b(1,2,6,4,5) s(1-3), of upd sel] obtain r2 r3 where
    w: "write_val upd b r = Inr r2" "r_register_update tid b r2 = Inr r3" "field_get sel tid b r3 = Inr (sel (upd v))"
      "es_tracked b (slot c) tid (r_esys r3)" by blast
  have "field_set upd tid b r = Inr (b, r3)"
    using r o w(1,2) by (simp add: field_set_def rassert_def)
  then show ?thesis using w(3,4) False by blast
qed

text \<open>A system of two threads in epoch 4 with direct write-back and a payload of epoch 3 at address 64.\<close>

definition ex_rec :: "'v \<Rightarrow> u64 list \<Rightarrow> 'v recoverable" where
  "ex_rec v eps =
     \<lparr>r_esys =
        \<lparr>es_global_epoch = 4,
         es_mem = \<lparr>m_hdr = [64 \<mapsto> PBlk_new\<lparr>pb_epoch := 3, pb_blktype := ALLOC, pb_id := 7\<rparr>], m_val = [64 \<mapsto> v],
                   n_hdr = Map.empty, n_val = Map.empty, allocated = {64}, local_descs = [], n_descs = []\<rparr>,
         es_uid = uid_new, es_trans = TT_PerEpoch (pe_new 2), es_tbp = tbp_base 2 DirWB,
         es_tbf = ThreadLocalFreed (vc_new 2) [4, 4], es_ptrack = PT_Inc (ex_im 0 0 0), es_target = 0, es_task_num = 2,
         es_last_epochs = [4, 4], es_mode = ONLINE, es_ral = (\<lambda>_. 128)\<rparr>,
      r_kind = Blocking, r_epochs = eps, r_pending_allocs = [[], []], r_pending_retires = [[], []]\<rparr>"

theorem field_set_get_witness:
  "\<exists>b' r'. field_set (\<lambda>_. 9) 0 64 (ex_rec (5 :: nat) [4, 0]) = Inr (b', r') \<and> field_get id 0 b' r' = Inr 9
     \<and> field_get_unsafe id 64 r' = Inr 5"
proof -
  let ?r = "ex_rec (5 :: nat) [4, 0]"
  have h: "m_hdr (es_mem (r_esys ?r)) 64 = Some (PBlk_new\<lparr>pb_epoch := 3, pb_blktype := ALLOC, pb_id := 7\<rparr>)"
      "m_val (es_mem (r_esys ?r)) 64 = Some 5" "64 \<in> allocated (es_mem (r_esys ?r))" "ral_ok (r_esys ?r)"
      "tbp_inv 2 (Suc 0) (es_tbp (r_esys ?r))" "tbp_kind (es_tbp (r_esys ?r)) \<noteq> NoToBePersist"
      "defers 2 (es_tbf (r_esys ?r))" "0 < length (r_epochs ?r)" "r_epochs ?r ! 0 = 4"
    using vc_new_wf [of 2] by (simp_all add: ex_rec_def ral_ok_def is_raw_def tbp_inv_def tbp_base_def defers_def)
  from field_set_get [OF h(8,9) _ h(1-3) _ _ _ h(5,6) _ h(7,4), of "\<lambda>_. 9" id]
  obtain b' and r' :: "nat recoverable" where
    "field_set (\<lambda>_. 9) 0 64 ?r = Inr (b', r')" "field_get id 0 b' r' = Inr 9" "field_get_unsafe id 64 r' = Inr 5"
    by (auto simp: is_raw_def)
  then show ?thesis by blast
qed

lemma on_tbp_register_raw:
  assumes "tbp_inv n (Suc k) (es_tbp s)" "tid < n" "a \<noteq> 0" "\<not> is_raw a" "c \<noteq> NULL_EPOCH"
  shows "\<exists>s'. on_tbp (tbp_register_persist_raw a c tid) s = Inr s' \<and> same_view (es_mem s) (es_mem s')
    \<and> tbp_inv n k (es_tbp s') \<and> es_trans s' = es_trans s \<and> es_task_num s' = es_task_num s \<and> es_mode s' = es_mode s"
proof -
  from tbp_register_persist_raw_ok [of n k "(es_tbp s, es_mem s)" tid a c] assms obtain st where
    st: "tbp_register_persist_raw a c tid (es_tbp s, es_mem s) = Inr st" "reg_ok n k (mark_raw a) c tid (es_tbp s, es_mem s) st" by auto
  obtain t m where tm: "st = (t, m)" by (cases st)
  let ?s' = "s\<lparr>es_tbp := t, es_mem := m\<rparr>"
  have "on_tbp (tbp_register_persist_raw a c tid) s = Inr ?s'" using st(1) tm by (simp add: on_tbp_def)
  then show ?thesis using st(2) by (intro exI [of _ ?s']) (simp add: tm reg_ok_def)
qed

lemma reset_all:
  assumes "distinct bs" "\<forall>b \<in> set bs. b \<noteq> 0 \<and> \<not> is_raw b \<and> (\<exists>h. m_hdr (es_mem s) b = Some h \<and> pb_blktype h = ALLOC)"
    and "tbp_inv n (length bs + k) (es_tbp s)" "tid < n" "c \<noteq> NULL_EPOCH"
  shows "\<exists>s'. rfold (\<lambda>b. reset_alloc_pblk tid b c) bs s = Inr s' \<and> es_trans s' = es_trans s
    \<and> m_val (es_mem s') = m_val (es_mem s)
    \<and> (\<forall>b. m_hdr (es_mem s') b = (if b \<in> set bs
          then map_option (\<lambda>h. h\<lparr>pb_epoch := NULL_EPOCH, pb_blktype := INIT\<rparr>) (m_hdr (es_mem s) b) else m_hdr (es_mem s) b))"
  using assms
proof (induction bs arbitrary: s)
  case (Cons b bs)
  obtain h where h: "m_hdr (es_mem s) b = Some h" "pb_blktype h = ALLOC" "b \<noteq> 0" "\<not> is_raw b" using Cons.prems(2) by auto
  let ?s = "update_block b (h\<lparr>pb_epoch := NULL_EPOCH, pb_blktype := INIT\<rparr>) s"
  from on_tbp_register_raw [of n "length bs + k" ?s tid b c] Cons.prems(3-5) h(3,4) obtain s1 where
    s1: "on_tbp (tbp_register_persist_raw b c tid) ?s = Inr s1" "same_view (es_mem ?s) (es_mem s1)"
      "tbp_inv n (length bs + k) (es_tbp s1)" "es_trans s1 = es_trans ?s" by auto
  have r: "reset_alloc_pblk tid b c s = Inr s1"
    using h(1,2) s1(1) by (simp add: reset_alloc_pblk_def block_def hdr_def rassert_def)
  have m1: "m_hdr (es_mem s1) = (m_hdr (es_mem s))(b \<mapsto> h\<lparr>pb_epoch := NULL_EPOCH, pb_blktype := INIT\<rparr>)"
    "m_val (es_mem s1) = m_val (es_mem s)" using s1(2) by (simp_all add: same_view_def)
  have "\<forall>x \<in> set bs. x \<noteq> 0 \<and> \<not> is_raw x \<and> (\<exists>h. m_hdr (es_mem s1) x = Some h \<and> pb_blktype h = ALLOC)"
    using Cons.prems(1,2) m1(1) by auto
  from Cons.IH [OF _ this s1(3) Cons.prems(4,5)] Cons.prems(1) obtain s' where
    s': "rfold (\<lambda>b. reset_alloc_pblk tid b c) bs s1 = Inr s'" "es_trans s' = es_trans s1" "m_val (es_mem s') = m_val (es_mem s1)"
      "\<forall>x. m_hdr (es_mem s') x = (if x \<in> set bs
          then map_option (\<lambda>h. h\<lparr>pb_epoch := NULL_EPOCH, pb_blktype := INIT\<rparr>) (m_hdr (es_mem s1) x) else m_hdr (es_mem s1) x)"
    by auto
  have "es_trans ?s = es_trans s" by (simp add: update_block_def on_mem_def)
  then show ?case using r s' s1(4) m1 h(1) Cons.prems(1) by auto
qed simp

text \<open>
  C32.  Aborting an operation of the blocking system takes every block that waits in the thread's pending
  allocations back to the state of a new block, without an epoch, keeps it pending with its
  contents and identifier, drops the pending retirements, and ends the operation; no other block
  changes.  The thread can begin again: each pending block passes the check of \<^verbatim>\<open>begin_op\<close>.
\<close>

theorem abort_op_restores:
  assumes r: "r_kind r = Blocking" "tid < length (r_epochs r)" "r_epochs r ! tid = c" "c \<noteq> NULL_EPOCH"
      "tid < length (r_pending_retires r)"
    and b: "distinct (r_pending_allocs r ! tid)" "\<forall>b \<in> set (r_pending_allocs r ! tid). b \<noteq> 0 \<and> \<not> is_raw b
      \<and> (\<exists>h. m_hdr (es_mem (r_esys r)) b = Some h \<and> pb_blktype h = ALLOC)"
    and s: "tbp_inv n (length (r_pending_allocs r ! tid)) (es_tbp (r_esys r))" "tid < n"
      "tt_unregister_active tid c (es_trans (r_esys r)) = Inr t"
  shows "\<exists>r'. abort_op tid r = Inr r' \<and> r_epochs r' ! tid = NULL_EPOCH \<and> r_pending_allocs r' = r_pending_allocs r
    \<and> r_pending_retires r' ! tid = [] \<and> es_trans (r_esys r') = t \<and> m_val (es_mem (r_esys r')) = m_val (es_mem (r_esys r))
    \<and> (\<forall>b. m_hdr (es_mem (r_esys r')) b = (if b \<in> set (r_pending_allocs r ! tid)
          then map_option (\<lambda>h. h\<lparr>pb_epoch := NULL_EPOCH, pb_blktype := INIT\<rparr>) (m_hdr (es_mem (r_esys r)) b)
          else m_hdr (es_mem (r_esys r)) b))"
proof -
  have w: "rfold (es_withdraw Blocking tid c) ps s = Inr s" for ps and s :: "'a esys"
    by (induction ps) simp_all
  from reset_all [of "r_pending_allocs r ! tid" "r_esys r" n 0 tid c] b s(1,2) r(4) obtain s' where
    s': "rfold (\<lambda>b. reset_alloc_pblk tid b c) (r_pending_allocs r ! tid) (r_esys r) = Inr s'"
      "es_trans s' = es_trans (r_esys r)" "m_val (es_mem s') = m_val (es_mem (r_esys r))"
      "\<forall>b. m_hdr (es_mem s') b = (if b \<in> set (r_pending_allocs r ! tid)
          then map_option (\<lambda>h. h\<lparr>pb_epoch := NULL_EPOCH, pb_blktype := INIT\<rparr>) (m_hdr (es_mem (r_esys r)) b)
          else m_hdr (es_mem (r_esys r)) b)" by auto
  have "abort_op tid r = Inr ((r_set_epoch tid NULL_EPOCH (r_set_retires tid [] r))\<lparr>r_esys := s'\<lparr>es_trans := t\<rparr>\<rparr>)"
    using r w s'(1,2) s(3) by (simp add: abort_op_def abort_transaction_def rassert_def)
  then show ?thesis using r(2,5) s'(3,4) by (simp add: r_set_epoch_def r_set_retires_def)
qed

theorem abort_op_restores_witness:
  "\<exists>r' h. abort_op 0 ((ex_rec (5 :: nat) [4, 0])\<lparr>r_pending_allocs := [[64], []]\<rparr>) = Inr r'
     \<and> m_hdr (es_mem (r_esys r')) 64 = Some h \<and> pb_epoch h = NULL_EPOCH \<and> pb_blktype h = INIT \<and> pb_id h = 7"
proof -
  let ?r = "(ex_rec (5 :: nat) [4, 0])\<lparr>r_pending_allocs := [[64], []]\<rparr>"
  have h: "r_kind ?r = Blocking" "0 < length (r_epochs ?r)" "r_epochs ?r ! 0 = 4" "0 < length (r_pending_retires ?r)"
      "distinct (r_pending_allocs ?r ! 0)" "tbp_inv 2 (length (r_pending_allocs ?r ! 0)) (es_tbp (r_esys ?r))"
      "m_hdr (es_mem (r_esys ?r)) 64 = Some (PBlk_new\<lparr>pb_epoch := 3, pb_blktype := ALLOC, pb_id := 7\<rparr>)" "r_pending_allocs ?r ! 0 = [64]"
    by (simp_all add: ex_rec_def tbp_inv_def tbp_base_def)
  have t: "tt_unregister_active 0 4 (es_trans (r_esys ?r)) = Inr (TT_PerEpoch (pe_new 2))"
    by (simp add: ex_rec_def pe_unregister_def pe_new_def numeral_2_eq_2)
  have b: "\<forall>b \<in> set (r_pending_allocs ?r ! 0). b \<noteq> 0 \<and> \<not> is_raw b
      \<and> (\<exists>h. m_hdr (es_mem (r_esys ?r)) b = Some h \<and> pb_blktype h = ALLOC)"
    unfolding h(8) using h(7) by (auto simp: is_raw_def)
  from abort_op_restores [OF h(1-3) _ h(4,5) b h(6) _ t] show ?thesis
    unfolding h(8) using h(7) by auto
qed

end
