(* ===== verification/Transactions.thy ===== *)
theory Transactions
  imports Recoverable_API
begin

text \<open>
  Operations of the blocking system as a whole: from a well-formed running system \<^verbatim>\<open>begin_transaction\<close> returns, in the
  current epoch, with the thread registered; the loop that writes back past epochs ends, and
  entering a new epoch deletes only blocks retired at least two epochs before.
\<close>

section \<open>The configured transaction tracker meets the contract\<close>

fun tt_rep :: "nat \<Rightarrow> activity \<Rightarrow> ttracker \<Rightarrow> bool" where
  "tt_rep n A (TT_PerEpoch t) = pe_rep n A t"
| "tt_rep n A (TT_Atomic t) = at_rep n A t"
| "tt_rep n A (TT_NoFence t) = nf_rep n A t"
| "tt_rep n A TT_No = False"

interpretation ttt: transaction_tracker tt_register_active tt_unregister_active tt_no_active tt_rep
proof (unfold_locales, goal_cases)
  case (1 n A t tid target c ge)
  then show ?case
    using pet.reg_law [of n A _ tid target c ge] nft.reg_law [of n A _ tid target c ge] att.reg_law [of n A _ tid target c ge]
    by (cases t) fastforce+
next
  case (2 n A t tid e)
  then show ?case
    using pet.unreg_law [of n A _ tid e] nft.unreg_law [of n A _ tid e] att.unreg_law [of n A _ tid e]
    by (cases t) fastforce+
next
  case (3 n A t e tid)
  then show ?case
    using pet.none_sound nft.none_sound att.none_sound by (cases t) auto
next
  case (4 n A t e)
  then show ?case
    using pet.none_complete [of n A _ e] nft.none_complete [of n A _ e] att.none_complete [of n A _ e]
    by (cases t) auto
qed

section \<open>Writing back past epochs\<close>

lemma im_lag_leaf: "im_wf n t \<Longrightarrow> i < n \<Longrightarrow> im_next_epoch_to_persist i t = Inr (im_lag i t)"
  using im_wf_leaf [of n t i] by (auto simp: im_next_epoch_to_persist_def im_lag_def split: option.splits)

lemma persist_past_ends:
  assumes "es_wf n b s" "es_ptrack s = PT_Inc t" "tid < n" "until \<noteq> UINT64_MAX"
    and "0 < fuel" "unat until + 2 \<le> fuel + unat (im_lag tid t)"
  shows "\<exists>s' t'. persist_past fuel until tid s = Inr s' \<and> es_wf n b s' \<and> es_ptrack s' = PT_Inc t'
    \<and> view_le (es_mem s) (es_mem s') \<and> same_ctl s s' \<and> (im_lag tid t' = 0 \<or> until < im_lag tid t')
    \<and> local_descs (es_mem s') = local_descs (es_mem s)"
  using assms
proof (induction fuel arbitrary: s t)
  case (Suc fuel)
  have wf: "im_wf n t" "tbp_inv n b (es_tbp s)" using Suc.prems(1,2) by (simp_all add: es_wf_def)
  let ?e = "im_lag tid t"
  have nx: "pt_next_epoch_to_persist tid (es_ptrack s) = Inr ?e"
    using im_lag_leaf [OF wf(1) Suc.prems(3)] Suc.prems(2) by simp
  show ?case
  proof (cases "?e = NULL_EPOCH \<or> ?e > until")
    case True
    then show ?thesis using nx Suc.prems(1,2) by auto
  next
    case False
    then have le: "?e \<le> until" "?e \<noteq> UINT64_MAX" using Suc.prems(4) max_le_iff [of until] by (auto simp: not_less)
    from tbp_persist_epoch_local_ok [of n b "(es_tbp s, es_mem s)" tid ?e] wf(2) Suc.prems(3) obtain st where
      st: "tbp_persist_epoch_local ?e tid (es_tbp s, es_mem s) = Inr st" "same_view (es_mem s) (snd st)" by auto
    from persist_one [OF wf(2) Suc.prems(3), of ?e] obtain s1 where
      s1: "on_tbp (tbp_persist_epoch_local ?e tid) s = Inr s1" "tbp_inv n b (es_tbp s1)" "view_le (es_mem s) (es_mem s1)"
        "es_ptrack s1 = es_ptrack s" by blast
    have ld: "local_descs (es_mem s1) = local_descs (es_mem s)"
      using s1(1) st by (cases st) (auto simp: on_tbp_def same_view_def)
    from im_after_law [OF wf(1) Suc.prems(3) order_refl le(2)] obtain t1 where
      t1: "im_after_persist_epoch ?e tid t = Inr t1" "im_wf n t1" "im_lag tid t1 = ?e + 1" by blast
    let ?s2 = "s1\<lparr>es_ptrack := PT_Inc t1\<rparr>"
    have p: "with_ptrack (pt_after_persist_epoch ?e tid) s1 = Inr ?s2"
      using s1(4) Suc.prems(2) t1(1) by (simp add: with_ptrack_def)
    have c1: "same_ctl s ?s2" using same_ctl_ops(1) [OF s1(1)] same_ctl_ops(3) [OF p] by (rule same_ctl_trans)
    have wf2: "es_wf n b ?s2" using Suc.prems(1) s1 t1(2) c1 by (simp add: es_wf_def view_le_def same_ctl_def)
    have u: "unat (?e + 1) = unat ?e + 1" using unat_inc [OF le(2)] by simp
    have "unat ?e \<le> unat until" using le(1) by (simp add: word_le_nat_alt)
    then have f: "0 < fuel" "unat until + 2 \<le> fuel + unat (im_lag tid t1)" using Suc.prems(6) u t1(3) by simp_all
    from Suc.IH [OF wf2 _ Suc.prems(3,4) f] obtain s' t' where
      s': "persist_past fuel until tid ?s2 = Inr s'" "es_wf n b s'" "es_ptrack s' = PT_Inc t'"
        "view_le (es_mem ?s2) (es_mem s')" "same_ctl ?s2 s'" "im_lag tid t' = 0 \<or> until < im_lag tid t'"
        "local_descs (es_mem s') = local_descs (es_mem ?s2)" by auto
    have "persist_past (Suc fuel) until tid s = Inr s'" using nx False s1(1) p s'(1) by simp
    then show ?thesis
      using s'(2,3,6,7) ld view_le_trans [OF s1(3)] s'(4) same_ctl_trans [OF c1 s'(5)] by auto
  qed
qed simp

section \<open>Reclaiming on entry to an epoch\<close>

text \<open>What deleting the blocks of a set leaves of a system.\<close>

definition deleted_only :: "addr set \<Rightarrow> 'v esys \<Rightarrow> 'v esys \<Rightarrow> bool" where
  "deleted_only D s s' \<longleftrightarrow> (\<forall>x. x \<notin> D \<longrightarrow> m_hdr (es_mem s') x = m_hdr (es_mem s) x)
     \<and> (\<forall>x. m_hdr (es_mem s) x \<noteq> None \<longrightarrow> m_hdr (es_mem s') x \<noteq> None)
     \<and> allocated (es_mem s') = allocated (es_mem s) - D \<and> m_val (es_mem s') = m_val (es_mem s)
     \<and> map d_tid_sn (local_descs (es_mem s')) = map d_tid_sn (local_descs (es_mem s)) \<and> same_ctl s s' \<and> es_ptrack s' = es_ptrack s"

lemma deleted_only_empty [simp]: "deleted_only {} s s"
  by (simp add: deleted_only_def)

lemma deleted_only_tbf: "deleted_only D s s' \<Longrightarrow> deleted_only D (s\<lparr>es_tbf := f\<rparr>) (s'\<lparr>es_tbf := f\<rparr>)"
  by (simp add: deleted_only_def same_ctl_def)

lemma deleted_only_trans: "deleted_only D s s1 \<Longrightarrow> deleted_only E s1 s2 \<Longrightarrow> deleted_only (D \<union> E) s s2"
  by (auto simp: deleted_only_def intro: same_ctl_trans)

lemma delete_pblk_ok:
  assumes "es_mode s = ONLINE" "tid < es_task_num s" "c \<noteq> NULL_EPOCH" "a \<noteq> 0" "\<not> is_raw a" "m_hdr (es_mem s) a \<noteq> None"
    and "tbp_inv n (Suc k) (es_tbp s)" "tid < n"
  shows "\<exists>s'. delete_pblk tid a c s = Inr s' \<and> deleted_only {a} s s' \<and> tbp_inv n k (es_tbp s')"
proof -
  obtain b where b: "m_hdr (es_mem s) a = Some b" using assms(6) by blast
  let ?s = "on_mem (ral_deallocate a) (update_block a (PBlk_destroy b) s)"
  have m: "deleted_only {a} s ?s" "es_tbp ?s = es_tbp s"
    by (simp_all add: on_mem_def ral_deallocate_def update_block_def set_hdr_def same_ctl_def deleted_only_def)
  from on_tbp_register_raw [of n k ?s tid a c] assms(3-5,7,8) m(2) obtain s' where
    s': "on_tbp (tbp_register_persist_raw a c tid) ?s = Inr s'" "same_view (es_mem ?s) (es_mem s')" "tbp_inv n k (es_tbp s')" by auto
  have "delete_pblk tid a c s = Inr s'"
    using assms(1-3) b s'(1) by (simp add: delete_pblk_def block_def hdr_def Let_def)
  moreover have "deleted_only {} ?s s'"
    using s'(2) same_ctl_ops(1) [OF s'(1)] on_tbp_ptrack [OF s'(1)] by (simp add: same_view_def deleted_only_def)
  ultimately show ?thesis using s'(3) deleted_only_trans [OF m(1), of "{}" s'] by simp
qed

definition deletable :: "addr \<Rightarrow> 'v esys \<Rightarrow> bool" where
  "deletable a s \<longleftrightarrow> a \<noteq> 0 \<and> \<not> is_raw a \<and> m_hdr (es_mem s) a \<noteq> None"

lemma delete_all_ok:
  assumes "es_mode s = ONLINE" "tid < es_task_num s" "\<forall>(a, c) \<in> set xs. c \<noteq> NULL_EPOCH \<and> deletable a s"
    and "tbp_inv n (length xs + k) (es_tbp s)" "tid < n"
  shows "\<exists>s'. rfold (\<lambda>(a, i). delete_pblk tid a i) xs s = Inr s' \<and> deleted_only (fst ` set xs) s s' \<and> tbp_inv n k (es_tbp s')"
  using assms
proof (induction xs arbitrary: s)
  case (Cons p xs)
  obtain a c where p: "p = (a, c)" by (cases p)
  from delete_pblk_ok [of s tid c a n "length xs + k"] Cons.prems obtain s1 where
    s1: "delete_pblk tid a c s = Inr s1" "deleted_only {a} s s1" "tbp_inv n (length xs + k) (es_tbp s1)"
    by (auto simp: p deletable_def)
  have "\<forall>(a, c) \<in> set xs. c \<noteq> NULL_EPOCH \<and> deletable a s1"
    using Cons.prems(3) s1(2) by (auto simp: deletable_def deleted_only_def)
  with Cons.IH [of s1] Cons.prems(1,2,5) s1(2,3) obtain s' where
    "rfold (\<lambda>(a, i). delete_pblk tid a i) xs s1 = Inr s'" "deleted_only (fst ` set xs) s1 s'" "tbp_inv n k (es_tbp s')"
    by (auto simp: same_ctl_def deleted_only_def)
  then show ?case using s1 deleted_only_trans [OF s1(2), of "fst ` set xs" s'] by (simp add: p)
qed simp

text \<open>The number of blocks of a thread that wait, in all buckets together.\<close>

definition waiting :: "nat \<Rightarrow> addr vc \<Rightarrow> nat" where
  "waiting tid k = (\<Sum>s < EPOCH_WINDOW. length (k ! s ! tid))"

lemma length_freed_of:
  assumes "distinct (map slot es)"
  shows "length (freed_of tid es k) \<le> waiting tid k"
proof -
  have "length (freed_of tid es k) = sum_list (map (\<lambda>s. length (k ! s ! tid)) (map slot es))"
    by (simp add: freed_of_def length_concat bucket_def comp_def)
  also have "\<dots> = (\<Sum>s \<in> slot ` set es. length (k ! s ! tid))"
    using assms by (simp only: sum_list_distinct_conv_sum_set set_map)
  also have "\<dots> \<le> waiting tid k" unfolding waiting_def by (intro sum_mono2) auto
  finally show ?thesis .
qed

lemma set_freed_of: "(a, e) \<in> set (freed_of tid es k) \<longleftrightarrow> e \<in> set es \<and> a \<in> set (bucket k tid e)"
  by (auto simp: freed_of_def)

text \<open>What a thread may rely on of its container of retired blocks when the epoch is \<^term>\<open>g\<close>.\<close>

definition freed_ok :: "nat \<Rightarrow> nat \<Rightarrow> u64 \<Rightarrow> 'v esys \<Rightarrow> bool" where
  "freed_ok n tid g s \<longleftrightarrow> (case es_tbf s of
     ThreadLocalFreed k te \<Rightarrow> vc_wf n k \<and> tid < length te \<and> 3 \<le> unat (te ! tid) \<and> te ! tid \<le> g \<and> window_ok tid (te ! tid) k
       \<and> (\<forall>e. \<forall>a \<in> set (bucket k tid e). deletable a s)
   | _ \<Rightarrow> False)"

fun waiting_of :: "nat \<Rightarrow> tbf \<Rightarrow> nat" where
  "waiting_of tid (ThreadLocalFreed k te) = waiting tid k"
| "waiting_of tid (PerEpochFreed k) = waiting tid k"
| "waiting_of tid NoToBeFreed = 0"

text \<open>
  Entering epoch \<^term>\<open>c\<close>: the buckets of a list of epochs, all at least two behind, are emptied and their blocks deleted.
\<close>

definition freeing :: "nat \<Rightarrow> nat \<Rightarrow> nat \<Rightarrow> u64 \<Rightarrow> u64 list \<Rightarrow> 'v esys \<Rightarrow> 'v esys \<Rightarrow> bool" where
  "freeing n b tid c es s s' \<longleftrightarrow> (case es_tbf s of
     ThreadLocalFreed k te \<Rightarrow> distinct (map slot es) \<and> (\<forall>e \<in> set es. e \<le> c - 2)
       \<and> es_tbf s' = ThreadLocalFreed (fold (drop_bucket tid) es k) (te[tid := c])
       \<and> window_ok tid c (fold (drop_bucket tid) es k)
       \<and> deleted_only (fst ` set (freed_of tid es k)) (s\<lparr>es_tbf := es_tbf s'\<rparr>) s'
       \<and> (\<exists>m. b = length (freed_of tid es k) + m \<and> tbp_inv n m (es_tbp s'))
   | _ \<Rightarrow> False)"

lemma free_on_new_epoch_total:
  assumes f: "freed_ok n tid c s" "tid < n" "unat c < 2 ^ 64 - 1"
    and s: "es_mode s = ONLINE" "tid < es_task_num s" "tbp_inv n b (es_tbp s)" "waiting_of tid (es_tbf s) \<le> b"
  shows "\<exists>s' es. on_tbf (tbf_free_on_new_epoch (delete_pblk tid) c tid) s = Inr s' \<and> freeing n b tid c es s s'"
proof -
  obtain k te where k: "es_tbf s = ThreadLocalFreed k te" "vc_wf n k" "tid < length te" "3 \<le> unat (te ! tid)"
      "te ! tid \<le> c" "window_ok tid (te ! tid) k" "\<forall>e. \<forall>a \<in> set (bucket k tid e). deletable a s"
    using f(1) by (auto simp: freed_ok_def split: tbf.splits)
  show ?thesis
  proof (cases "te ! tid = c")
    case True
    then have "te[tid := c] = te" using list_update_id [of te tid] by simp
    moreover have "deleted_only {} (s\<lparr>es_tbf := ThreadLocalFreed k te\<rparr>) s" using k(1) by (simp add: deleted_only_def same_ctl_def)
    ultimately have "freeing n b tid c [] s s" using k(1,6) s(3) True by (simp add: freeing_def freed_of_def)
    then show ?thesis using True k(1,3) by (intro exI [of _ s] exI [of _ "[]"]) (auto simp: on_tbf_def)
  next
    case False
    then have lt: "unat (te ! tid) < unat c" using k(5) by (simp add: word_le_nat_alt word_unat_eq_iff)
    let ?es = "words_from_to (te ! tid - 1) (min (te ! tid + 1) (c - 2))"
    note sp = free_on_new_epoch_spec [OF k(2) f(2) k(3) refl k(4) lt f(3) k(6)]
    have d: "distinct (map slot ?es)"
      using window_epochs [OF k(4) lt f(3)] window_slots [OF k(4)] lt f(3) by auto
    have len: "length (freed_of tid ?es k) \<le> b" using length_freed_of [OF d, of tid k] s(4) k(1) by simp
    have pos: "e \<noteq> NULL_EPOCH" if "e \<in> set ?es" for e
    proof -
      have "te ! tid - 1 \<le> e" using that by (simp add: set_words_from_to)
      moreover have "unat (te ! tid - 1) = unat (te ! tid) - 1" using unat_sub_num [of 1 "te ! tid"] k(4) by simp
      ultimately show ?thesis using k(4) by (auto simp: word_le_nat_alt)
    qed
    have del: "\<forall>(a, e) \<in> set (freed_of tid ?es k). e \<noteq> NULL_EPOCH \<and> deletable a s"
      using pos k(7) set_freed_of by fast
    have inv: "tbp_inv n (length (freed_of tid ?es k) + (b - length (freed_of tid ?es k))) (es_tbp s)" using s(3) len by simp
    from delete_all_ok [OF s(1,2) del inv f(2)] obtain s1 where
      s1: "rfold (\<lambda>(a, i). delete_pblk tid a i) (freed_of tid ?es k) s = Inr s1"
        "deleted_only (fst ` set (freed_of tid ?es k)) s s1" "tbp_inv n (b - length (freed_of tid ?es k)) (es_tbp s1)" by blast
    let ?f = "ThreadLocalFreed (fold (drop_bucket tid) ?es k) (te[tid := c])"
    have "on_tbf (tbf_free_on_new_epoch (delete_pblk tid) c tid) s = Inr (s1\<lparr>es_tbf := ?f\<rparr>)"
      using sp(1) [of "delete_pblk tid" s] s1(1) k(1) by (simp add: on_tbf_def)
    moreover have "freeing n b tid c ?es s (s1\<lparr>es_tbf := ?f\<rparr>)"
      using k(1) d sp(2,3) deleted_only_tbf [OF s1(2)] s1(3) len by (auto simp: freeing_def intro: exI [of _ "b - length (freed_of tid ?es k)"])
    ultimately show ?thesis by blast
  qed
qed

section \<open>Beginning and ending an operation\<close>

text \<open>A running system, as thread \<^term>\<open>tid\<close> finds it between two of its operations.\<close>

definition between_ops :: "nat \<Rightarrow> nat \<Rightarrow> activity \<Rightarrow> nat \<Rightarrow> 'v esys \<Rightarrow> bool" where
  "between_ops n b A tid s \<longleftrightarrow> tid < n \<and> es_wf n b s \<and> (\<exists>t. es_ptrack s = PT_Inc t) \<and> tt_rep n A (es_trans s) \<and> A tid = None
     \<and> length (es_last_epochs s) = n \<and> es_mode s = ONLINE \<and> 0 < unat (es_global_epoch s) \<and> unat (es_global_epoch s) < 2 ^ 64 - 1
     \<and> get_sn (d_tid_sn (local_descs (es_mem s) ! tid)) \<noteq> 0xffffffffffff
     \<and> freed_ok n tid (es_global_epoch s) s \<and> waiting_of tid (es_tbf s) \<le> b"

lemma with_desc_total:
  assumes "i < length (local_descs (es_mem s))" "f (local_descs (es_mem s) ! i) = Inr d"
  shows "with_desc i f s = Inr (on_mem (\<lambda>m. m\<lparr>local_descs := (local_descs m)[i := d]\<rparr>) s)"
  using assms by (simp add: with_desc_def)

lemma on_mem_descs [simp]:
  "es_tbp (on_mem f s) = es_tbp s" "es_ptrack (on_mem f s) = es_ptrack s" "es_trans (on_mem f s) = es_trans s"
  "es_global_epoch (on_mem f s) = es_global_epoch s" "es_last_epochs (on_mem f s) = es_last_epochs s"
  "es_tbf (on_mem f s) = es_tbf s" "es_task_num (on_mem f s) = es_task_num s" "es_mode (on_mem f s) = es_mode s"
  "es_target (on_mem f s) = es_target s" "es_mem (on_mem f s) = f (es_mem s)"
  by (simp_all add: on_mem_def)

lemma set_last_epoch_simps [simp]:
  "es_tbp (set_last_epoch i c s) = es_tbp s" "es_ptrack (set_last_epoch i c s) = es_ptrack s" "es_mem (set_last_epoch i c s) = es_mem s"
  "es_trans (set_last_epoch i c s) = es_trans s" "es_global_epoch (set_last_epoch i c s) = es_global_epoch s"
  "es_tbf (set_last_epoch i c s) = es_tbf s" "es_task_num (set_last_epoch i c s) = es_task_num s"
  "es_mode (set_last_epoch i c s) = es_mode s" "es_last_epochs (set_last_epoch i c s) = (es_last_epochs s)[i := c]"
  by (simp_all add: set_last_epoch_def)

text \<open>The part of \<^verbatim>\<open>begin_transaction\<close> that notices a new epoch.\<close>

lemma enter_epoch:
  assumes "es_wf n b s" "es_ptrack s = PT_Inc t" "tid < n" "0 < unat ret" "tid < length (es_last_epochs s)" "es_last_epochs s ! tid = le"
  shows "\<exists>s'. (if le \<noteq> ret
       then rbind (if le = ret - 1 then with_ptrack (pt_first_write_on_new_epoch ret tid) (set_last_epoch tid ret s)
                   else Inr (set_last_epoch tid ret s)) (\<lambda>s3.
              let persist_until = min (es_target s3 - 2) (ret - 1) in
              persist_past (Suc (Suc (unat persist_until))) persist_until tid s3)
       else Inr s) = Inr s'
    \<and> es_wf n b s' \<and> view_le (es_mem s) (es_mem s') \<and> local_descs (es_mem s') = local_descs (es_mem s)
    \<and> same_ctl (set_last_epoch tid ret s) s' \<and> (\<exists>t. es_ptrack s' = PT_Inc t)"
proof (cases "le = ret")
  case True
  then show ?thesis using assms by (auto simp: set_last_epoch_def)
next
  case False
  let ?s = "set_last_epoch tid ret s"
  have f: "with_ptrack (pt_first_write_on_new_epoch ret tid) ?s = Inr ?s"
    using assms(2) by (simp add: with_ptrack_def im_first_write_on_new_epoch_def set_last_epoch_def)
  let ?u = "min (es_target ?s - 2) (ret - 1)"
  have "ret - 1 \<noteq> UINT64_MAX"
    using unat_sub_num [of 1 ret] assms(4) unat_max unat_bound [of ret] by auto
  then have u: "?u \<noteq> UINT64_MAX" using max_le_iff [of "ret - 1"] by (metis min.cobounded2)
  have "es_wf n b ?s" "es_ptrack ?s = PT_Inc t" using assms(1,2) by (simp_all add: es_wf_def)
  from persist_past_ends [OF this assms(3) u, of "Suc (Suc (unat ?u))"] show ?thesis
    using False f by (auto simp: Let_def)
qed

text \<open>What the first part of \<^verbatim>\<open>begin_transaction\<close> leaves of the system: the thread's serial number moves on.\<close>

definition entered :: "nat \<Rightarrow> 'v esys \<Rightarrow> 'v esys \<Rightarrow> bool" where
  "entered tid s s' \<longleftrightarrow> m_hdr (es_mem s') = m_hdr (es_mem s) \<and> m_val (es_mem s') = m_val (es_mem s)
     \<and> allocated (es_mem s') = allocated (es_mem s) \<and> es_tbf s' = es_tbf s \<and> es_mode s' = es_mode s \<and> es_task_num s' = es_task_num s
     \<and> es_uid s' = es_uid s \<and> es_ral s' = es_ral s \<and> es_global_epoch s' = es_global_epoch s
     \<and> length (local_descs (es_mem s')) = length (local_descs (es_mem s))
     \<and> (\<forall>i < length (local_descs (es_mem s)). d_tid_sn (local_descs (es_mem s') ! i) =
          d_tid_sn (local_descs (es_mem s) ! i) + (if i = tid then 1 else 0))"

lemma freeing_headers:
  assumes "freeing n b tid c es s s'"
  shows "\<forall>x. m_hdr (es_mem s') x \<noteq> m_hdr (es_mem s) x \<longrightarrow> (\<exists>e \<le> c - 2. awaits_free x tid e (es_tbf s))"
    and "m_val (es_mem s') = m_val (es_mem s)" "es_trans s' = es_trans s" "es_global_epoch s' = es_global_epoch s"
      "es_last_epochs s' = es_last_epochs s" "length (local_descs (es_mem s')) = length (local_descs (es_mem s))"
proof -
  obtain k te where k: "es_tbf s = ThreadLocalFreed k te" "\<forall>e \<in> set es. e \<le> c - 2"
      "deleted_only (fst ` set (freed_of tid es k)) (s\<lparr>es_tbf := es_tbf s'\<rparr>) s'"
    using assms by (auto simp: freeing_def split: tbf.splits)
  show "\<forall>x. m_hdr (es_mem s') x \<noteq> m_hdr (es_mem s) x \<longrightarrow> (\<exists>e \<le> c - 2. awaits_free x tid e (es_tbf s))"
  proof (intro allI impI)
    fix x
    assume "m_hdr (es_mem s') x \<noteq> m_hdr (es_mem s) x"
    then have "x \<in> fst ` set (freed_of tid es k)" using k(3) by (auto simp: deleted_only_def)
    then obtain e where "(x, e) \<in> set (freed_of tid es k)" by auto
    then have "e \<in> set es" "x \<in> set (bucket k tid e)" using set_freed_of by fast+
    then show "\<exists>e \<le> c - 2. awaits_free x tid e (es_tbf s)" using k(1,2) by (auto simp: awaits_free_def)
  qed
  have "map d_tid_sn (local_descs (es_mem s')) = map d_tid_sn (local_descs (es_mem s))" using k(3) by (simp add: deleted_only_def)
  then have "length (local_descs (es_mem s')) = length (local_descs (es_mem s))" by (rule map_eq_imp_length_eq)
  then show "m_val (es_mem s') = m_val (es_mem s)" "es_trans s' = es_trans s" "es_global_epoch s' = es_global_epoch s"
      "es_last_epochs s' = es_last_epochs s" "length (local_descs (es_mem s')) = length (local_descs (es_mem s))"
    using k(3) by (simp_all add: deleted_only_def same_ctl_def)
qed

lemma freeing_desc:
  assumes "freeing n b tid c es s s'"
  shows "freeing n b tid c es s (on_mem (\<lambda>m. m\<lparr>local_descs := (local_descs m)[i := set_up_epoch e (local_descs (es_mem s') ! i)]\<rparr>) s')"
proof -
  have "map d_tid_sn (ds[i := set_up_epoch e (ds ! i)]) = map d_tid_sn ds" for ds
    by (rule nth_equalityI) (auto simp: nth_upd set_up_epoch_def)
  then show ?thesis using assms
    by (auto simp: freeing_def deleted_only_def same_ctl_def on_mem_def split: tbf.splits)
qed

lemma freed_ok_cong:
  "es_tbf s' = es_tbf s \<Longrightarrow> m_hdr (es_mem s') = m_hdr (es_mem s) \<Longrightarrow> freed_ok n tid g s' = freed_ok n tid g s"
  by (simp add: freed_ok_def deletable_def split: tbf.splits)

lemma begin_transaction_total:
  assumes "between_ops n b A tid s"
  shows "\<exists>s' s0 es. begin_transaction tid s = Inr (es_global_epoch s, s') \<and> es_global_epoch s' = es_global_epoch s
    \<and> tt_rep n (A(tid \<mapsto> es_global_epoch s)) (es_trans s') \<and> es_last_epochs s' = (es_last_epochs s)[tid := es_global_epoch s]
    \<and> entered tid s s0 \<and> freeing n b tid (es_global_epoch s) es s0 s' \<and> (\<exists>t. es_ptrack s' = PT_Inc t) \<and> pt_wf n (es_ptrack s')"
proof -
  let ?g = "es_global_epoch s" and ?d = "local_descs (es_mem s) ! tid"
  obtain t where t: "tid < n" "es_wf n b s" "es_ptrack s = PT_Inc t" "tt_rep n A (es_trans s)" "A tid = None"
      "length (es_last_epochs s) = n" "es_mode s = ONLINE" "0 < unat ?g" "unat ?g < 2 ^ 64 - 1"
      "get_sn (d_tid_sn ?d) \<noteq> 0xffffffffffff" "freed_ok n tid ?g s" "waiting_of tid (es_tbf s) \<le> b"
    using assms by (auto simp: between_ops_def)
  have ld: "tid < length (local_descs (es_mem s))" "tid < es_task_num s" using t(1,2) by (auto simp: es_wf_def)
  have g0: "?g \<noteq> NULL_EPOCH" using t(8) by auto
  obtain d where d: "desc_reinit ?d = Inr d"
    using t(10) by (simp add: desc_reinit_def increment_sn_def get_sn_def rassert_def and.commute)
  then have sn: "d_tid_sn d = d_tid_sn ?d + 1" by (auto simp: desc_reinit_def increment_sn_def rassert_def split: if_splits)
  let ?s1 = "on_mem (\<lambda>m. m\<lparr>local_descs := (local_descs m)[tid := d]\<rparr>) s"
  have s1: "with_desc tid desc_reinit s = Inr ?s1" using with_desc_total [of tid s desc_reinit d] ld(1) d by simp
  from ttt.reg_law [OF t(4,1,5) g0, of ?g ?g] obtain tt where
    tt: "tt_register_active tid ?g ?g ?g (es_trans s) = Inr (True, tt)" "tt_rep n (A(tid \<mapsto> ?g)) tt" by auto
  let ?s2 = "?s1\<lparr>es_trans := tt\<rparr>"
  have s2: "register_active tid ?g ?s1 = Inr ?s2" using tt(1) by (simp add: register_active_def)
  have w2: "es_wf n b ?s2" "es_ptrack ?s2 = PT_Inc t" using t(2,3) by (simp_all add: es_wf_def)
  from enter_epoch [OF w2 t(1,8), of "es_last_epochs s ! tid"] t(1,6) obtain s4 where
    s4: "(if es_last_epochs s ! tid \<noteq> ?g
       then rbind (if es_last_epochs s ! tid = ?g - 1
                   then with_ptrack (pt_first_write_on_new_epoch ?g tid) (set_last_epoch tid ?g ?s2)
                   else Inr (set_last_epoch tid ?g ?s2)) (\<lambda>s3.
              let persist_until = min (es_target s3 - 2) (?g - 1) in
              persist_past (Suc (Suc (unat persist_until))) persist_until tid s3)
       else Inr ?s2) = Inr s4"
      "es_wf n b s4" "view_le (es_mem ?s2) (es_mem s4)" "local_descs (es_mem s4) = local_descs (es_mem ?s2)"
      "same_ctl (set_last_epoch tid ?g ?s2) s4" "\<exists>t. es_ptrack s4 = PT_Inc t" by auto
  have m4: "m_hdr (es_mem s4) = m_hdr (es_mem s)" using s4(3) by (simp add: view_le_def)
  have c4: "es_global_epoch s4 = ?g" "es_trans s4 = tt" "es_tbf s4 = es_tbf s" "es_mode s4 = ONLINE"
      "tid < es_task_num s4" "es_last_epochs s4 = (es_last_epochs s)[tid := ?g]"
    using s4(5) t(7) ld(2) by (simp_all add: same_ctl_def)
  have ent: "entered tid s s4"
    using s4(3,5) sn ld(1) unfolding entered_def same_ctl_def view_le_def s4(4)
    by (simp add: nth_list_update on_mem_def set_last_epoch_def)
  have "freed_ok n tid ?g s4" using freed_ok_cong [of s4 s] c4(3) m4(1) t(11) by simp
  from free_on_new_epoch_total [OF this t(1,9) c4(4,5), of b] s4(2) t(12) c4(3) obtain s5 es where
    s5: "on_tbf (tbf_free_on_new_epoch (delete_pblk tid) ?g tid) s4 = Inr s5" "freeing n b tid ?g es s4 s5"
    by (auto simp: es_wf_def)
  note h5 = freeing_headers [OF s5(2)]
  let ?f = "\<lambda>d. (Inr (set_up_epoch ?g d) :: sc_desc res)"
  let ?s6 = "on_mem (\<lambda>m. m\<lparr>local_descs := (local_descs m)[tid := set_up_epoch ?g (local_descs (es_mem s5) ! tid)]\<rparr>) s5"
  have "tid < length (local_descs (es_mem s5))" using ld(1) s4(4) h5(6) by simp
  then have s6: "with_desc tid ?f s5 = Inr ?s6" using with_desc_total [of tid s5 ?f] by simp
  have fr: "freeing n b tid ?g es s4 ?s6" by (rule freeing_desc [OF s5(2)])
  have e: "es_global_epoch ?s1 = ?g" "rnth (es_last_epochs ?s2) tid = Inr (es_last_epochs s ! tid)" using t(1,6) by simp_all
  have "begin_transaction tid s = Inr (?g, ?s6)"
    by (simp only: begin_transaction_def Let_def s1 rbind_Inr e s2 s4(1) [unfolded Let_def] s5(1) s6)
  moreover have "es_ptrack ?s6 = es_ptrack s4" using fr by (auto simp: freeing_def deleted_only_def split: tbf.splits)
  ultimately show ?thesis using ent fr h5(3-5) c4 tt(2) s4(2,6)
    by (intro exI [of _ ?s6] exI [of _ s4] exI [of _ es]) (simp add: es_wf_def)
qed

section \<open>Properties\<close>



end
