(* ===== verification/Payload_Store.thy ===== *)
theory Payload_Store
  imports Transactions "HOL-Library.Multiset"
begin

text \<open>
  The contract between \<^verbatim>\<open>Recoverable\<close> and the structures built on it, for one operation at a time: what the
  payloads a structure holds read as, and that \<^verbatim>\<open>pnew\<close>, \<^verbatim>\<open>begin_op\<close>, the accessors, \<^verbatim>\<open>pdelete\<close> and \<^verbatim>\<open>end_op\<close> succeed and
  change them as their names say, while blocks that wait for reclamation are deleted when threads enter new epochs.
  The budget \<^term>\<open>b\<close> counts steps before a 64-bit counter of a buffer, a 48-bit serial number or the heap runs out.
\<close>

section \<open>Blocks that wait for reclamation\<close>

fun retired_blocks :: "tbf \<Rightarrow> addr list" where
  "retired_blocks (ThreadLocalFreed k te) = concat (concat k)"
| "retired_blocks (PerEpochFreed k) = concat (concat k)"
| "retired_blocks NoToBeFreed = []"

lemma mset_concat_update:
  "i < length xss \<Longrightarrow> mset (concat (xss[i := ys])) + mset (xss ! i) = mset (concat xss) + mset ys"
proof (induction xss arbitrary: i)
  case (Cons xs xss)
  then show ?case by (cases i) (simp_all add: ac_simps)
qed simp

lemma mset_cell_update:
  assumes "i < length k" "j < length (k ! i)"
  shows "mset (concat (concat (k[i := (k ! i)[j := ys]]))) + mset (k ! i ! j) = mset (concat (concat k)) + mset ys"
proof -
  have c: "mset (concat ks) = (\<Sum>\<^sub># (image_mset mset (mset ks)))" for ks :: "'a list list"
    by (induction ks) simp_all
  obtain R where R: "mset (k ! i) = add_mset (k ! i ! j) R" using assms(2) by (metis mset_add nth_mem_mset)
  have "mset (concat (k[i := (k ! i)[j := ys]])) + mset (k ! i) = mset (concat k) + mset ((k ! i)[j := ys])"
    by (rule mset_concat_update [OF assms(1)])
  also have "mset ((k ! i)[j := ys]) = add_mset ys R" using mset_update [OF assms(2)] R by simp
  finally have "mset (concat (k[i := (k ! i)[j := ys]])) + {#k ! i ! j#} = mset (concat k) + {#ys#}"
    using R by simp
  then have "(\<Sum>\<^sub># (image_mset mset (mset (concat (k[i := (k ! i)[j := ys]])) + {#k ! i ! j#})))
      = (\<Sum>\<^sub># (image_mset mset (mset (concat k) + {#ys#})))" by simp
  then show ?thesis unfolding c by (simp add: ac_simps)
qed

lemma vc_push_retired:
  assumes "vc_wf n k" "tid < n"
  shows "\<exists>k'. vc_push a tid c k = Inr k' \<and> vc_wf n k' \<and> mset (concat (concat k')) = add_mset a (mset (concat (concat k)))
    \<and> (\<forall>u e. bucket k' u e = (if u = tid \<and> slot e = slot c then bucket k u e @ [a] else bucket k u e))"
proof -
  let ?k = "k[slot c := (k ! slot c)[tid := k ! slot c ! tid @ [a]]]"
  have s: "slot c < length k" "tid < length (k ! slot c)" using assms by (simp_all add: vc_wf_def)
  have "vc_push a tid c k = Inr ?k" using s by (simp add: vc_push_def ptv_push_def)
  moreover have "vc_wf n ?k" using assms by (auto simp: vc_wf_def nth_upd)
  moreover have "mset (concat (concat ?k)) = add_mset a (mset (concat (concat k)))"
    using mset_cell_update [OF s, of "k ! slot c ! tid @ [a]"] by simp
  moreover have "bucket ?k u e = (if u = tid \<and> slot e = slot c then bucket k u e @ [a] else bucket k u e)" for u e
    using s by (auto simp: bucket_def nth_upd)
  ultimately show ?thesis by blast
qed

lemma drop_retired:
  assumes "vc_wf n k" "tid < n" "distinct (map slot es)"
  shows "mset (concat (concat (fold (drop_bucket tid) es k))) + mset (map fst (freed_of tid es k)) = mset (concat (concat k))"
  using assms
proof (induction es arbitrary: k)
  case (Cons e es)
  let ?k = "drop_bucket tid e k"
  have s: "slot e < length k" "tid < length (k ! slot e)" using Cons.prems by (simp_all add: vc_wf_def)
  have "bucket ?k tid e' = bucket k tid e'" if "e' \<in> set es" for e'
    using imageI [OF that, of slot] bucket_drop [OF Cons.prems(1,2), of e tid e'] Cons.prems(3) by auto
  then have f: "freed_of tid es ?k = freed_of tid es k" by (simp add: freed_of_def cong: map_cong)
  have "mset (concat (concat ?k)) + mset (bucket k tid e) = mset (concat (concat k))"
    using mset_cell_update [OF s, of "[]"] by (simp add: drop_bucket_def bucket_def)
  moreover have "mset (map fst (freed_of tid (e # es) k)) = mset (bucket k tid e) + mset (map fst (freed_of tid es k))"
    by (simp add: freed_of_def comp_def)
  moreover have "mset (concat (concat (fold (drop_bucket tid) es ?k))) + mset (map fst (freed_of tid es k)) = mset (concat (concat ?k))"
    using Cons.IH [OF drop_bucket_wf [OF Cons.prems(1)] Cons.prems(2), of tid e] Cons.prems(3) f by simp
  ultimately show ?case by (simp only: fold_simps ac_simps)
qed (simp add: freed_of_def)

lemma waiting_le_retired: "vc_wf n k \<Longrightarrow> tid < n \<Longrightarrow> waiting tid k \<le> length (concat (concat k))"
proof -
  assume k: "vc_wf n k" "tid < n"
  have le: "length (k ! s ! tid) \<le> length (concat (k ! s))" if "s < EPOCH_WINDOW" for s
    using k that elem_le_sum_list [of tid "map length (k ! s)"] by (simp add: vc_wf_def length_concat)
  have len: "length (concat (concat k)) = sum_list (map (\<lambda>r. length (concat r)) k)" for k :: "addr vc"
    by (induction k) simp_all
  have "waiting tid k \<le> (\<Sum>s < EPOCH_WINDOW. length (concat (k ! s)))"
    unfolding waiting_def using le by (intro sum_mono) simp
  also have "\<dots> = length (concat (concat k))"
    using k(1) unfolding len by (simp add: vc_wf_def sum_list_sum_nth atLeast0LessThan)
  finally show ?thesis .
qed

section \<open>The invariant\<close>

definition fresh_addr :: "addr \<Rightarrow> addr set \<Rightarrow> bool" where
  "fresh_addr a S \<longleftrightarrow> a \<notin> S \<and> a \<noteq> 0 \<and> \<not> is_raw a"

text \<open>The allocator has room for \<^term>\<open>b\<close> more blocks.\<close>

definition heap_room :: "nat \<Rightarrow> 'v esys \<Rightarrow> bool" where
  "heap_room b s \<longleftrightarrow> finite (allocated (es_mem s))
     \<and> (\<forall>S. finite S \<and> card S \<le> card (allocated (es_mem s)) + b \<longrightarrow> fresh_addr (es_ral s S) S)"

definition sys_ready :: "nat \<Rightarrow> nat \<Rightarrow> 'v esys \<Rightarrow> bool" where
  "sys_ready n b s \<longleftrightarrow> 0 < n \<and> es_task_num s = n \<and> pt_wf n (es_ptrack s) \<and> (\<exists>t. es_ptrack s = PT_Inc t)
     \<and> n \<le> length (local_descs (es_mem s)) \<and> length (es_last_epochs s) = n \<and> es_mode s = ONLINE
     \<and> (\<exists>ids. curr_ids (es_uid s) = Some ids \<and> n \<le> length ids)
     \<and> (\<forall>i < n. unat (get_sn (d_tid_sn (local_descs (es_mem s) ! i))) + b < 2 ^ 48)"

fun tbf_epochs :: "tbf \<Rightarrow> u64 list" where
  "tbf_epochs (ThreadLocalFreed k te) = te"
| "tbf_epochs _ = []"

definition freed_part :: "nat \<Rightarrow> u64 \<Rightarrow> tbf \<Rightarrow> bool" where
  "freed_part n g f \<longleftrightarrow> (case f of
     ThreadLocalFreed k te \<Rightarrow> vc_wf n k \<and> length te = n \<and> (\<forall>u < n. 3 \<le> unat (te ! u) \<and> te ! u \<le> g \<and> window_ok u (te ! u) k)
   | _ \<Rightarrow> False)"

text \<open>A payload: pending ones (\<^term>\<open>P\<close>) wait for the next \<^verbatim>\<open>begin_op\<close>, the others belong to an epoch up to \<^term>\<open>g\<close>.\<close>

definition payload_hdr :: "bool \<Rightarrow> u64 \<Rightarrow> phdr \<Rightarrow> bool" where
  "payload_hdr pd g h \<longleftrightarrow> (if pd then h = PBlk_new
     else pb_epoch h \<noteq> NULL_EPOCH \<and> pb_epoch h \<le> g \<and> (pb_blktype h = ALLOC \<or> pb_blktype h = UPDATE))"

definition payloads_ok :: "addr set \<Rightarrow> (addr \<rightharpoonup> 'v) \<Rightarrow> u64 \<Rightarrow> 'v esys \<Rightarrow> bool" where
  "payloads_ok P V g s \<longleftrightarrow> (\<forall>a v. V a = Some v \<longrightarrow> m_val (es_mem s) a = Some v \<and> a \<in> allocated (es_mem s) \<and> a \<noteq> 0 \<and> \<not> is_raw a
     \<and> (\<exists>h. m_hdr (es_mem s) a = Some h \<and> payload_hdr (a \<in> P) g h))"

definition retired_ok :: "(addr \<rightharpoonup> 'v) \<Rightarrow> 'v esys \<Rightarrow> bool" where
  "retired_ok V s \<longleftrightarrow> distinct (retired_blocks (es_tbf s))
     \<and> (\<forall>a \<in> set (retired_blocks (es_tbf s)). a \<in> allocated (es_mem s) \<and> deletable a s \<and> V a = None)"

definition core :: "nat \<Rightarrow> nat \<Rightarrow> addr set \<Rightarrow> (addr \<rightharpoonup> 'v) \<Rightarrow> u64 \<Rightarrow> 'v esys \<Rightarrow> bool" where
  "core n b P V g s \<longleftrightarrow> sys_ready n b s \<and> heap_room b s \<and> freed_part n g (es_tbf s) \<and> payloads_ok P V g s \<and> retired_ok V s
     \<and> tbp_inv n (b + length (retired_blocks (es_tbf s))) (es_tbp s)"

text \<open>A block that is neither a payload of the structure nor waiting for reclamation.\<close>

definition spare :: "addr \<Rightarrow> (addr \<rightharpoonup> 'v) \<Rightarrow> 'v esys \<Rightarrow> bool" where
  "spare a V s \<longleftrightarrow> a \<in> allocated (es_mem s) \<and> deletable a s \<and> V a = None \<and> a \<notin> set (retired_blocks (es_tbf s))"

text \<open>What the operations on blocks leave of the running operation.\<close>

definition same_run :: "'v esys \<Rightarrow> 'v esys \<Rightarrow> bool" where
  "same_run s s' \<longleftrightarrow> es_trans s' = es_trans s \<and> es_global_epoch s' = es_global_epoch s \<and> tbf_epochs (es_tbf s') = tbf_epochs (es_tbf s)"

lemma same_run_refl [simp]: "same_run s s"
  by (simp add: same_run_def)

lemma same_run_trans: "same_run s s1 \<Longrightarrow> same_run s1 s2 \<Longrightarrow> same_run s s2"
  by (simp add: same_run_def)

lemma tbp_inv_mono:
  assumes "tbp_inv n b t" "b' \<le> b"
  shows "tbp_inv n b' t"
proof -
  have "cells_inv fcb_budget n b' k" if "cells_inv fcb_budget n b k" for k :: "addr fcb list list"
    using that assms(2) by (fastforce simp: cells_inv_def fcb_budget_def)
  moreover have "fc_inv n b' k" if "fc_inv n b k" for k
    using that calculation by (cases k) (auto simp: cells_inv_def)
  ultimately show ?thesis using assms(1) by (auto simp: tbp_inv_def split: tbp_kind.splits)
qed

lemma core_mono: "core n b P V g s \<Longrightarrow> b' \<le> b \<Longrightarrow> core n b' P V g s"
  unfolding core_def sys_ready_def heap_room_def
  by (auto intro: tbp_inv_mono)

section \<open>Blocks\<close>

lemma core_forget:
  assumes "core n b P V g s" "V a = Some v" "a \<notin> P"
  shows "core n b P (V(a := None)) g s" "spare a (V(a := None)) s"
proof -
  show "core n b P (V(a := None)) g s" using assms(1) by (auto simp: core_def payloads_ok_def retired_ok_def)
  have "a \<notin> set (retired_blocks (es_tbf s))" using assms by (auto simp: core_def retired_ok_def)
  moreover have "deletable a s" "a \<in> allocated (es_mem s)"
    using assms(1,2) unfolding core_def payloads_ok_def deletable_def by fastforce+
  ultimately show "spare a (V(a := None)) s" by (simp add: spare_def)
qed

lemma core_adopt:
  assumes "core n b P V g s" "spare a V s" "m_hdr (es_mem s) a = Some h" "payload_hdr (a \<in> P') g h" "m_val (es_mem s) a = Some v"
    and "P' - {a} = P - {a}"
  shows "core n b P' (V(a \<mapsto> v)) g s"
proof -
  have P: "(x \<in> P') = (x \<in> P)" if "x \<noteq> a" for x using assms(6) that by blast
  have "payloads_ok P' (V(a \<mapsto> v)) g s"
    using assms(1-5) P by (auto simp: core_def payloads_ok_def spare_def deletable_def)
  moreover have "retired_ok (V(a \<mapsto> v)) s" using assms(1,2) by (auto simp: core_def retired_ok_def spare_def)
  ultimately show ?thesis using assms(1) by (simp add: core_def)
qed

lemma core_new:
  assumes "core n (Suc b) P V g s" "new_pblk h w s = (a, s')"
  shows "core n b P V g s'" "spare a V s'" "m_hdr (es_mem s') a = Some h" "\<And>v. w = Some v \<Longrightarrow> m_val (es_mem s') a = Some v"
    "same_run s s'" "a \<notin> allocated (es_mem s)"
    "\<And>x. x \<noteq> a \<Longrightarrow> m_hdr (es_mem s') x = m_hdr (es_mem s) x \<and> m_val (es_mem s') x = m_val (es_mem s) x"
    "\<And>x. spare x V s \<Longrightarrow> spare x V s' \<and> x \<noteq> a"
proof -
  note m = new_pblk_mem [OF assms(2)]
  have c: "sys_ready n (Suc b) s" "heap_room (Suc b) s" "freed_part n g (es_tbf s)" "payloads_ok P V g s" "retired_ok V s"
      "tbp_inv n (Suc b + length (retired_blocks (es_tbf s))) (es_tbp s)" using assms(1) by (simp_all add: core_def)
  have a: "fresh_addr a (allocated (es_mem s))" "finite (allocated (es_mem s))" using c(2) m(1) by (simp_all add: heap_room_def)
  have f: "es_tbf s' = es_tbf s" "es_tbp s' = es_tbp s" "es_ral s' = es_ral s" "es_trans s' = es_trans s"
      "es_global_epoch s' = es_global_epoch s"
    by (subst m(7), simp)+
  have v: "m_val (es_mem s') x = m_val (es_mem s) x" if "x \<noteq> a" for x using m(3) that by (auto split: option.splits)
  have V: "V a = None" using a(1) c(4) by (cases "V a") (auto simp: payloads_ok_def fresh_addr_def)
  have W: "a \<notin> set (retired_blocks (es_tbf s))" using a(1) c(5) by (auto simp: retired_ok_def fresh_addr_def)
  have "sys_ready n b s'" using c(1) m(8) by (subst m(7)) (auto simp: sys_ready_def)
  moreover have "heap_room b s'" using c(2) a f(3) m(6) by (simp add: heap_room_def fresh_addr_def)
  moreover have "payloads_ok P V g s'" unfolding payloads_ok_def
  proof (intro allI impI)
    fix x v'
    assume x: "V x = Some v'"
    then have "x \<noteq> a" using V by auto
    with x c(4) show "m_val (es_mem s') x = Some v' \<and> x \<in> allocated (es_mem s') \<and> x \<noteq> 0 \<and> \<not> is_raw x
        \<and> (\<exists>h. m_hdr (es_mem s') x = Some h \<and> payload_hdr (x \<in> P) g h)"
      using v [of x] m(2,6) by (auto simp: payloads_ok_def)
  qed
  moreover have "retired_ok V s'" using c(5) f(1) m(2,6) by (auto simp: retired_ok_def deletable_def)
  ultimately show "core n b P V g s'" using c(3,6) f tbp_inv_mono [OF c(6), of "b + length (retired_blocks (es_tbf s))"] by (simp add: core_def)
  show "spare a V s'" using a(1) V W f(1) m(2,6) by (simp add: spare_def deletable_def fresh_addr_def)
  show "m_hdr (es_mem s') a = Some h" "\<And>v. w = Some v \<Longrightarrow> m_val (es_mem s') a = Some v" using m(2,3) by simp_all
  show "same_run s s'" using f by (simp add: same_run_def)
  show "a \<notin> allocated (es_mem s)" using a(1) by (simp add: fresh_addr_def)
  show "\<And>x. x \<noteq> a \<Longrightarrow> m_hdr (es_mem s') x = m_hdr (es_mem s) x \<and> m_val (es_mem s') x = m_val (es_mem s) x"
    using m(2) v by simp
  show "\<And>x. spare x V s \<Longrightarrow> spare x V s' \<and> x \<noteq> a"
    using a(1) f(1) m(2,6) by (auto simp: spare_def deletable_def fresh_addr_def)
qed

lemma core_view:
  assumes "core n b P V g s" "same_view (es_mem s) m" "tbp_inv n (b' + length (retired_blocks (es_tbf s))) t" "b' \<le> b"
  shows "core n b' P V g (s\<lparr>es_tbp := t, es_mem := m\<rparr>)"
  using core_mono [OF assms(1,4)] assms(2,3)
  by (simp add: core_def same_view_def sys_ready_def heap_room_def payloads_ok_def retired_ok_def deletable_def)

lemma core_register:
  assumes "core n (Suc b) P V g s" "tid < n" "a \<noteq> 0" "\<not> is_raw a" "c \<noteq> NULL_EPOCH"
  shows "\<exists>s'. on_tbp (tbp_register_persist a c tid) s = Inr s' \<and> core n b P V g s' \<and> same_run s s' \<and> same_view (es_mem s) (es_mem s')
    \<and> es_tbf s' = es_tbf s"
proof -
  have "tbp_inv n (Suc (b + length (retired_blocks (es_tbf s)))) (es_tbp s)" using assms(1) by (simp add: core_def)
  with tbp_register_persist_ok [of n "b + length (retired_blocks (es_tbf s))" "(es_tbp s, es_mem s)" tid a c] assms(2-5) obtain st where
    st: "tbp_register_persist a c tid (es_tbp s, es_mem s) = Inr st"
      "reg_ok n (b + length (retired_blocks (es_tbf s))) a c tid (es_tbp s, es_mem s) st" by auto
  let ?s' = "s\<lparr>es_tbp := fst st, es_mem := snd st\<rparr>"
  have v: "same_view (es_mem s) (snd st)" "tbp_inv n (b + length (retired_blocks (es_tbf s))) (fst st)"
    using st(2) by (simp_all add: reg_ok_def)
  have "on_tbp (tbp_register_persist a c tid) s = Inr ?s'" using st(1) by (simp add: on_tbp_def split: prod.splits)
  then show ?thesis using core_view [OF assms(1) v] v(1) by (intro exI [of _ ?s']) (simp add: same_run_def)
qed

lemma core_header:
  assumes "core n b P V g s" "a \<in> allocated (es_mem s)" "a \<noteq> 0" "\<not> is_raw a" "V a \<noteq> None \<Longrightarrow> payload_hdr (a \<in> P') g h"
    and "P' - {a} = P - {a}"
  shows "core n b P' V g (update_block a h s)" "same_run s (update_block a h s)"
proof -
  have P: "(x \<in> P') = (x \<in> P)" if "x \<noteq> a" for x using assms(6) that by blast
  have m: "m_hdr (es_mem (update_block a h s)) = (m_hdr (es_mem s))(a \<mapsto> h)" by simp
  have f: "update_block a h s = s\<lparr>es_mem := (es_mem s)\<lparr>m_hdr := (m_hdr (es_mem s))(a \<mapsto> h)\<rparr>\<rparr>"
    by (simp add: update_block_def on_mem_def set_hdr_def)
  show "core n b P' V g (update_block a h s)" unfolding core_def
  proof (intro conjI)
    show "payloads_ok P' V g (update_block a h s)" unfolding payloads_ok_def
    proof (intro allI impI)
      fix x v
      assume x: "V x = Some v"
      then have "m_val (es_mem s) x = Some v \<and> x \<in> allocated (es_mem s) \<and> x \<noteq> 0 \<and> \<not> is_raw x
          \<and> (\<exists>h. m_hdr (es_mem s) x = Some h \<and> payload_hdr (x \<in> P) g h)" using assms(1) by (simp add: core_def payloads_ok_def)
      then show "m_val (es_mem (update_block a h s)) x = Some v \<and> x \<in> allocated (es_mem (update_block a h s)) \<and> x \<noteq> 0 \<and> \<not> is_raw x
          \<and> (\<exists>h'. m_hdr (es_mem (update_block a h s)) x = Some h' \<and> payload_hdr (x \<in> P') g h')"
        using assms(5) x P [of x] unfolding f by auto
    qed
  qed (use assms(1) in \<open>simp_all add: f core_def sys_ready_def heap_room_def retired_ok_def deletable_def\<close>)
  show "same_run s (update_block a h s)" by (simp add: f same_run_def)
qed

lemma core_value:
  assumes "core n b P V g s" "V a = Some v"
  shows "core n b P (V(a \<mapsto> v')) g (on_mem (set_val a v') s)" "same_run s (on_mem (set_val a v') s)"
proof -
  let ?s = "on_mem (set_val a v') s"
  have f: "?s = s\<lparr>es_mem := (es_mem s)\<lparr>m_val := (m_val (es_mem s))(a \<mapsto> v')\<rparr>\<rparr>" by (simp add: on_mem_def set_val_def)
  have "payloads_ok P (V(a \<mapsto> v')) g ?s"
    using assms by (auto simp: f core_def payloads_ok_def)
  moreover have "retired_ok (V(a \<mapsto> v')) ?s" using assms by (auto simp: f core_def retired_ok_def deletable_def)
  ultimately show "core n b P (V(a \<mapsto> v')) g ?s"
    using assms(1) by (simp add: f core_def sys_ready_def heap_room_def)
  show "same_run s ?s" by (simp add: f same_run_def)
qed

lemma core_deleted:
  assumes c: "core n b P V g s" and d: "deleted_only D s s'" "tbp_inv n (b' + length (retired_blocks (es_tbf s))) (es_tbp s')"
    and D: "D \<subseteq> allocated (es_mem s)" "\<forall>a \<in> D. V a = None" "D \<inter> set (retired_blocks (es_tbf s)) = {}" and b: "b' \<le> b"
  shows "core n b' P V g s'" "same_run s s'"
proof -
  have k: "core n b' P V g s" using core_mono [OF c b] .
  have m: "map d_tid_sn (local_descs (es_mem s')) = map d_tid_sn (local_descs (es_mem s))" using d(1) by (simp add: deleted_only_def)
  have l: "length (local_descs (es_mem s')) = length (local_descs (es_mem s))" using m by (rule map_eq_imp_length_eq)
  have sn: "d_tid_sn (local_descs (es_mem s') ! i) = d_tid_sn (local_descs (es_mem s) ! i)" if "i < length (local_descs (es_mem s))" for i
    using arg_cong [OF m, of "\<lambda>xs. xs ! i"] that l by simp
  have e: "es_task_num s' = es_task_num s" "es_ptrack s' = es_ptrack s" "es_last_epochs s' = es_last_epochs s" "es_mode s' = es_mode s"
      "es_uid s' = es_uid s" "es_ral s' = es_ral s" "es_tbf s' = es_tbf s" "allocated (es_mem s') = allocated (es_mem s) - D"
      "m_val (es_mem s') = m_val (es_mem s)"
    using d(1) by (simp_all add: deleted_only_def same_ctl_def)
  have "sys_ready n b' s'" using k sn l unfolding core_def sys_ready_def e by (auto dest: order_less_le_trans)
  moreover have "heap_room b' s'" unfolding heap_room_def e
  proof (intro conjI allI impI)
    show "finite (allocated (es_mem s) - D)" using k by (simp add: core_def heap_room_def)
    fix S :: "addr set"
    assume S: "finite S \<and> card S \<le> card (allocated (es_mem s) - D) + b'"
    then have "card S \<le> card (allocated (es_mem s)) + b'"
      using card_mono [of "allocated (es_mem s)" "allocated (es_mem s) - D"] k by (auto simp: core_def heap_room_def)
    with S k show "fresh_addr (es_ral s S) S" by (simp add: core_def heap_room_def)
  qed
  moreover have "payloads_ok P V g s'" unfolding payloads_ok_def
  proof (intro allI impI)
    fix x v
    assume x: "V x = Some v"
    then have "x \<notin> D" using D(2) by auto
    then have "m_hdr (es_mem s') x = m_hdr (es_mem s) x" using d(1) by (simp add: deleted_only_def)
    with x \<open>x \<notin> D\<close> k show "m_val (es_mem s') x = Some v \<and> x \<in> allocated (es_mem s') \<and> x \<noteq> 0 \<and> \<not> is_raw x
        \<and> (\<exists>h. m_hdr (es_mem s') x = Some h \<and> payload_hdr (x \<in> P) g h)" by (simp add: e core_def payloads_ok_def)
  qed
  moreover have "deletable a s'" if "deletable a s" for a using that d(1) by (simp add: deletable_def deleted_only_def)
  then have "retired_ok V s'" using k D(3) unfolding core_def retired_ok_def e by fastforce
  ultimately show "core n b' P V g s'" using k d(2) by (simp add: core_def e)
  show "same_run s s'" using d(1) by (simp add: same_run_def deleted_only_def same_ctl_def)
qed

lemma core_delete:
  assumes "core n (Suc b) P V g s" "spare a V s" "tid < n" "c \<noteq> NULL_EPOCH"
  shows "\<exists>s'. delete_pblk tid a c s = Inr s' \<and> core n b P V g s' \<and> same_run s s'"
proof -
  have k: "es_mode s = ONLINE" "tid < es_task_num s" "tbp_inv n (Suc (b + length (retired_blocks (es_tbf s)))) (es_tbp s)"
    using assms(1,3) by (simp_all add: core_def sys_ready_def)
  have a: "a \<noteq> 0" "\<not> is_raw a" "m_hdr (es_mem s) a \<noteq> None" "a \<in> allocated (es_mem s)" "V a = None" "a \<notin> set (retired_blocks (es_tbf s))"
    using assms(2) by (auto simp: spare_def deletable_def)
  from delete_pblk_ok [OF k(1,2) assms(4) a(1-3) k(3) assms(3)] obtain s' where
    s': "delete_pblk tid a c s = Inr s'" "deleted_only {a} s s'" "tbp_inv n (b + length (retired_blocks (es_tbf s))) (es_tbp s')" by blast
  show ?thesis using core_deleted [OF assms(1) s'(2,3)] a s'(1) by auto
qed

text \<open>The epoch a thread last entered, by its record in the container.\<close>

definition in_epoch :: "nat \<Rightarrow> u64 \<Rightarrow> 'v esys \<Rightarrow> bool" where
  "in_epoch tid c s \<longleftrightarrow> tid < length (tbf_epochs (es_tbf s)) \<and> tbf_epochs (es_tbf s) ! tid = c"

lemma in_epoch_run: "same_run s s' \<Longrightarrow> in_epoch tid c s' = in_epoch tid c s"
  by (simp add: same_run_def in_epoch_def)

lemma core_retire:
  assumes "core n (Suc b) P V g s" "spare a V s" "in_epoch tid c s" "e = c \<or> e = c + 1"
  shows "\<exists>f. register_free tid a e s = Inr (s\<lparr>es_tbf := f\<rparr>) \<and> core n b P V g (s\<lparr>es_tbf := f\<rparr>) \<and> same_run s (s\<lparr>es_tbf := f\<rparr>)
    \<and> set (retired_blocks f) = insert a (set (retired_blocks (es_tbf s)))"
proof -
  obtain k te where k: "es_tbf s = ThreadLocalFreed k te" "vc_wf n k" "length te = n"
      "\<forall>u < n. 3 \<le> unat (te ! u) \<and> te ! u \<le> g \<and> window_ok u (te ! u) k"
    using assms(1) by (auto simp: core_def freed_part_def split: tbf.splits)
  have t: "tid < n" "te ! tid = c" using assms(3) k(1,3) by (simp_all add: in_epoch_def)
  from vc_push_retired [OF k(2) t(1), of a e] obtain k' where
    k': "vc_push a tid e k = Inr k'" "vc_wf n k'" "mset (concat (concat k')) = add_mset a (mset (concat (concat k)))"
      "\<forall>u x. bucket k' u x = (if u = tid \<and> slot x = slot e then bucket k u x @ [a] else bucket k u x)" by blast
  let ?f = "ThreadLocalFreed k' te" and ?s = "s\<lparr>es_tbf := ThreadLocalFreed k' te\<rparr>"
  have R: "mset (retired_blocks ?f) = add_mset a (mset (retired_blocks (es_tbf s)))" using k'(3) k(1) by simp
  have S: "set (retired_blocks ?f) = insert a (set (retired_blocks (es_tbf s)))" using arg_cong [OF R, of set_mset] by simp
  have L: "length (retired_blocks ?f) = Suc (length (retired_blocks (es_tbf s)))" using arg_cong [OF R, of size] by simp
  have a: "a \<noteq> 0" "a \<in> allocated (es_mem s)" "deletable a s" "V a = None" "a \<notin> set (retired_blocks (es_tbf s))"
    using assms(2) by (auto simp: spare_def deletable_def)
  have "mset (retired_blocks ?f) = mset (a # retired_blocks (es_tbf s))" using R by simp
  then have D: "distinct (retired_blocks ?f)"
    using assms(1) a(5) mset_eq_imp_distinct_iff by (fastforce simp: core_def retired_ok_def simp del: retired_blocks.simps)
  have w: "window_ok u (te ! u) k'" if "u < n" for u
    using k(4) that k'(4) t assms(4) by (auto simp: window_ok_def)
  have "register_free tid a e s = Inr ?s" using k(1) k'(1) a(1) by (simp add: register_free_def on_tbf_def rassert_def)
  moreover have "core n b P V g ?s"
  proof -
    have c: "sys_ready n b s" "heap_room b s" "payloads_ok P V g s" "retired_ok V s"
      using core_mono [OF assms(1), of b] by (simp_all add: core_def)
    have "sys_ready n b ?s" "heap_room b ?s" "payloads_ok P V g ?s"
      using c by (simp_all add: sys_ready_def heap_room_def payloads_ok_def)
    moreover have "freed_part n g (es_tbf ?s)" using k(3,4) k'(2) w by (simp add: freed_part_def)
    moreover have "retired_ok V ?s" using D S a c(4) by (simp add: retired_ok_def deletable_def del: retired_blocks.simps)
    moreover have "tbp_inv n (b + length (retired_blocks (es_tbf ?s))) (es_tbp ?s)"
      using assms(1) L by (simp add: core_def del: retired_blocks.simps)
    ultimately show ?thesis by (simp add: core_def del: retired_blocks.simps)
  qed
  ultimately show ?thesis using S k(1) by (intro exI [of _ ?f]) (simp add: same_run_def)
qed

lemma core_payload:
  assumes "core n b P V g s" "V a = Some v"
  obtains h where "m_hdr (es_mem s) a = Some h" "payload_hdr (a \<in> P) g h" "m_val (es_mem s) a = Some v" "a \<in> allocated (es_mem s)"
    "a \<noteq> 0" "\<not> is_raw a"
  using assms by (auto simp: core_def payloads_ok_def)

lemma core_val: "core n b P V g s \<Longrightarrow> V a = Some v \<Longrightarrow> m_val (es_mem s) a = Some v"
  by (simp add: core_def payloads_ok_def)

lemma spare_view: "same_view (es_mem s) (es_mem s') \<Longrightarrow> es_tbf s' = es_tbf s \<Longrightarrow> spare a V s' = spare a V s"
  by (simp add: spare_def deletable_def same_view_def)

lemma core_openwrite:
  assumes "core n (Suc (Suc b)) {} V c s" "V a = Some v" "in_epoch tid c s" "c \<noteq> NULL_EPOCH"
  shows "\<exists>a' s'. openwrite_pblk tid a c s = Inr (a', s') \<and> core n b {} (V(a := None, a' \<mapsto> v)) c s' \<and> same_run s s'
    \<and> (a' = a \<or> V a' = None)"
proof -
  obtain h where h: "m_hdr (es_mem s) a = Some h" "payload_hdr False c h" "m_val (es_mem s) a = Some v" "a \<in> allocated (es_mem s)"
    using core_payload [OF assms(1,2)] by auto
  have va: "validate_access a c s = Inr ()"
    using h(1,2) assms(4) by (simp add: validate_access_def block_def hdr_def payload_hdr_def not_less)
  show ?thesis
  proof (cases "pb_epoch h < c")
    case False
    then have "openwrite_pblk tid a c s = Inr (a, s)" using va h(1) by (simp add: openwrite_pblk_def block_def hdr_def)
    moreover have "V(a := None, a \<mapsto> v) = V" using assms(2) by auto
    ultimately show ?thesis using core_mono [OF assms(1), of b] by (intro exI [of _ a] exI [of _ s]) simp
  next
    case True
    let ?V = "V(a := None)"
    have f: "core n (Suc (Suc b)) {} ?V c s" "spare a ?V s" using core_forget [OF assms(1,2)] by simp_all
    from core_retire [OF f assms(3) disjI1 [OF refl]] obtain f' where
      r: "register_free tid a c s = Inr (s\<lparr>es_tbf := f'\<rparr>)" "core n (Suc b) {} ?V c (s\<lparr>es_tbf := f'\<rparr>)" "same_run s (s\<lparr>es_tbf := f'\<rparr>)"
      by blast
    let ?h = "(PBlk_copy h)\<lparr>pb_epoch := c, pb_blktype := UPDATE\<rparr>"
    obtain a' s' where n: "new_pblk ?h (Some v) (s\<lparr>es_tbf := f'\<rparr>) = (a', s')" by fastforce
    note w = core_new [OF r(2) n]
    have "core n b {} (?V(a' \<mapsto> v)) c s'"
      using assms(4) by (intro core_adopt [OF w(1,2,3) _ w(4) [OF refl]]) (simp_all add: payload_hdr_def)
    moreover have "openwrite_pblk tid a c s = Inr (a', s')"
      using va h(1,3) True r(1) n by (simp add: openwrite_pblk_def block_def hdr_def)
    moreover have "V a' = None" using w(2,6) h(4) by (auto simp: spare_def split: if_splits)
    ultimately show ?thesis using same_run_trans [OF r(3) w(5)] by blast
  qed
qed

lemma core_free:
  assumes "core n (b + 4) {} V c s" "V a = Some v" "in_epoch tid c s" "c \<noteq> NULL_EPOCH" "tid < n"
  shows "\<exists>s'. free_pblk tid a c s = Inr s' \<and> core n b {} (V(a := None)) c s' \<and> same_run s s'"
proof -
  let ?V = "V(a := None)"
  obtain h where h: "m_hdr (es_mem s) a = Some h" "payload_hdr False c h" "a \<in> allocated (es_mem s)" "a \<noteq> 0" "\<not> is_raw a"
    using core_payload [OF assms(1,2)] by auto
  have b: "block a s = Inr h" using h(1) by (simp add: block_def hdr_def)
  have e: "pb_epoch h \<noteq> NULL_EPOCH" "pb_epoch h \<le> c" using h(2) by (simp_all add: payload_hdr_def)
  have f: "core n (b + 4) {} ?V c s" "spare a ?V s" using core_forget [OF assms(1,2)] by simp_all
  have f1: "core n (Suc b) {} ?V c s" by (rule core_mono [OF f(1)]) simp
  consider "pb_epoch h = c" "pb_blktype h = ALLOC" | "pb_epoch h = c" "pb_blktype h = UPDATE" | "pb_epoch h < c"
    using h(2) e(2) by (auto simp: payload_hdr_def order_le_less)
  then show ?thesis
  proof cases
    case 1
    then show ?thesis using core_delete [OF f1 f(2) assms(5,4)] b e by (auto simp: free_pblk_def)
  next
    case 2
    let ?s = "update_block a (h\<lparr>pb_blktype := DELETE\<rparr>) s"
    have u: "core n (Suc b) {} ?V c ?s" "same_run s ?s" using core_header [OF f1 h(3-5), of "{}"] by simp_all
    have "spare a ?V ?s" using f(2) by (simp add: spare_def deletable_def update_block_def on_mem_def set_hdr_def)
    from core_retire [OF u(1) this _ disjI1 [OF refl], of tid] u(2) assms(3) obtain f' where
      r: "register_free tid a c ?s = Inr (?s\<lparr>es_tbf := f'\<rparr>)" "core n b {} ?V c (?s\<lparr>es_tbf := f'\<rparr>)" "same_run ?s (?s\<lparr>es_tbf := f'\<rparr>)"
      by (auto simp: in_epoch_run)
    then show ?thesis using 2 b e same_run_trans [OF u(2) r(3)] by (auto simp: free_pblk_def)
  next
    case 3
    let ?d = "(PBlk_copy h)\<lparr>pb_blktype := DELETE, pb_epoch := c\<rparr>"
    obtain d s1 where n: "new_pblk ?d None s = (d, s1)" by fastforce
    have f4: "core n (Suc (Suc (Suc (Suc b)))) {} ?V c s" using f(1) by (simp add: numeral_eq_Suc)
    note w = core_new [OF f4 n]
    have d: "d \<noteq> 0" "\<not> is_raw d" using w(2) by (simp_all add: spare_def deletable_def)
    have sp: "spare a ?V s1" "a \<noteq> d" using w(8) [OF f(2)] by simp_all
    from core_register [OF w(1) assms(5) d assms(4)] obtain s2 where
      s2: "on_tbp (tbp_register_persist d c tid) s1 = Inr s2" "core n (Suc (Suc b)) {} ?V c s2" "same_run s1 s2"
        "same_view (es_mem s1) (es_mem s2)" "es_tbf s2 = es_tbf s1" by blast
    have r2: "same_run s s2" using same_run_trans [OF w(5) s2(3)] .
    have sp2: "spare d ?V s2" "spare a ?V s2" using spare_view [OF s2(4,5)] w(2) sp(1) by blast+
    from core_retire [OF s2(2) sp2(1) _ disjI2 [OF refl], of tid c] r2 assms(3) obtain f3 where
      s3: "register_free tid d (c + 1) s2 = Inr (s2\<lparr>es_tbf := f3\<rparr>)" "core n (Suc b) {} ?V c (s2\<lparr>es_tbf := f3\<rparr>)"
        "same_run s2 (s2\<lparr>es_tbf := f3\<rparr>)" "set (retired_blocks f3) = insert d (set (retired_blocks (es_tbf s2)))"
      by (auto simp: in_epoch_run)
    have "spare a ?V (s2\<lparr>es_tbf := f3\<rparr>)" using sp2(2) s3(4) sp(2) by (simp add: spare_def deletable_def)
    from core_retire [OF s3(2) this _ disjI1 [OF refl], of tid] same_run_trans [OF r2 s3(3)] assms(3) obtain f5 where
      s4: "register_free tid a c (s2\<lparr>es_tbf := f3\<rparr>) = Inr (s2\<lparr>es_tbf := f5\<rparr>)" "core n b {} ?V c (s2\<lparr>es_tbf := f5\<rparr>)"
        "same_run (s2\<lparr>es_tbf := f3\<rparr>) (s2\<lparr>es_tbf := f5\<rparr>)" by (auto simp: in_epoch_run)
    have "free_pblk tid a c s = Inr (s2\<lparr>es_tbf := f5\<rparr>)"
      using 3 b e(1) order_less_imp_not_less [OF 3] n s2(1) s3(1) s4(1) by (auto simp: free_pblk_def)
    then show ?thesis using s4(2) same_run_trans [OF same_run_trans [OF r2 s3(3)] s4(3)] by blast
  qed
qed

section \<open>Entering an operation\<close>

lemma get_sn_inc: "unat (get_sn (w + 1)) \<le> unat (get_sn w) + 1"
proof -
  have m: "unat (get_sn x) = unat x mod 2 ^ 48" for x :: u64
  proof -
    have "get_sn x = take_bit 48 x" by (simp add: get_sn_def take_bit_eq_mask and.commute mask_eq_exp_minus_1)
    then have "unat (get_sn x) = take_bit 48 (unat x)" by (simp only: unsigned_take_bit_eq)
    then show ?thesis by (simp only: take_bit_eq_mod)
  qed
  have "unat (w + 1) mod 2 ^ 48 = (unat w + 1) mod 2 ^ 48"
    by (simp add: unat_word_ariths mod_mod_cancel)
  also have "\<dots> \<le> unat w mod 2 ^ 48 + 1" by (metis mod_Suc_eq mod_less_eq_dividend Suc_eq_plus1)
  finally show ?thesis unfolding m .
qed

lemma core_between:
  assumes "core n (Suc b) P V (es_global_epoch s) s" "tt_rep n A (es_trans s)" "A tid = None" "tid < n" "unat (es_global_epoch s) < 2 ^ 64 - 1"
  shows "between_ops n (Suc b + length (retired_blocks (es_tbf s))) A tid s"
proof -
  obtain k te where k: "es_tbf s = ThreadLocalFreed k te" "vc_wf n k" "length te = n"
      "\<forall>u < n. 3 \<le> unat (te ! u) \<and> te ! u \<le> es_global_epoch s \<and> window_ok u (te ! u) k"
    using assms(1) by (auto simp: core_def freed_part_def split: tbf.splits)
  have "3 \<le> unat (te ! tid)" "te ! tid \<le> es_global_epoch s" using k(4) assms(4) by auto
  then have g: "0 < unat (es_global_epoch s)" by (simp add: word_le_nat_alt)
  have sr: "sys_ready n (Suc b) s" using assms(1) by (simp add: core_def)
  have "unat (get_sn (d_tid_sn (local_descs (es_mem s) ! tid))) + Suc b < 2 ^ 48" using sr assms(4) by (simp add: sys_ready_def)
  then have sn: "get_sn (d_tid_sn (local_descs (es_mem s) ! tid)) \<noteq> 0xffffffffffff" by auto
  have "set (bucket k tid e) \<subseteq> set (retired_blocks (es_tbf s))" for e
  proof -
    have "bucket k tid e \<in> set (k ! slot e)" "k ! slot e \<in> set k" using k(2) assms(4) by (simp_all add: bucket_def vc_wf_def)
    then show ?thesis unfolding k(1) by auto
  qed
  then have "\<forall>e. \<forall>a \<in> set (bucket k tid e). deletable a s" using assms(1) unfolding core_def retired_ok_def by blast
  then have "freed_ok n tid (es_global_epoch s) s" using k assms(4) by (simp add: freed_ok_def)
  moreover have "es_wf n (Suc b + length (retired_blocks (es_tbf s))) s" using assms(1) sr by (simp add: es_wf_def core_def sys_ready_def)
  moreover have "waiting_of tid (es_tbf s) \<le> Suc b + length (retired_blocks (es_tbf s))"
    using waiting_le_retired [OF k(2) assms(4)] by (simp add: k(1))
  ultimately show ?thesis using assms(2-5) sr g sn by (simp add: between_ops_def sys_ready_def)
qed

lemma core_begin:
  assumes c: "core n (Suc b) P V (es_global_epoch s) s" and t: "tt_rep n A (es_trans s)" "A tid = None" "tid < n"
    and g: "unat (es_global_epoch s) < 2 ^ 64 - 1"
  shows "\<exists>s'. begin_transaction tid s = Inr (es_global_epoch s, s') \<and> core n b P V (es_global_epoch s) s'
    \<and> in_epoch tid (es_global_epoch s) s' \<and> tt_rep n (A(tid \<mapsto> es_global_epoch s)) (es_trans s') \<and> es_global_epoch s' = es_global_epoch s"
proof -
  let ?g = "es_global_epoch s" and ?B = "Suc b + length (retired_blocks (es_tbf s))"
  from begin_transaction_total [OF core_between [OF assms]] obtain s' s0 es where
    s': "begin_transaction tid s = Inr (?g, s')" "es_global_epoch s' = ?g" "tt_rep n (A(tid \<mapsto> ?g)) (es_trans s')"
      "es_last_epochs s' = (es_last_epochs s)[tid := ?g]" "entered tid s s0" "freeing n ?B tid ?g es s0 s'"
      "\<exists>t. es_ptrack s' = PT_Inc t" "pt_wf n (es_ptrack s')" by blast
  obtain k te where k: "es_tbf s = ThreadLocalFreed k te" "vc_wf n k" "length te = n"
      "\<forall>u < n. 3 \<le> unat (te ! u) \<and> te ! u \<le> ?g \<and> window_ok u (te ! u) k"
    using c by (auto simp: core_def freed_part_def split: tbf.splits)
  let ?F = "map fst (freed_of tid es k)" and ?k = "fold (drop_bucket tid) es k"
  have z: "es_tbf s0 = ThreadLocalFreed k te" using s'(5) k(1) by (simp add: entered_def)
  obtain m where f: "distinct (map slot es)" "es_tbf s' = ThreadLocalFreed ?k (te[tid := ?g])" "window_ok tid ?g ?k"
      "deleted_only (set ?F) (s0\<lparr>es_tbf := es_tbf s'\<rparr>) s'" "?B = length (freed_of tid es k) + m" "tbp_inv n m (es_tbp s')"
    using s'(6) by (auto simp: freeing_def z)
  let ?s = "s0\<lparr>es_tbf := es_tbf s', es_tbp := es_tbp s'\<rparr>"
  have d: "deleted_only (set ?F) ?s s'" using f(4) by (simp add: deleted_only_def same_ctl_def)
  have M: "mset (concat (concat k)) = mset (retired_blocks (es_tbf s') @ ?F)" using drop_retired [OF k(2) t(3) f(1)] f(2) by simp
  have S: "set (retired_blocks (es_tbf s)) = set (retired_blocks (es_tbf s')) \<union> set ?F" using arg_cong [OF M, of set_mset] k(1) by simp
  have D: "distinct (retired_blocks (es_tbf s') @ ?F)"
    using mset_eq_imp_distinct_iff [OF M] c k(1) by (simp add: core_def retired_ok_def)
  have L: "length (retired_blocks (es_tbf s)) = length (retired_blocks (es_tbf s')) + length ?F"
    using arg_cong [OF M, of size] k(1) by simp
  have b': "tbp_inv n (b + length (retired_blocks (es_tbf s'))) (es_tbp s')"
    using tbp_inv_mono [OF f(6), of "b + length (retired_blocks (es_tbf s'))"] f(5) L by simp
  have ro: "\<forall>a \<in> set (retired_blocks (es_tbf s)). a \<in> allocated (es_mem s) \<and> deletable a s \<and> V a = None"
    using c by (simp add: core_def retired_ok_def)
  have "core n b P V ?g ?s" unfolding core_def
  proof (intro conjI)
    have "sys_ready n (Suc b) s" using c by (simp add: core_def)
    moreover have "unat (get_sn (d_tid_sn (local_descs (es_mem s0) ! i))) \<le> unat (get_sn (d_tid_sn (local_descs (es_mem s) ! i))) + 1"
      if "i < n" for i
      using s'(5) that calculation get_sn_inc by (simp add: entered_def sys_ready_def)
    moreover have "es_ptrack s0 = es_ptrack s'" "es_last_epochs s0 = es_last_epochs s'" using d by (simp_all add: deleted_only_def same_ctl_def)
    ultimately show "sys_ready n b ?s" using s'(4,5,7,8) by (fastforce simp: sys_ready_def entered_def)
    show "heap_room b ?s" using s'(5) core_mono [OF c, of b] by (simp add: core_def heap_room_def entered_def)
    show "payloads_ok P V ?g ?s" using s'(5) c by (simp add: core_def payloads_ok_def entered_def)
    show "retired_ok V ?s" using ro S D s'(5) by (simp add: retired_ok_def deletable_def entered_def)
    show "tbp_inv n (b + length (retired_blocks (es_tbf ?s))) (es_tbp ?s)" using b' by simp
    have "window_ok u (te[tid := ?g] ! u) ?k" if "u < n" for u
      using f(3) k(3,4) that t(3) fold_drop_bucket [OF k(2) t(3), of es] by (auto simp: window_ok_def nth_upd)
    moreover have "3 \<le> unat ?g" using k(4) t(3) by (fastforce simp: word_le_nat_alt)
    ultimately show "freed_part n ?g (es_tbf ?s)" using f(2) k(3,4) t(3) fold_drop_bucket [OF k(2) t(3), of es]
      by (auto simp: freed_part_def nth_upd)
  qed
  from core_deleted [OF this d, of b] b' ro S D s'(5) have "core n b P V ?g s'" by (auto simp: entered_def)
  then show ?thesis using s'(1-3) f(2) k(3) t(3) by (intro exI [of _ s']) (simp add: in_epoch_def)
qed

lemma core_uid:
  assumes "core n b P V g s" "tid < n"
  shows "\<exists>i u. uid_get_id tid (es_uid s) = Inr (i, u) \<and> core n b P V g (s\<lparr>es_uid := u\<rparr>)"
proof -
  obtain ids where i: "curr_ids (es_uid s) = Some ids" "n \<le> length ids" using assms(1) by (auto simp: core_def sys_ready_def)
  let ?u = "(es_uid s)\<lparr>curr_ids := Some (ids[tid := ids ! tid + 1])\<rparr>"
  have "uid_get_id tid (es_uid s) = Inr (ids ! tid, ?u)" using i assms(2) by (simp add: uid_get_id_def)
  moreover have "core n b P V g (s\<lparr>es_uid := ?u\<rparr>)"
    using assms(1) i by (simp add: core_def sys_ready_def heap_room_def payloads_ok_def retired_ok_def deletable_def)
  ultimately show ?thesis by blast
qed

lemma core_register_alloc:
  assumes "core n (Suc b) P V g s" "a \<in> P" "V a = Some v" "tid < n" "g \<noteq> NULL_EPOCH"
  shows "\<exists>s'. register_alloc_pblk tid a g s = Inr s' \<and> core n b (P - {a}) V g s' \<and> same_run s s'"
proof -
  obtain h where h: "m_hdr (es_mem s) a = Some PBlk_new" "a \<in> allocated (es_mem s)" "a \<noteq> 0" "\<not> is_raw a"
    using core_payload [OF assms(1,3)] assms(2) by (auto simp: payload_hdr_def)
  from core_uid [OF assms(1,4)] obtain i u where u: "uid_get_id tid (es_uid s) = Inr (i, u)" "core n (Suc b) P V g (s\<lparr>es_uid := u\<rparr>)" by blast
  let ?h = "PBlk_new\<lparr>pb_epoch := g, pb_blktype := ALLOC, pb_id := i\<rparr>" and ?s = "s\<lparr>es_uid := u\<rparr>"
  have c: "core n (Suc b) (P - {a}) V g (update_block a ?h ?s)" "same_run ?s (update_block a ?h ?s)"
    using core_header [OF u(2), of a "P - {a}" ?h] h(2-4) assms(5) by (simp_all add: payload_hdr_def)
  from core_register [OF c(1) assms(4) h(3,4) assms(5)] obtain s' where
    s': "on_tbp (tbp_register_persist a g tid) (update_block a ?h ?s) = Inr s'" "core n b (P - {a}) V g s'"
      "same_run (update_block a ?h ?s) s'" by blast
  have "register_alloc_pblk tid a g s = Inr s'"
    using h(1) u(1) s'(1) assms(5) by (simp add: register_alloc_pblk_def block_def hdr_def PBlk_new_def rassert_def Let_def)
  moreover have "same_run s ?s" by (simp add: same_run_def)
  ultimately show ?thesis using s'(2) same_run_trans [OF same_run_trans [OF \<open>same_run s ?s\<close> c(2)] s'(3)] by blast
qed

lemma core_register_pending:
  assumes "core n (Suc b) P V g s" "a \<in> P" "V a = Some v" "tid < n" "g \<noteq> NULL_EPOCH"
  shows "\<exists>s'. register_pending Blocking tid g a s = Inr s' \<and> core n b (P - {a}) V g s' \<and> same_run s s'"
proof -
  obtain h where "m_hdr (es_mem s) a = Some h" "payload_hdr (a \<in> P) g h" by (rule core_payload [OF assms(1,3)])
  then have "block a s = Inr PBlk_new" using assms(2) by (simp add: payload_hdr_def block_def hdr_def)
  then show ?thesis using core_register_alloc [OF assms] by (simp add: register_pending_def PBlk_new_def rassert_def)
qed

lemma core_register_all:
  assumes "core n (length ps + b) (set ps) V g s" "distinct ps" "set ps \<subseteq> dom V" "tid < n" "g \<noteq> NULL_EPOCH"
  shows "\<exists>s'. rfold (register_pending Blocking tid g) ps s = Inr s' \<and> core n b {} V g s' \<and> same_run s s'"
  using assms
proof (induction ps arbitrary: s)
  case (Cons p ps)
  then obtain v where v: "V p = Some v" by auto
  from core_register_pending [of n "length ps + b" "set (p # ps)" V g s p v tid] Cons.prems v obtain s1 where
    s1: "register_pending Blocking tid g p s = Inr s1" "core n (length ps + b) (set (p # ps) - {p}) V g s1" "same_run s s1" by auto
  moreover have "set (p # ps) - {p} = set ps" using Cons.prems(2) by auto
  ultimately obtain s' where "rfold (register_pending Blocking tid g) ps s1 = Inr s'" "core n b {} V g s'" "same_run s1 s'"
    using Cons.IH [of s1] Cons.prems by auto
  then show ?case using s1 same_run_trans [OF s1(3)] by auto
qed simp

section \<open>The programming interface\<close>

text \<open>Between operations, with the blocks thread \<^term>\<open>tid\<close> has allocated for the next one.\<close>

definition outside_op :: "nat \<Rightarrow> nat \<Rightarrow> nat \<Rightarrow> addr list \<Rightarrow> 'v recoverable \<Rightarrow> (addr \<rightharpoonup> 'v) \<Rightarrow> bool" where
  "outside_op n b tid ps r V \<longleftrightarrow> r_kind r = Blocking \<and> core n b (set ps) V (es_global_epoch (r_esys r)) (r_esys r)
     \<and> tt_rep n Map.empty (es_trans (r_esys r)) \<and> unat (es_global_epoch (r_esys r)) + b < 2 ^ 64 - 1 \<and> distinct ps \<and> set ps \<subseteq> dom V
     \<and> r_epochs r = replicate n NULL_EPOCH \<and> r_pending_allocs r = (replicate n [])[tid := ps] \<and> r_pending_retires r = replicate n []"

definition idle :: "nat \<Rightarrow> nat \<Rightarrow> 'v recoverable \<Rightarrow> (addr \<rightharpoonup> 'v) \<Rightarrow> bool" where
  "idle n b r V \<longleftrightarrow> outside_op n b 0 [] r V"

text \<open>Inside an operation of thread \<^term>\<open>tid\<close>.\<close>

definition inside_op :: "nat \<Rightarrow> nat \<Rightarrow> nat \<Rightarrow> addr list \<Rightarrow> 'v recoverable \<Rightarrow> (addr \<rightharpoonup> 'v) \<Rightarrow> bool" where
  "inside_op n b tid ps r V \<longleftrightarrow> (let s = r_esys r; c = es_global_epoch s in
     r_kind r = Blocking \<and> core n b {} V c s \<and> in_epoch tid c s \<and> tt_rep n [tid \<mapsto> c] (es_trans s) \<and> c \<noteq> NULL_EPOCH
     \<and> unat c + b < 2 ^ 64 - 1 \<and> tid < n \<and> r_epochs r = (replicate n NULL_EPOCH)[tid := c]
     \<and> r_pending_allocs r = (replicate n [])[tid := ps] \<and> r_pending_retires r = replicate n [])"

lemma replicate_update [simp]: "(replicate n x)[i := x] = replicate n x"
  by (rule nth_equalityI) (auto simp: nth_upd)

lemma idle_outside: "idle n b r V = outside_op n b tid [] r V"
  by (simp add: idle_def outside_op_def)

lemma outside_mono: "outside_op n b tid ps r V \<Longrightarrow> b' \<le> b \<Longrightarrow> outside_op n b' tid ps r V"
  using core_mono by (fastforce simp: outside_op_def)

lemma idle_mono: "idle n b r V \<Longrightarrow> b' \<le> b \<Longrightarrow> idle n b' r V"
  unfolding idle_def by (rule outside_mono)

lemma inside_mono: "inside_op n b tid ps r V \<Longrightarrow> b' \<le> b \<Longrightarrow> inside_op n b' tid ps r V"
  using core_mono by (fastforce simp: inside_op_def Let_def)

lemma pnew_outside:
  assumes "outside_op n (Suc b) tid ps r V" "tid < n"
  shows "\<exists>a r'. pnew tid v r = Inr (a, r') \<and> V a = None \<and> outside_op n b tid (ps @ [a]) r' (V(a \<mapsto> v))"
proof -
  let ?g = "es_global_epoch (r_esys r)"
  have c: "core n (Suc b) (set ps) V ?g (r_esys r)" using assms(1) by (simp add: outside_op_def)
  obtain a s where n: "new_pblk PBlk_new (Some v) (r_esys r) = (a, s)" by fastforce
  note w = core_new [OF c n]
  have V: "V a = None" using w(2) by (simp add: spare_def)
  have "core n b (insert a (set ps)) (V(a \<mapsto> v)) ?g s"
    by (rule core_adopt [OF w(1,2,3) _ w(4) [OF refl]]) (auto simp: payload_hdr_def)
  moreover have "a \<notin> set ps" using assms(1) V by (auto simp: outside_op_def)
  moreover have "pnew tid v r = Inr (a, (r_set_allocs tid (ps @ [a]) r)\<lparr>r_esys := s\<rparr>)"
    using assms n by (simp add: pnew_def outside_op_def)
  ultimately show ?thesis using assms w(5) V
    by (intro exI [of _ a] exI [of _ "(r_set_allocs tid (ps @ [a]) r)\<lparr>r_esys := s\<rparr>"]) (auto simp: outside_op_def same_run_def r_set_allocs_def)
qed

lemma begin_op_inside:
  assumes "outside_op n (Suc (length ps + b)) tid ps r V" "tid < n"
  shows "\<exists>r'. begin_op tid r = Inr r' \<and> inside_op n b tid ps r' V"
proof -
  let ?s = "r_esys r" and ?g = "es_global_epoch (r_esys r)"
  have gb: "unat ?g + Suc (length ps + b) < 2 ^ 64 - 1" using assms(1) by (simp add: outside_op_def)
  have r: "core n (Suc (length ps + b)) (set ps) V ?g ?s" "tt_rep n Map.empty (es_trans ?s)" "unat ?g < 2 ^ 64 - 1" "distinct ps"
      "set ps \<subseteq> dom V" "r_kind r = Blocking" "r_epochs r = replicate n NULL_EPOCH" "r_pending_allocs r = (replicate n [])[tid := ps]"
      "r_pending_retires r = replicate n []" using assms(1) by (simp_all add: outside_op_def)
  from core_begin [OF r(1,2) _ assms(2) r(3)] obtain s1 where
    s1: "begin_transaction tid ?s = Inr (?g, s1)" "core n (length ps + b) (set ps) V ?g s1" "in_epoch tid ?g s1"
      "tt_rep n [tid \<mapsto> ?g] (es_trans s1)" "es_global_epoch s1 = ?g" by auto
  have "0 < unat ?g"
    using core_between [OF r(1,2) _ assms(2) r(3)] by (simp add: between_ops_def)
  then have g: "?g \<noteq> NULL_EPOCH" by auto
  from core_register_all [OF s1(2) r(4,5) assms(2) g] obtain s2 where
    s2: "rfold (register_pending Blocking tid ?g) ps s1 = Inr s2" "core n b {} V ?g s2" "same_run s1 s2" by blast
  let ?r = "(r_set_retires tid [] (r_set_epoch tid ?g r))\<lparr>r_esys := s2\<rparr>"
  have "begin_op tid r = Inr ?r"
    using r(6-9) assms(2) s1(1) s2(1) g by (simp add: begin_op_def rassert_def)
  then show ?thesis using r s1(3-5) s2(2,3) g gb assms(2) in_epoch_run [OF s2(3)]
    by (intro exI [of _ ?r]) (simp add: inside_op_def same_run_def r_set_retires_def r_set_epoch_def)
qed

lemma read_inside:
  assumes "core n b P V g (r_esys r)" "V a = Some v"
  shows "field_get_unsafe sel a r = Inr (sel v)"
  using core_val [OF assms] by (simp add: field_get_unsafe_def read_val_def)

lemma get_inside: "inside_op n b tid ps r V \<Longrightarrow> V a = Some v \<Longrightarrow> field_get_unsafe sel a r = Inr (sel v)"
  by (auto simp: inside_op_def Let_def intro: read_inside)

lemma get_outside: "outside_op n b tid ps r V \<Longrightarrow> V a = Some v \<Longrightarrow> field_get_unsafe sel a r = Inr (sel v)"
  by (auto simp: outside_op_def intro: read_inside)

lemma set_unsafe_outside:
  assumes "outside_op n b tid ps r V" "V a = Some v"
  shows "\<exists>r'. field_set_unsafe upd a r = Inr r' \<and> outside_op n b tid ps r' (V(a \<mapsto> upd v))"
proof -
  let ?s = "r_esys r"
  have c: "core n b (set ps) V (es_global_epoch ?s) ?s" using assms(1) by (simp add: outside_op_def)
  let ?r = "r\<lparr>r_esys := on_mem (set_val a (upd v)) ?s\<rparr>"
  have "field_set_unsafe upd a r = Inr ?r"
    using core_val [OF c assms(2)] by (simp add: field_set_unsafe_def write_val_def read_val_def)
  then show ?thesis using assms core_value [OF c assms(2), of "upd v"]
    by (intro exI [of _ ?r]) (auto simp: outside_op_def same_run_def)
qed

lemma inside_same:
  assumes "inside_op n b tid ps r V" "core n b' {} V' (es_global_epoch (r_esys r)) s" "same_run (r_esys r) s" "b' \<le> b"
  shows "inside_op n b' tid ps (r\<lparr>r_esys := s\<rparr>) V'"
  using assms(1,2,4) assms(3) [unfolded same_run_def] in_epoch_run [OF assms(3)] by (simp add: inside_op_def Let_def)

lemma field_set_inside:
  assumes "inside_op n (b + 3) tid ps r V" "V a = Some v"
  shows "\<exists>a' r'. field_set upd tid a r = Inr (a', r') \<and> inside_op n b tid ps r' (V(a := None, a' \<mapsto> upd v)) \<and> (a' = a \<or> V a' = None)"
proof -
  let ?s = "r_esys r" and ?c = "es_global_epoch (r_esys r)"
  have r: "core n (b + 3) {} V ?c ?s" "in_epoch tid ?c ?s" "?c \<noteq> NULL_EPOCH" "tid < n"
      "r_epochs r = (replicate n NULL_EPOCH)[tid := ?c]" using assms(1) by (simp_all add: inside_op_def Let_def)
  have c: "core n (Suc (Suc (Suc b))) {} V ?c ?s" using r(1) by (simp add: numeral_eq_Suc)
  from core_openwrite [OF c assms(2) r(2,3)] obtain a' s1 where
    o: "openwrite_pblk tid a ?c ?s = Inr (a', s1)" "core n (Suc b) {} (V(a := None, a' \<mapsto> v)) ?c s1" "same_run ?s s1"
      "a' = a \<or> V a' = None" by blast
  let ?s2 = "on_mem (set_val a' (upd v)) s1"
  have w: "core n (Suc b) {} (V(a := None, a' \<mapsto> upd v)) ?c ?s2" "same_run s1 ?s2"
    using core_value [OF o(2), of a' v "upd v"] by simp_all
  have a': "a' \<noteq> 0" "\<not> is_raw a'" "m_val (es_mem s1) a' = Some v" using core_payload [OF o(2), of a' v] by auto
  from core_register [OF w(1) r(4) a'(1,2) r(3)] obtain s3 where
    s3: "on_tbp (tbp_register_persist a' ?c tid) ?s2 = Inr s3" "core n b {} (V(a := None, a' \<mapsto> upd v)) ?c s3" "same_run ?s2 s3" by blast
  have run: "same_run ?s s3" by (rule same_run_trans [OF same_run_trans [OF o(3) w(2)] s3(3)])
  have "field_set upd tid a r = Inr (a', r\<lparr>r_esys := s3\<rparr>)"
    using r(3-5) o(1) a'(3) s3(1)
    by (simp add: field_set_def r_openwrite_def write_val_def read_val_def r_register_update_def register_update_pblk_def rassert_def)
  moreover have "inside_op n b tid ps (r\<lparr>r_esys := s3\<rparr>) (V(a := None, a' \<mapsto> upd v))"
    by (rule inside_same [OF assms(1) s3(2) run]) simp
  ultimately show ?thesis using o(4) by blast
qed

lemma pdelete_inside:
  assumes "inside_op n (b + 4) tid ps r V" "V a = Some v"
  shows "\<exists>r'. pdelete tid a r = Inr r' \<and> inside_op n b tid ps r' (V(a := None))"
proof -
  let ?s = "r_esys r" and ?c = "es_global_epoch (r_esys r)"
  have r: "core n (b + 4) {} V ?c ?s" "in_epoch tid ?c ?s" "?c \<noteq> NULL_EPOCH" "tid < n" "es_mode ?s = ONLINE"
      "r_epochs r = (replicate n NULL_EPOCH)[tid := ?c]" using assms(1) by (simp_all add: inside_op_def Let_def core_def sys_ready_def)
  from core_free [OF r(1) assms(2) r(2-4)] obtain s1 where
    s1: "free_pblk tid a ?c ?s = Inr s1" "core n b {} (V(a := None)) ?c s1" "same_run ?s s1" by blast
  have "pdelete tid a r = Inr (r\<lparr>r_esys := s1\<rparr>)" using r(3-6) s1(1) by (simp add: pdelete_def)
  moreover have "inside_op n b tid ps (r\<lparr>r_esys := s1\<rparr>) (V(a := None))"
    by (rule inside_same [OF assms(1) s1(2,3)]) simp
  ultimately show ?thesis by blast
qed

lemma core_last_epoch:
  "core n b P V g s \<Longrightarrow> core n b P V g ((set_last_epoch i c s)\<lparr>es_trans := t\<rparr>)"
  "core n b P V g s \<Longrightarrow> core n b P V g (s\<lparr>es_trans := t\<rparr>)"
  by (simp_all add: core_def sys_ready_def heap_room_def payloads_ok_def retired_ok_def deletable_def set_last_epoch_def)

lemma end_op_outside:
  assumes "inside_op n b tid ps r V"
  shows "\<exists>r'. end_op tid r = Inr r' \<and> idle n b r' V"
    and "ps = [] \<Longrightarrow> \<exists>r'. end_readonly_op tid r = Inr r' \<and> idle n b r' V"
proof -
  let ?s = "r_esys r" and ?c = "es_global_epoch (r_esys r)"
  have r: "r_kind r = Blocking" "core n b {} V ?c ?s" "tt_rep n [tid \<mapsto> ?c] (es_trans ?s)" "?c \<noteq> NULL_EPOCH" "unat ?c + b < 2 ^ 64 - 1"
      "tid < n" "r_epochs r = (replicate n NULL_EPOCH)[tid := ?c]" "r_pending_allocs r = (replicate n [])[tid := ps]"
      "r_pending_retires r = replicate n []" using assms by (simp_all add: inside_op_def Let_def)
  from ttt.unreg_law [OF r(3,6), of ?c] obtain t where
    t: "tt_unregister_active tid ?c (es_trans ?s) = Inr t" "tt_rep n Map.empty t" by auto
  let ?r = "\<lambda>s2. (r_set_allocs tid [] (r_set_epoch tid NULL_EPOCH (r_set_retires tid [] r)))\<lparr>r_esys := s2\<rparr>"
  let ?s2 = "(set_last_epoch tid ?c ?s)\<lparr>es_trans := t\<rparr>"
  have "end_op tid r = Inr (?r ?s2)"
    using r t(1) by (simp add: end_op_def end_transaction_def rassert_def)
  moreover have "idle n b (?r ?s2) V"
    using r t(2) core_last_epoch(1) [OF r(2)]
    by (simp add: idle_def outside_op_def r_set_allocs_def r_set_epoch_def r_set_retires_def set_last_epoch_def)
  ultimately show "\<exists>r'. end_op tid r = Inr r' \<and> idle n b r' V" by blast
  assume p: "ps = []"
  let ?r2 = "(r_set_epoch tid NULL_EPOCH r)\<lparr>r_esys := ?s\<lparr>es_trans := t\<rparr>\<rparr>"
  have "end_readonly_op tid r = Inr ?r2"
    using r t(1) p by (simp add: end_readonly_op_def end_readonly_transaction_def rassert_def)
  moreover have "idle n b ?r2 V"
    using r t(2) p core_last_epoch(2) [OF r(2)] by (simp add: idle_def outside_op_def r_set_epoch_def)
  ultimately show "\<exists>r'. end_readonly_op tid r = Inr r' \<and> idle n b r' V" by blast
qed

text \<open>Allocation inside an operation.\<close>

lemma pnew_inside:
  assumes "inside_op n (Suc (Suc b)) tid ps r V"
  shows "\<exists>a r'. pnew tid v r = Inr (a, r') \<and> V a = None \<and> inside_op n b tid ps r' (V(a \<mapsto> v))"
proof -
  let ?s = "r_esys r" and ?c = "es_global_epoch (r_esys r)"
  have r: "core n (Suc (Suc b)) {} V ?c ?s" "?c \<noteq> NULL_EPOCH" "tid < n" "r_epochs r = (replicate n NULL_EPOCH)[tid := ?c]" "r_kind r = Blocking"
    using assms by (simp_all add: inside_op_def Let_def)
  obtain a s where n: "new_pblk PBlk_new (Some v) ?s = (a, s)" by fastforce
  note w = core_new [OF r(1) n]
  have V: "V a = None" using w(2) by (simp add: spare_def)
  have "core n (Suc b) {a} (V(a \<mapsto> v)) ?c s" by (rule core_adopt [OF w(1,2,3) _ w(4) [OF refl]]) (auto simp: payload_hdr_def)
  from core_register_alloc [OF this _ _ r(3,2), of a v] obtain s1 where
    s1: "register_alloc_pblk tid a ?c s = Inr s1" "core n b {} (V(a \<mapsto> v)) ?c s1" "same_run s s1" by auto
  have "pnew tid v r = Inr (a, r\<lparr>r_esys := s1\<rparr>)" using r(2-5) n s1(1) by (simp add: pnew_def)
  moreover have "inside_op n b tid ps (r\<lparr>r_esys := s1\<rparr>) (V(a \<mapsto> v))"
    by (rule inside_same [OF assms s1(2) same_run_trans [OF w(5) s1(3)]]) simp
  ultimately show ?thesis using V by blast
qed

text \<open>
  Deallocation outside an operation: of a block that waits for the next operation, which forgets it, or of one that has been
  registered, at once.
\<close>

lemma core_delete_null:
  assumes "core n b P V g s" "V a = Some v"
  shows "\<exists>s'. delete_pblk tid a NULL_EPOCH s = Inr s' \<and> core n b (P - {a}) (V(a := None)) g s' \<and> same_run s s'"
proof -
  obtain h where h: "m_hdr (es_mem s) a = Some h" "a \<in> allocated (es_mem s)" "a \<noteq> 0" "\<not> is_raw a" using core_payload [OF assms] by blast
  let ?s = "on_mem (ral_deallocate a) (update_block a (PBlk_destroy h) s)"
  have "core n b (P - {a}) (V(a := None)) g s" "a \<notin> set (retired_blocks (es_tbf s))"
    using assms by (auto simp: core_def payloads_ok_def retired_ok_def split: if_splits)
  moreover have "deleted_only {a} s ?s" "es_tbp ?s = es_tbp s"
    by (simp_all add: on_mem_def ral_deallocate_def update_block_def set_hdr_def same_ctl_def deleted_only_def)
  moreover have "tbp_inv n (b + length (retired_blocks (es_tbf s))) (es_tbp s)" using assms(1) by (simp add: core_def)
  ultimately have "core n b (P - {a}) (V(a := None)) g ?s" "same_run s ?s"
    using core_deleted [of n b "P - {a}" "V(a := None)" g s "{a}" ?s b] h(2) by auto
  moreover have "delete_pblk tid a NULL_EPOCH s = Inr ?s" using h(1) by (simp add: delete_pblk_def block_def hdr_def Let_def)
  ultimately show ?thesis by blast
qed

lemma pdelete_outside:
  assumes "outside_op n b tid ps r V" "V a = Some v" "tid < n"
  shows "\<exists>r'. pdelete tid a r = Inr r' \<and> outside_op n b tid (remove1 a ps) r' (V(a := None))"
proof -
  let ?s = "r_esys r" and ?g = "es_global_epoch (r_esys r)"
  have r: "core n b (set ps) V ?g ?s" "r_epochs r = replicate n NULL_EPOCH" "r_pending_allocs r = (replicate n [])[tid := ps]" "distinct ps"
      "es_mode ?s = ONLINE" using assms(1) by (simp_all add: outside_op_def core_def sys_ready_def)
  from core_delete_null [OF r(1) assms(2)] obtain s1 where
    s1: "delete_pblk tid a NULL_EPOCH ?s = Inr s1" "core n b (set ps - {a}) (V(a := None)) ?g s1" "same_run ?s s1" by blast
  obtain h where h: "m_hdr (es_mem ?s) a = Some h" "payload_hdr (a \<in> set ps) ?g h" using core_payload [OF r(1) assms(2)] by blast
  have e: "pb_epoch h = NULL_EPOCH \<longleftrightarrow> a \<in> set ps" using h(2) by (auto simp: payload_hdr_def PBlk_new_def split: if_splits)
  have rm: "rev (remove1 a (rev ps)) = remove1 a ps" using r(4) by (simp add: distinct_remove1_removeAll removeAll_filter_not_eq rev_filter)
  let ?r = "(r_set_allocs tid (remove1 a ps) r)\<lparr>r_esys := s1\<rparr>"
  have al: "remove1 a ps = ps" if "a \<notin> set ps" using that by (simp add: remove1_idem)
  have "pdelete tid a r = Inr ?r"
    using r assms(3) h(1) e s1(1) rm al
    by (cases "a \<in> set ps") (simp_all add: pdelete_def block_def hdr_def rassert_def erase_last_def r_set_allocs_def)
  moreover have "outside_op n b tid (remove1 a ps) ?r (V(a := None))"
    using assms(1) s1(2,3) r(3,4) by (auto simp: outside_op_def same_run_def r_set_allocs_def)
  ultimately show ?thesis by blast
qed

end
