(* ===== verification/Store_Life.thy ===== *)
theory Store_Life
  imports Payload_Store
begin

text \<open>
  The life of the store between operations: a newly constructed \<^verbatim>\<open>Recoverable\<close> meets the contract, with no payload,
  and so does the store after every turn of the epoch advancer, with the payloads it had.
\<close>

section \<open>Epoch changes\<close>

lemma persist_local_descs:
  assumes "on_tbp (tbp_persist_epoch_local e i) s = Inr s'"
  shows "local_descs (es_mem s') = local_descs (es_mem s)"
proof -
  obtain t m where p: "tbp_persist_epoch_local e i (es_tbp s, es_mem s) = Inr (t, m)" "s' = s\<lparr>es_tbp := t, es_mem := m\<rparr>"
    using assms by (auto simp: on_tbp_def rbind_eq_Inr_iff)
  have "local_descs m = local_descs (es_mem s)"
  proof (cases "tbp_kind (es_tbp s)")
    case (BufferedWB k)
    then obtain es k' where e: "tbp_do_persist_desc_local e i ((es_tbp s)\<lparr>tbp_kind := BufferedWB k'\<rparr>, do_persist_all es (es_mem s)) = (t, m)"
      using p(1) by (auto simp: tbp_persist_epoch_local_def rbind_eq_Inr_iff)
    show ?thesis using tbp_desc_local(2) [OF e] same_view_persist_all [of "es_mem s" es] by (simp add: same_view_def)
  qed (use p(1) in \<open>simp_all add: tbp_persist_epoch_local_def\<close>)
  then show ?thesis using p(2) by simp
qed

lemma persist_lagging_descs: "persist_lagging fuel False e cur s = Inr s' \<Longrightarrow> local_descs (es_mem s') = local_descs (es_mem s)"
proof (induction fuel arbitrary: cur s)
  case (Suc fuel)
  from Suc.prems obtain r where r: "pt_next_thread e cur (es_ptrack s) = Inr r" by (auto simp: rbind_eq_Inr_iff)
  show ?case
  proof (cases r)
    case (Some i)
    with Suc.prems r obtain s1 s2 where
      s: "on_tbp (tbp_persist_epoch_local e i) s = Inr s1" "with_ptrack (pt_after_persist_epoch e i) s1 = Inr s2"
        "persist_lagging fuel False e i s2 = Inr s'" by (auto simp: rbind_eq_Inr_iff)
    have "es_mem s2 = es_mem s1" using s(2) by (auto simp: with_ptrack_def rbind_eq_Inr_iff)
    then show ?thesis using Suc.IH [OF s(3)] persist_local_descs [OF s(1)] by simp
  qed (use Suc.prems r in auto)
qed simp

text \<open>Time passes: the advancer thread takes a turn between operations.\<close>

definition next_epoch :: "nat \<Rightarrow> 'v recoverable \<Rightarrow> 'v recoverable res" where
  "next_epoch tid r = rbind (advancer_turn (r_kind r) tid id (es_global_epoch (r_esys r), r_esys r)) (\<lambda>(c, s). Inr (r\<lparr>r_esys := s\<rparr>))"

lemma core_advance:
  assumes c: "core n b P V g s" and s: "view_le (es_mem s) (es_mem s')" "same_ctl s s'" "local_descs (es_mem s') = local_descs (es_mem s)"
    and w: "es_wf n (b + length (retired_blocks (es_tbf s))) s'" "es_ptrack s' = PT_Inc t" and g: "g \<le> g'"
  shows "core n b P V g' (set_epoch e s')"
proof -
  have f: "freed_part n g' (es_tbf s)" using c g by (fastforce simp: core_def freed_part_def split: tbf.splits)
  have p: "payloads_ok P V g' s" using c g by (fastforce simp: core_def payloads_ok_def payload_hdr_def split: if_splits)
  show ?thesis
    using c f p s w unfolding view_le_def same_ctl_def
    by (simp add: core_def sys_ready_def heap_room_def payloads_ok_def retired_ok_def deletable_def es_wf_def set_epoch_def)
qed

lemma next_epoch_idle:
  assumes i: "idle n (Suc b) r V"
  shows "\<exists>r'. next_epoch tid r = Inr r' \<and> idle n b r' V \<and> es_global_epoch (r_esys r') = es_global_epoch (r_esys r) + 1"
proof -
  let ?s = "r_esys r" and ?g = "es_global_epoch (r_esys r)"
  have r: "r_kind r = Blocking" "core n b {} V ?g ?s" "tt_rep n Map.empty (es_trans ?s)" and g: "unat ?g + Suc b < 2 ^ 64 - 1"
    using i core_mono [of n "Suc b" "{}" V ?g ?s b] by (simp_all add: idle_def outside_op_def)
  let ?B = "b + length (retired_blocks (es_tbf ?s))" and ?bs = "bump_target ?g ?s"
  have n0: "0 < n" using r(2) by (simp add: core_def sys_ready_def)
  obtain k te where k: "es_tbf ?s = ThreadLocalFreed k te" "\<forall>u < n. 3 \<le> unat (te ! u) \<and> te ! u \<le> ?g"
    using r(2) by (auto simp: core_def freed_part_def split: tbf.splits)
  have g3: "3 \<le> unat ?g" using k(2) n0 by (fastforce simp: word_le_nat_alt)
  have e: "unat (?g - 1) = unat ?g - 1" "unat (?g + 1) = unat ?g + 1"
    using unat_sub_num [of 1 ?g] unat_add_num [of ?g 1] g3 g by simp_all
  have nm: "?g - 1 \<noteq> UINT64_MAX" "?g - 1 \<noteq> NULL_EPOCH" using e g3 g unat_max by auto
  have na: "tt_no_active (?g - 1) (es_trans ?s)" using ttt.none_complete [OF r(3), of "?g - 1"] nm(2) by auto
  obtain t where t: "es_ptrack ?s = PT_Inc t" using r(2) by (auto simp: core_def sys_ready_def)
  have w: "es_wf n ?B ?bs" "es_ptrack ?bs = PT_Inc t" "es_trans ?bs = es_trans ?s" "es_mem ?bs = es_mem ?s"
    using r(2) t by (simp_all add: core_def sys_ready_def es_wf_def bump_target_def)
  from es_on_epoch_end_ok [OF w(1,2) nm(1), of Blocking tid] na w(3) obtain s1 u where
    s1: "es_on_epoch_end Blocking tid ?g ?bs = Inr s1" "es_wf n ?B s1" "view_le (es_mem ?bs) (es_mem s1)" "es_ptrack s1 = PT_Inc u"
      "same_ctl ?bs s1" by auto
  have "persist_lagging (Suc (es_task_num ?bs)) False (?g - 1) (tid mod es_task_num ?bs) ?bs = Inr s1"
    using s1(1) by (simp add: on_epoch_end_def split: if_splits)
  then have d: "local_descs (es_mem s1) = local_descs (es_mem ?s)" using persist_lagging_descs w(4) by metis
  have c0: "core n b {} V ?g ?bs" using r(2)
    by (simp add: bump_target_def core_def sys_ready_def heap_room_def payloads_ok_def retired_ok_def deletable_def)
  have tb: "es_tbf ?bs = es_tbf ?s" "es_tbf s1 = es_tbf ?s" using s1(5) by (simp_all add: bump_target_def same_ctl_def)
  have "?g \<le> ?g + 1" using e(2) by (simp add: word_le_nat_alt)
  from core_advance [OF c0 s1(3,5) _ _ s1(4) this, of "?g + 1"] d w(4) s1(2) tb have
    c1: "core n b {} V (?g + 1) (set_epoch (?g + 1) s1)" by simp
  have "es_on_epoch_begin Blocking tid (?g + 1) (set_epoch (?g + 1) s1) = Inr (set_epoch (?g + 1) s1)"
    using k(1) tb by (intro es_on_epoch_begin_local) (simp add: frees_locally_def)
  then have "next_epoch tid r = Inr (r\<lparr>r_esys := set_epoch (?g + 1) s1\<rparr>)"
    using r(1) s1(1,5) by (simp add: next_epoch_def advancer_turn_def epoch_CAS_def same_ctl_def bump_target_def)
  moreover have "es_trans s1 = es_trans ?s" using s1(5) w(3) by (simp add: same_ctl_def)
  ultimately show ?thesis using i c1 r(3) e(2) g
    by (intro exI [of _ "r\<lparr>r_esys := set_epoch (?g + 1) s1\<rparr>"]) (simp add: idle_def outside_op_def)
qed

section \<open>Construction\<close>

text \<open>The configurations the contract covers: blocks are freed by their threads and lagging threads are tracked exactly.\<close>

definition local_config :: "config \<Rightarrow> bool" where
  "local_config g \<longleftrightarrow> strat_ok g \<and> cf_Free g \<in> {None, Some ''ThreadLocal''} \<and> trans_ok g
     \<and> cf_PersistTracker g \<in> {None, Some ''IncreasingMindicator''} \<and> unit_ok g"

definition alloc_room :: "(addr set \<Rightarrow> addr) \<Rightarrow> nat \<Rightarrow> bool" where
  "alloc_room ral k \<longleftrightarrow> (\<forall>S. finite S \<and> card S \<le> k \<longrightarrow> fresh_addr (ral S) S)"

lemma make_trans_tracker_rep:
  assumes "trans_ok g" "cf_task_num g < 2 ^ 64"
  shows "\<exists>t. make_trans_tracker (env_defaults g) = Inr t \<and> tt_rep (cf_task_num g) Map.empty t"
  using assms new_rep [of "cf_task_num g"] by (cases "cf_TransTracker g") (auto simp: make_trans_tracker_def trans_ok_def)

lemma make_persist_tracker_inc:
  assumes "cf_PersistTracker g \<in> {None, Some ''IncreasingMindicator''}" "0 < cf_task_num g"
  shows "\<exists>t. make_persist_tracker (env_defaults g) = Inr (PT_Inc t) \<and> pt_wf (cf_task_num g) (PT_Inc t)"
  using assms(1) im_new_wf [OF assms(2)] by (auto simp: make_persist_tracker_def)

lemma parse_env_local:
  assumes g: "local_config g" "0 < cf_task_num g" "cf_task_num g < 2 ^ 64" and b: "buffer_size_of g \<noteq> 0" "unat (buffer_size_of g) + b \<le> 2 ^ 64"
  shows "\<exists>tb tt t. parse_env g s = Inr (s\<lparr>es_tbp := tb, es_tbf := ThreadLocalFreed_new (cf_task_num g), es_trans := tt,
      es_ptrack := PT_Inc t, es_target := 0\<rparr>)
    \<and> tbp_inv (cf_task_num g) b tb \<and> tt_rep (cf_task_num g) Map.empty tt \<and> pt_wf (cf_task_num g) (PT_Inc t)"
proof -
  have st: "strat_ok g" "cf_PersistStrat g \<noteq> Some ''No''" using g(1) by (auto simp: local_config_def strat_ok_def)
  obtain tb where tb: "make_to_be_persisted (env_defaults g) = Inr tb" "tbp_inv (cf_task_num g) b tb"
    using make_to_be_persisted_ok [OF b st(2)] st(1) by auto
  obtain tt where tt: "make_trans_tracker (env_defaults g) = Inr tt" "tt_rep (cf_task_num g) Map.empty tt"
    using make_trans_tracker_rep [OF _ g(3)] g(1) by (auto simp: local_config_def)
  obtain t where t: "make_persist_tracker (env_defaults g) = Inr (PT_Inc t)" "pt_wf (cf_task_num g) (PT_Inc t)"
    using make_persist_tracker_inc [OF _ g(2)] g(1) by (auto simp: local_config_def)
  have fr: "make_to_be_freed (env_defaults g) = Inr (ThreadLocalFreed_new (cf_task_num g))"
    using g(1) by (auto simp: local_config_def make_to_be_freed_def)
  obtain l where l: "advancer_epoch_length (cf_EpochLength (env_defaults g)) (cf_EpochLengthUnit (env_defaults g)) = Inr l"
    using advancer_epoch_length_ok [of g "cf_EpochLength (env_defaults g)"] g(1) by (auto simp: local_config_def)
  show ?thesis using st(2) tb tt t fr l by (auto simp: parse_env_def Let_def)
qed

text \<open>Descriptors start with serial number 0.\<close>

definition descs_made :: "'v esys \<Rightarrow> 'v esys \<Rightarrow> bool" where
  "descs_made s s' \<longleftrightarrow> es_uid s' = es_uid s \<and> es_ral s' = es_ral s \<and> es_mode s' = es_mode s \<and> es_task_num s' = es_task_num s
     \<and> length (es_last_epochs s') = length (es_last_epochs s) \<and> allocated (es_mem s') = allocated (es_mem s)
     \<and> m_hdr (es_mem s') = m_hdr (es_mem s) \<and> m_val (es_mem s') = m_val (es_mem s)
     \<and> ((\<forall>d \<in> set (local_descs (es_mem s)). get_sn (d_tid_sn d) = 0) \<longrightarrow> (\<forall>d \<in> set (local_descs (es_mem s')). get_sn (d_tid_sn d) = 0))"

lemma descs_made_trans: "descs_made s s1 \<Longrightarrow> descs_made s1 s2 \<Longrightarrow> descs_made s s2"
  unfolding descs_made_def by metis

lemma desc_new_sn:
  assumes "i < 65536"
  shows "\<exists>d. desc_new (of_nat i) = Inr d \<and> get_sn (d_tid_sn d) = 0"
proof -
  have i: "(of_nat i :: u64) < 65536" using assms by (simp add: word_less_nat_alt unat_of_nat)
  then show ?thesis using pack_bits(2) [OF i, of 0] by (simp add: desc_new_def set_tid_sn_def rassert_def)
qed

lemma init_descs_made: "\<forall>i \<in> set is. i < 65536 \<Longrightarrow>
    \<exists>s'. init_descs is s = Inr s' \<and> descs_made s s' \<and> length (local_descs (es_mem s')) = length (local_descs (es_mem s)) + length is"
proof (induction "is" arbitrary: s)
  case (Cons i "is")
  obtain d where d: "desc_new (of_nat i) = Inr d" "get_sn (d_tid_sn d) = 0" using desc_new_sn Cons.prems by auto
  let ?s = "add_desc d NULL_EPOCH i s"
  have a: "descs_made s ?s" "length (local_descs (es_mem ?s)) = Suc (length (local_descs (es_mem s)))"
    using d(2) by (simp_all add: descs_made_def add_desc_def on_mem_def set_last_epoch_def)
  from Cons obtain s' where s': "init_descs is ?s = Inr s'" "descs_made ?s s'"
      "length (local_descs (es_mem s')) = length (local_descs (es_mem ?s)) + length is" by auto
  have "init_descs (i # is) s = Inr s'" using d(1) s'(1) by (simp add: init_descs_def)
  then show ?case using descs_made_trans [OF a(1) s'(2)] s'(3) a(2) by (intro exI [of _ s']) simp
qed (simp add: init_descs_def descs_made_def)

lemma freed_part_new:
  assumes "0 < n" "INIT_EPOCH \<le> g"
  shows "freed_part n g (ThreadLocalFreed_new n)" "retired_blocks (ThreadLocalFreed_new n) = []"
proof -
  have "bucket (vc_new n) u e = []" if "u < n" for u e using that by (simp add: bucket_def vc_new_def ptv_new_def)
  then show "freed_part n g (ThreadLocalFreed_new n)"
    using assms vc_new_wf [of n] by (simp add: freed_part_def ThreadLocalFreed_new_def window_ok_def)
  show "retired_blocks (ThreadLocalFreed_new n) = []" by (simp add: ThreadLocalFreed_new_def vc_new_def ptv_new_def)
qed

text \<open>Both starts: the system that \<^verbatim>\<open>init\<close> has given its descriptors is reset at epoch \<^term>\<open>e\<close>.\<close>

definition raw_system :: "nat \<Rightarrow> nat \<Rightarrow> 'v esys \<Rightarrow> bool" where
  "raw_system n b s \<longleftrightarrow> es_task_num s = n \<and> es_mode s = ONLINE \<and> length (es_last_epochs s) = n \<and> length (local_descs (es_mem s)) = n
     \<and> (\<exists>ids. curr_ids (es_uid s) = Some ids \<and> n \<le> length ids)
     \<and> (\<forall>d \<in> set (local_descs (es_mem s)). get_sn (d_tid_sn d) = 0) \<and> heap_room b s"

lemma system_reset:
  assumes n: "cf_task_num g = n" "2 \<le> n" "n \<le> 65536" and g: "local_config g" "buffer_size_of g \<noteq> 0" "unat (buffer_size_of g) + b \<le> 2 ^ 64"
    and b: "b < 2 ^ 48" and s: "raw_system n b s" and e: "INIT_EPOCH \<le> e" and V: "payloads_ok {} V e s"
  shows "\<exists>s'. parse_env g (set_epoch e s) = Inr s' \<and> core n b {} V e s' \<and> tt_rep n Map.empty (es_trans s') \<and> es_global_epoch s' = e"
proof -
  have "0 < cf_task_num g" "cf_task_num g < 2 ^ 64" using n by auto
  from parse_env_local [OF g(1) this g(2,3), of "set_epoch e s"] n(1) obtain tb tt t where
    p: "parse_env g (set_epoch e s) = Inr ((set_epoch e s)\<lparr>es_tbp := tb, es_tbf := ThreadLocalFreed_new n,
        es_trans := tt, es_ptrack := PT_Inc t, es_target := 0\<rparr>)"
      "tbp_inv n b tb" "tt_rep n Map.empty tt" "pt_wf n (PT_Inc t)" by auto
  let ?s = "(set_epoch e s)\<lparr>es_tbp := tb, es_tbf := ThreadLocalFreed_new n, es_trans := tt, es_ptrack := PT_Inc t, es_target := 0\<rparr>"
  have sn: "get_sn (d_tid_sn (local_descs (es_mem s) ! i)) = 0" if "i < n" for i using s that by (simp add: raw_system_def)
  have "sys_ready n b ?s" using n(2) s p(4) sn b by (simp add: sys_ready_def raw_system_def set_epoch_def)
  moreover have "heap_room b ?s" using s by (simp add: heap_room_def raw_system_def set_epoch_def)
  moreover have "payloads_ok {} V e ?s" using V by (simp add: payloads_ok_def set_epoch_def)
  moreover have "0 < n" using n(2) by simp
  ultimately have "core n b {} V e ?s" using freed_part_new [of n, OF _ e] p(2) by (simp add: core_def retired_ok_def)
  then show ?thesis using p(1,3) by (simp add: set_epoch_def)
qed

lemma system_init:
  assumes n: "cf_task_num g = n" "2 \<le> n" "n \<le> 65536" and m: "finite (allocated m)" "alloc_room ral (card (allocated m) + b)"
  shows "\<exists>s0 s. EpochSys_new g ral m = Inr s0 \<and> init_descs [0..<n] s0 = Inr s \<and> raw_system n b s \<and> es_ral s = ral
    \<and> allocated (es_mem s) = allocated m \<and> m_hdr (es_mem s) = m_hdr m \<and> m_val (es_mem s) = m_val m"
proof -
  have un: "unat (of_nat n :: u64) = n" using n(3) by (simp add: unat_of_nat)
  obtain u where u: "uid_init (of_nat n) uid_new = Inr u"
    by (cases "uid_loop (of_nat n - 1) 64 1") (auto simp: uid_init_def uid_new_def Let_def)
  obtain ids where ids: "curr_ids u = Some ids" "n \<le> length ids"
    using uid_init_array [OF _ _ u] un n(2,3) by auto
  obtain s0 where s0: "EpochSys_new g ral m = Inr s0" "es_uid s0 = u" "es_task_num s0 = n" "es_mode s0 = ONLINE" "es_ral s0 = ral"
      "length (es_last_epochs s0) = n" "local_descs (es_mem s0) = []" "allocated (es_mem s0) = allocated m"
      "m_hdr (es_mem s0) = m_hdr m" "m_val (es_mem s0) = m_val m"
    using u n(1) by (simp add: EpochSys_new_def)
  have "\<forall>i \<in> set [0..<n]. i < 65536" using n(3) by auto
  from init_descs_made [OF this, of s0] obtain s where s: "init_descs [0..<n] s0 = Inr s" "descs_made s0 s"
      "length (local_descs (es_mem s)) = n" using s0(7) by auto
  then have "raw_system n b s" using s0 ids m by (simp add: raw_system_def descs_made_def heap_room_def alloc_room_def)
  then show ?thesis using s0 s by (auto simp: descs_made_def)
qed

lemma Recoverable_new_idle:
  assumes n: "cf_task_num g = n" "2 \<le> n" "n \<le> 65536" and g: "local_config g" "buffer_size_of g \<noteq> 0" "unat (buffer_size_of g) + b \<le> 2 ^ 64"
    and b: "b < 2 ^ 48" and m: "finite (allocated m)" "alloc_room ral (card (allocated m) + Suc b)"
  shows "\<exists>r. Recoverable_new None g ral None ds m = Inr r \<and> idle n b r Map.empty \<and> es_global_epoch (r_esys r) = INIT_EPOCH"
proof -
  from system_init [OF n m] obtain s0 s1 where
    i: "EpochSys_new g ral m = Inr s0" "init_descs [0..<n] s0 = Inr s1" "raw_system n (Suc b) s1" "es_ral s1 = ral"
      "allocated (es_mem s1) = allocated m" by auto
  obtain a s2 where nw: "new_pblk (mark_epoch_container (PBlk_new\<lparr>pb_blktype := EPOCH\<rparr>)) None s1 = (a, s2)" by fastforce
  note nm = new_pblk_mem [OF nw]
  have "a \<notin> allocated m" using nm(1) m i(4,5) by (simp add: alloc_room_def fresh_addr_def)
  then have "heap_room b s2" using m nm(6) i(4,5) by (subst heap_room_def, subst (1) nm(7)) (simp add: alloc_room_def)
  moreover have "es_uid s2 = es_uid s1" "es_task_num s2 = es_task_num s1" "es_mode s2 = es_mode s1" "es_last_epochs s2 = es_last_epochs s1"
    by (subst nm(7); simp)+
  ultimately have "raw_system n b s2" using i(3) nm(8) by (simp add: raw_system_def)
  then obtain s where "parse_env g (set_epoch INIT_EPOCH s2) = Inr s" "core n b {} Map.empty INIT_EPOCH s" "tt_rep n Map.empty (es_trans s)"
      "es_global_epoch s = INIT_EPOCH"
    using system_reset [OF n g b, of s2 INIT_EPOCH Map.empty] by (auto simp: payloads_ok_def)
  then show ?thesis using i(1,2) nw n(1) b by (auto simp: Recoverable_new_def esys_init_def esys_reset_def idle_def outside_op_def)
qed

text \<open>The payloads that recovery left in memory: of epochs up to that of the container, not retired.\<close>

definition stored :: "(addr \<rightharpoonup> 'v) \<Rightarrow> u64 \<Rightarrow> 'v pmem \<Rightarrow> bool" where
  "stored V e m \<longleftrightarrow> (\<forall>a v. V a = Some v \<longrightarrow> m_val m a = Some v \<and> a \<in> allocated m \<and> a \<noteq> 0 \<and> \<not> is_raw a
     \<and> (\<exists>h. m_hdr m a = Some h \<and> payload_hdr False e h))"

lemma Recoverable_restart_idle:
  assumes n: "cf_task_num g = n" "2 \<le> n" "n \<le> 65536" and g: "local_config g" "buffer_size_of g \<noteq> 0" "unat (buffer_size_of g) + b \<le> 2 ^ 64"
    and b: "b < 2 ^ 48" and m: "finite (allocated m)" "alloc_room ral (card (allocated m) + b)"
    and e: "INIT_EPOCH \<le> e" "unat e + b < 2 ^ 64 - 1" and V: "stored V e m"
  shows "\<exists>r. Recoverable_new None g ral (Some e) ds m = Inr r \<and> idle n b r V \<and> es_global_epoch (r_esys r) = e"
proof -
  from system_init [OF n m] obtain s0 s1 where
    i: "EpochSys_new g ral m = Inr s0" "init_descs [0..<n] s0 = Inr s1" "raw_system n b s1" "es_ral s1 = ral"
      "allocated (es_mem s1) = allocated m" "m_hdr (es_mem s1) = m_hdr m" "m_val (es_mem s1) = m_val m" by auto
  have "payloads_ok {} V e s1" using V i by (simp add: payloads_ok_def stored_def)
  then obtain s where "parse_env g (set_epoch e s1) = Inr s" "core n b {} V e s" "tt_rep n Map.empty (es_trans s)" "es_global_epoch s = e"
    using system_reset [OF n g b i(3) e(1)] by auto
  then show ?thesis using i(1,2) n(1) e(2) by (auto simp: Recoverable_new_def esys_init_def esys_reset_def idle_def outside_op_def)
qed

section \<open>Work dealt to recovery threads\<close>

text \<open>A recovery thread takes every \<^verbatim>\<open>rec_thd\<close>-th element of a vector, from its own number on.\<close>

definition dealt :: "nat \<Rightarrow> nat \<Rightarrow> nat \<Rightarrow> nat list" where
  "dealt rec_thd sz rec_tid = filter (\<lambda>i. i mod rec_thd = rec_tid) [0..<sz]"

lemma dealt_all:
  assumes "0 < k"
  shows "(\<Sum>i<k. mset (dealt k sz i)) = mset [0..<sz]"
proof -
  have "mset (dealt k sz i) = {#x \<in># mset [0..<sz]. x mod k = i#}" for i unfolding dealt_def by (rule mset_filter)
  moreover have "(\<Sum>i<k. {#x \<in># A. x mod k = i#}) = A" for A :: "nat multiset"
  proof (rule multiset_eqI)
    fix x
    have "count (\<Sum>i<k. {#x \<in># A. x mod k = i#}) x = (\<Sum>i<k. if x mod k = i then count A x else 0)" by (simp add: count_sum)
    then show "count (\<Sum>i<k. {#x \<in># A. x mod k = i#}) x = count A x" using assms by simp
  qed
  ultimately show ?thesis by (simp only:)
qed

lemma rfold_positions:
  "set order \<subseteq> {..<length xs} \<Longrightarrow> rfold (\<lambda>i s. rbind (rnth xs i) (\<lambda>p. f p s)) order s = rfold f (map ((!) xs) order) s"
proof (induction order arbitrary: s)
  case (Cons i order)
  then have "rfold (\<lambda>i s. rbind (rnth xs i) (\<lambda>p. f p s)) order = rfold f (map ((!) xs) order)" by (intro ext) simp
  then show ?case using Cons.prems by (simp add: rnth_def)
qed simp

section \<open>A configuration and an allocator that satisfy the hypotheses\<close>

text \<open>What a structure asks of its configuration to run \<^term>\<open>b\<close> steps of the store.\<close>

definition usable :: "config \<Rightarrow> nat \<Rightarrow> bool" where
  "usable g b \<longleftrightarrow> 2 \<le> cf_task_num g \<and> cf_task_num g \<le> 65536 \<and> local_config g \<and> buffer_size_of g \<noteq> 0
     \<and> unat (buffer_size_of g) + b \<le> 2 ^ 64 \<and> b < 2 ^ 48"

lemma usable_new:
  assumes "usable g b" "finite (allocated m)" "alloc_room ral (card (allocated m) + Suc b)"
  shows "\<exists>r. Recoverable_new None g ral None ds m = Inr r \<and> idle (cf_task_num g) b r Map.empty"
  using Recoverable_new_idle [OF refl] assms unfolding usable_def by blast

lemma usable_restart:
  assumes "usable g b" "finite (allocated m)" "alloc_room ral (card (allocated m) + b)" "INIT_EPOCH \<le> e" "unat e + b < 2 ^ 64 - 1" "stored V e m"
  shows "\<exists>r. Recoverable_new None g ral (Some e) ds m = Inr r \<and> idle (cf_task_num g) b r V"
  using Recoverable_restart_idle [OF refl] assms unfolding usable_def by blast

lemma usable_mono: "usable g b \<Longrightarrow> b' \<le> b \<Longrightarrow> usable g b'"
  by (auto simp: usable_def)

lemma ex_config_usable: "usable ex_config 900" "cf_task_num ex_config = 2"
  by (simp_all add: usable_def local_config_def ex_config_def buffer_size_of_def strat_ok_def trans_ok_def unit_ok_def)

text \<open>Memory with nothing in it.\<close>

definition ex_memory :: "'v pmem" where
  "ex_memory = \<lparr>m_hdr = Map.empty, m_val = Map.empty, n_hdr = Map.empty, n_val = Map.empty, allocated = {}, local_descs = [], n_descs = []\<rparr>"

text \<open>Of a pool of cache lines, the first that is free.\<close>

definition line_pool :: "addr list" where
  "line_pool = map (\<lambda>i. of_nat (64 * i)) [1..<1001]"

definition first_fit :: "addr set \<Rightarrow> addr" where
  "first_fit S = (case filter (\<lambda>a. a \<notin> S) line_pool of [] \<Rightarrow> 0 | a # _ \<Rightarrow> a)"

lemma line_pool_ok: "a \<in> set line_pool \<Longrightarrow> a \<noteq> 0 \<and> \<not> is_raw a" "card (set line_pool) = 1000"
proof -
  have u: "unat (of_nat (64 * i) :: u64) = 64 * i" if "i < 1001" for i using that by (simp add: unat_of_nat del: of_nat_mult)
  {
    assume "a \<in> set line_pool"
    then obtain i where i: "a = of_nat (64 * i)" "1 \<le> i" "i < 1001" by (auto simp: line_pool_def simp del: of_nat_mult)
    have "unat a = 64 * i" using i u by simp
    moreover have "unat (a AND 1) = unat a mod 2" by (simp add: and_one_eq unat_mod)
    ultimately have "unat a \<noteq> 0" "unat (a AND 1) = 0" using i by simp_all
    then show "a \<noteq> 0 \<and> \<not> is_raw a" by (auto simp: is_raw_def simp del: unat_eq_0)
  }
  have "inj_on (\<lambda>i. of_nat (64 * i) :: u64) {1..<1001}"
  proof (rule inj_onI)
    fix x y assume "x \<in> {1..<1001}" "y \<in> {1..<1001}" and eq: "(of_nat (64 * x) :: u64) = of_nat (64 * y)"
    then have "x < 1001" "y < 1001" by auto
    then have "64 * x = 64 * y" using u [of x] u [of y] eq by argo
    then show "x = y" by simp
  qed
  then show "card (set line_pool) = 1000" by (simp add: line_pool_def card_image del: of_nat_mult)
qed

lemma first_fit_room:
  assumes "k < 1000"
  shows "alloc_room first_fit k"
proof -
  have "fresh_addr (first_fit S) S" if S: "finite S" "card S \<le> k" for S
  proof -
    have "\<not> set line_pool \<subseteq> S" using line_pool_ok(2) S(2) card_mono [OF S(1), of "set line_pool"] assms by linarith
    then have "filter (\<lambda>a. a \<notin> S) line_pool \<noteq> []" by (auto simp: filter_empty_conv)
    then obtain a as where f: "filter (\<lambda>a. a \<notin> S) line_pool = a # as" by (meson neq_Nil_conv)
    then have "a \<in> {x \<in> set line_pool. x \<notin> S}" unfolding set_filter [symmetric] by simp
    then show ?thesis using f line_pool_ok(1) by (simp add: first_fit_def fresh_addr_def)
  qed
  then show ?thesis by (simp add: alloc_room_def)
qed

end
