(* ===== verification/Rideable_Specs.thy ===== *)
theory Rideable_Specs
  imports Montage_Prelude
begin

text \<open>
  The interfaces of structures, \<^verbatim>\<open>src/RMap.hpp\<close> and \<^verbatim>\<open>src/RQueue.hpp\<close>, with the contract their comments and names give:
  a finite map and a first-in first-out queue.  A structure that keeps the laws of its interface, one operation at a time,
  returns over any history the results of the map or queue.  \<^verbatim>\<open>tick\<close> stands for what happens between operations, the passing
  of an epoch for the structures on Montage.
\<close>

section \<open>Histories\<close>

fun obj_run :: "('op \<Rightarrow> 's \<Rightarrow> ('r \<times> 's) res) \<Rightarrow> 'op list \<Rightarrow> 's \<Rightarrow> ('r list \<times> 's) res" where
  "obj_run step [] s = Inr ([], s)"
| "obj_run step (x # xs) s = rbind (step x s) (\<lambda>(r, s1). rbind (obj_run step xs s1) (\<lambda>(rs, s2). Inr (r # rs, s2)))"

fun spec_run :: "('op \<Rightarrow> 'a \<Rightarrow> 'r \<times> 'a) \<Rightarrow> 'op list \<Rightarrow> 'a \<Rightarrow> 'r list \<times> 'a" where
  "spec_run step [] a = ([], a)"
| "spec_run step (x # xs) a = (case step x a of (r, a1) \<Rightarrow> case spec_run step xs a1 of (rs, a2) \<Rightarrow> (r # rs, a2))"

lemma spec_run_append: "snd (spec_run f (xs @ ys) a) = snd (spec_run f ys (snd (spec_run f xs a)))"
  by (induction xs arbitrary: a) (simp_all add: case_prod_beta)

text \<open>Refinement, for as many operations as the representation has room for.\<close>

locale refined_object =
  fixes step :: "'op \<Rightarrow> 's \<Rightarrow> ('r \<times> 's) res"
    and spec :: "'op \<Rightarrow> 'a \<Rightarrow> 'r \<times> 'a"
    and rep :: "nat \<Rightarrow> 's \<Rightarrow> 'a \<Rightarrow> bool"
    and legal :: "'op \<Rightarrow> bool"
  assumes step_law: "rep (Suc b) s a \<Longrightarrow> legal x \<Longrightarrow> \<exists>s'. step x s = Inr (fst (spec x a), s') \<and> rep b s' (snd (spec x a))"
begin

lemma run_law:
  assumes "rep (length xs + b) s a" "list_all legal xs"
  shows "\<exists>s'. obj_run step xs s = Inr (fst (spec_run spec xs a), s') \<and> rep b s' (snd (spec_run spec xs a))"
  using assms
proof (induction xs arbitrary: s a)
  case (Cons x xs)
  obtain s1 where s1: "step x s = Inr (fst (spec x a), s1)" "rep (length xs + b) s1 (snd (spec x a))"
    using step_law [of "length xs + b" s a x] Cons.prems by auto
  then show ?case using Cons.IH [OF s1(2)] Cons.prems(2) by (auto split: prod.splits)
qed simp

end

section \<open>Maps\<close>

datatype ('k, 'v) map_op = MapGet 'k nat | MapPut 'k 'v nat | MapInsert 'k 'v nat | MapRemove 'k nat | MapTick nat

datatype 'v map_res = MapOpt "'v option" | MapBool bool | MapUnit

text \<open>Operations are run by the structure's threads, the passing of time by any.\<close>

fun map_legal :: "nat set \<Rightarrow> ('k, 'v) map_op \<Rightarrow> bool" where
  "map_legal T (MapGet k t) \<longleftrightarrow> t \<in> T"
| "map_legal T (MapPut k v t) \<longleftrightarrow> t \<in> T"
| "map_legal T (MapInsert k v t) \<longleftrightarrow> t \<in> T"
| "map_legal T (MapRemove k t) \<longleftrightarrow> t \<in> T"
| "map_legal T (MapTick t) \<longleftrightarrow> True"

fun map_spec :: "('k, 'v) map_op \<Rightarrow> ('k \<rightharpoonup> 'v) \<Rightarrow> 'v map_res \<times> ('k \<rightharpoonup> 'v)" where
  "map_spec (MapGet k t) M = (MapOpt (M k), M)"
| "map_spec (MapPut k v t) M = (MapOpt (M k), M(k \<mapsto> v))"
| "map_spec (MapInsert k v t) M = (MapBool (M k = None), if M k = None then M(k \<mapsto> v) else M)"
| "map_spec (MapRemove k t) M = (MapOpt (M k), M(k := None))"
| "map_spec (MapTick t) M = (MapUnit, M)"

fun map_step :: "('k \<Rightarrow> nat \<Rightarrow> 's \<Rightarrow> ('v option \<times> 's) res) \<Rightarrow> ('k \<Rightarrow> 'v \<Rightarrow> nat \<Rightarrow> 's \<Rightarrow> ('v option \<times> 's) res)
    \<Rightarrow> ('k \<Rightarrow> 'v \<Rightarrow> nat \<Rightarrow> 's \<Rightarrow> (bool \<times> 's) res) \<Rightarrow> ('k \<Rightarrow> nat \<Rightarrow> 's \<Rightarrow> ('v option \<times> 's) res) \<Rightarrow> (nat \<Rightarrow> 's \<Rightarrow> 's res)
    \<Rightarrow> ('k, 'v) map_op \<Rightarrow> 's \<Rightarrow> ('v map_res \<times> 's) res" where
  "map_step get put ins rem tick (MapGet k t) s = rbind (get k t s) (\<lambda>(r, s'). Inr (MapOpt r, s'))"
| "map_step get put ins rem tick (MapPut k v t) s = rbind (put k v t s) (\<lambda>(r, s'). Inr (MapOpt r, s'))"
| "map_step get put ins rem tick (MapInsert k v t) s = rbind (ins k v t s) (\<lambda>(r, s'). Inr (MapBool r, s'))"
| "map_step get put ins rem tick (MapRemove k t) s = rbind (rem k t s) (\<lambda>(r, s'). Inr (MapOpt r, s'))"
| "map_step get put ins rem tick (MapTick t) s = rbind (tick t s) (\<lambda>s'. Inr (MapUnit, s'))"

locale rmap =
  fixes get :: "'k \<Rightarrow> nat \<Rightarrow> 's \<Rightarrow> ('v option \<times> 's) res"
    and put :: "'k \<Rightarrow> 'v \<Rightarrow> nat \<Rightarrow> 's \<Rightarrow> ('v option \<times> 's) res"
    and ins :: "'k \<Rightarrow> 'v \<Rightarrow> nat \<Rightarrow> 's \<Rightarrow> (bool \<times> 's) res"
    and rem :: "'k \<Rightarrow> nat \<Rightarrow> 's \<Rightarrow> ('v option \<times> 's) res"
    and tick :: "nat \<Rightarrow> 's \<Rightarrow> 's res"
    and rep :: "nat \<Rightarrow> 's \<Rightarrow> ('k \<rightharpoonup> 'v) \<Rightarrow> bool"
    and threads :: "nat set"
  assumes get_law: "rep (Suc b) s M \<Longrightarrow> t \<in> threads \<Longrightarrow> \<exists>s'. get k t s = Inr (M k, s') \<and> rep b s' M"
    and put_law: "rep (Suc b) s M \<Longrightarrow> t \<in> threads \<Longrightarrow> \<exists>s'. put k v t s = Inr (M k, s') \<and> rep b s' (M(k \<mapsto> v))"
    and ins_law: "rep (Suc b) s M \<Longrightarrow> t \<in> threads \<Longrightarrow>
      \<exists>s'. ins k v t s = Inr (M k = None, s') \<and> rep b s' (if M k = None then M(k \<mapsto> v) else M)"
    and rem_law: "rep (Suc b) s M \<Longrightarrow> t \<in> threads \<Longrightarrow> \<exists>s'. rem k t s = Inr (M k, s') \<and> rep b s' (M(k := None))"
    and tick_law: "rep (Suc b) s M \<Longrightarrow> \<exists>s'. tick t s = Inr s' \<and> rep b s' M"
begin

sublocale refined_object "map_step get put ins rem tick" map_spec rep "map_legal threads"
proof (unfold_locales, goal_cases)
  case (1 b s M x)
  show ?case
  proof (cases x)
    case (MapGet k t)
    then obtain s' where "get k t s = Inr (M k, s')" "rep b s' M" using get_law [OF 1(1), of t k] 1(2) by auto
    then show ?thesis using MapGet by auto
  next
    case (MapPut k v t)
    then obtain s' where "put k v t s = Inr (M k, s')" "rep b s' (M(k \<mapsto> v))" using put_law [OF 1(1), of t k v] 1(2) by auto
    then show ?thesis using MapPut by auto
  next
    case (MapInsert k v t)
    then obtain s' where "ins k v t s = Inr (M k = None, s')" "rep b s' (if M k = None then M(k \<mapsto> v) else M)"
      using ins_law [OF 1(1), of t k v] 1(2) by auto
    then show ?thesis using MapInsert by auto
  next
    case (MapRemove k t)
    then obtain s' where "rem k t s = Inr (M k, s')" "rep b s' (M(k := None))" using rem_law [OF 1(1), of t k] 1(2) by auto
    then show ?thesis using MapRemove by auto
  next
    case (MapTick t)
    then obtain s' where "tick t s = Inr s'" "rep b s' M" using tick_law [OF 1(1), of t] by auto
    then show ?thesis using MapTick by auto
  qed
qed

end

section \<open>Queues\<close>

datatype 'v queue_op = Enqueue 'v nat | Dequeue nat | QueueTick nat

fun queue_legal :: "nat set \<Rightarrow> 'v queue_op \<Rightarrow> bool" where
  "queue_legal T (Enqueue v t) \<longleftrightarrow> t \<in> T"
| "queue_legal T (Dequeue t) \<longleftrightarrow> t \<in> T"
| "queue_legal T (QueueTick t) \<longleftrightarrow> True"

fun queue_spec :: "'v queue_op \<Rightarrow> 'v list \<Rightarrow> 'v option \<times> 'v list" where
  "queue_spec (Enqueue v t) q = (None, q @ [v])"
| "queue_spec (Dequeue t) [] = (None, [])"
| "queue_spec (Dequeue t) (v # q) = (Some v, q)"
| "queue_spec (QueueTick t) q = (None, q)"

fun queue_step :: "('v \<Rightarrow> nat \<Rightarrow> 's \<Rightarrow> 's res) \<Rightarrow> (nat \<Rightarrow> 's \<Rightarrow> ('v option \<times> 's) res) \<Rightarrow> (nat \<Rightarrow> 's \<Rightarrow> 's res)
    \<Rightarrow> 'v queue_op \<Rightarrow> 's \<Rightarrow> ('v option \<times> 's) res" where
  "queue_step enq deq tick (Enqueue v t) s = rbind (enq v t s) (\<lambda>s'. Inr (None, s'))"
| "queue_step enq deq tick (Dequeue t) s = deq t s"
| "queue_step enq deq tick (QueueTick t) s = rbind (tick t s) (\<lambda>s'. Inr (None, s'))"

locale rqueue =
  fixes enq :: "'v \<Rightarrow> nat \<Rightarrow> 's \<Rightarrow> 's res"
    and deq :: "nat \<Rightarrow> 's \<Rightarrow> ('v option \<times> 's) res"
    and tick :: "nat \<Rightarrow> 's \<Rightarrow> 's res"
    and rep :: "nat \<Rightarrow> 's \<Rightarrow> 'v list \<Rightarrow> bool"
    and threads :: "nat set"
  assumes enq_law: "rep (Suc b) s q \<Longrightarrow> t \<in> threads \<Longrightarrow> \<exists>s'. enq v t s = Inr s' \<and> rep b s' (q @ [v])"
    and deq_empty_law: "rep (Suc b) s [] \<Longrightarrow> t \<in> threads \<Longrightarrow> \<exists>s'. deq t s = Inr (None, s') \<and> rep b s' []"
    and deq_law: "rep (Suc b) s (v # q) \<Longrightarrow> t \<in> threads \<Longrightarrow> \<exists>s'. deq t s = Inr (Some v, s') \<and> rep b s' q"
    and tick_law: "rep (Suc b) s q \<Longrightarrow> \<exists>s'. tick t s = Inr s' \<and> rep b s' q"
begin

sublocale refined_object "queue_step enq deq tick" queue_spec rep "queue_legal threads"
proof (unfold_locales, goal_cases)
  case (1 b s q x)
  show ?case
  proof (cases x)
    case (Enqueue v t)
    then obtain s' where "enq v t s = Inr s'" "rep b s' (q @ [v])" using enq_law [OF 1(1), of t v] 1(2) by auto
    then show ?thesis using Enqueue by auto
  next
    case (Dequeue t)
    show ?thesis
    proof (cases q)
      case Nil
      then obtain s' where "deq t s = Inr (None, s')" "rep b s' []" using deq_empty_law [of b s t] 1 Dequeue by auto
      then show ?thesis using Dequeue Nil by auto
    next
      case (Cons v q')
      then obtain s' where "deq t s = Inr (Some v, s')" "rep b s' q'" using deq_law [of b s v q' t] 1 Dequeue by auto
      then show ?thesis using Dequeue Cons by auto
    qed
  next
    case (QueueTick t)
    then obtain s' where "tick t s = Inr s'" "rep b s' q" using tick_law [OF 1(1), of t] by auto
    then show ?thesis using QueueTick by auto
  qed
qed

end

section \<open>Graphs\<close>

text \<open>A directed graph without loops, with weights on its edges.\<close>

record agraph =
  ag_verts :: "int set"
  ag_edges :: "int \<times> int \<rightharpoonup> int"

datatype graph_op = AddEdge int int int nat | HasEdge int int nat | RemoveEdge int int nat | AddVertex int "int list" nat
  | RemoveVertex int nat | GraphTick nat

text \<open>The vertices a new one is joined to are drawn at random; a number equal to its position in the draw does not count.\<close>

definition drawn :: "int list \<Rightarrow> int set" where
  "drawn samples = {samples ! i | i. i < length samples \<and> samples ! i \<noteq> int i}"

definition join_vertex :: "int \<Rightarrow> int set \<Rightarrow> agraph \<Rightarrow> agraph" where
  "join_vertex v U G = \<lparr>ag_verts = insert v (ag_verts G),
     ag_edges = (\<lambda>(i, j). if i = v \<and> j \<in> U \<inter> ag_verts G then Some (-1) else ag_edges G (i, j))\<rparr>"

definition cut_out :: "int \<Rightarrow> agraph \<Rightarrow> agraph" where
  "cut_out v G = \<lparr>ag_verts = ag_verts G - {v}, ag_edges = (\<lambda>(i, j). if i = v \<or> j = v then None else ag_edges G (i, j))\<rparr>"

fun graph_legal :: "nat set \<Rightarrow> int set \<Rightarrow> graph_op \<Rightarrow> bool" where
  "graph_legal T I (AddEdge s d w t) \<longleftrightarrow> t \<in> T \<and> s \<in> I \<and> d \<in> I \<and> s \<noteq> d"
| "graph_legal T I (HasEdge s d t) \<longleftrightarrow> t \<in> T \<and> s \<in> I"
| "graph_legal T I (RemoveEdge s d t) \<longleftrightarrow> t \<in> T \<and> s \<in> I \<and> d \<in> I"
| "graph_legal T I (AddVertex v us t) \<longleftrightarrow> t \<in> T \<and> v \<in> I \<and> set us \<subseteq> I"
| "graph_legal T I (RemoveVertex v t) \<longleftrightarrow> t \<in> T \<and> v \<in> I"
| "graph_legal T I (GraphTick t) \<longleftrightarrow> True"

fun graph_spec :: "graph_op \<Rightarrow> agraph \<Rightarrow> bool \<times> agraph" where
  "graph_spec (AddEdge s d w t) G =
     (if s \<in> ag_verts G \<and> d \<in> ag_verts G \<and> ag_edges G (s, d) = None
      then (True, G\<lparr>ag_edges := (ag_edges G)((s, d) \<mapsto> w)\<rparr>) else (False, G))"
| "graph_spec (HasEdge s d t) G = (ag_edges G (s, d) \<noteq> None, G)"
| "graph_spec (RemoveEdge s d t) G = (ag_edges G (s, d) \<noteq> None, G\<lparr>ag_edges := (ag_edges G)((s, d) := None)\<rparr>)"
| "graph_spec (AddVertex v us t) G = (if v \<in> ag_verts G then (False, G) else (True, join_vertex v (drawn us) G))"
| "graph_spec (RemoveVertex v t) G = (if v \<in> ag_verts G then (True, cut_out v G) else (False, G))"
| "graph_spec (GraphTick t) G = (True, G)"

fun graph_step :: "(int \<Rightarrow> int \<Rightarrow> int \<Rightarrow> nat \<Rightarrow> 's \<Rightarrow> (bool \<times> 's) res) \<Rightarrow> (int \<Rightarrow> int \<Rightarrow> nat \<Rightarrow> 's \<Rightarrow> (bool \<times> 's) res)
    \<Rightarrow> (int \<Rightarrow> int \<Rightarrow> nat \<Rightarrow> 's \<Rightarrow> (bool \<times> 's) res) \<Rightarrow> (int \<Rightarrow> int list \<Rightarrow> nat \<Rightarrow> 's \<Rightarrow> (bool \<times> 's) res)
    \<Rightarrow> (int \<Rightarrow> nat \<Rightarrow> 's \<Rightarrow> (bool \<times> 's) res) \<Rightarrow> (nat \<Rightarrow> 's \<Rightarrow> 's res) \<Rightarrow> graph_op \<Rightarrow> 's \<Rightarrow> (bool \<times> 's) res" where
  "graph_step ae he re av rv tick (AddEdge s d w t) g = ae s d w t g"
| "graph_step ae he re av rv tick (HasEdge s d t) g = he s d t g"
| "graph_step ae he re av rv tick (RemoveEdge s d t) g = re s d t g"
| "graph_step ae he re av rv tick (AddVertex v us t) g = av v us t g"
| "graph_step ae he re av rv tick (RemoveVertex v t) g = rv v t g"
| "graph_step ae he re av rv tick (GraphTick t) g = rbind (tick t g) (\<lambda>g'. Inr (True, g'))"

locale rgraph =
  fixes ae :: "int \<Rightarrow> int \<Rightarrow> int \<Rightarrow> nat \<Rightarrow> 's \<Rightarrow> (bool \<times> 's) res"
    and he :: "int \<Rightarrow> int \<Rightarrow> nat \<Rightarrow> 's \<Rightarrow> (bool \<times> 's) res"
    and re :: "int \<Rightarrow> int \<Rightarrow> nat \<Rightarrow> 's \<Rightarrow> (bool \<times> 's) res"
    and av :: "int \<Rightarrow> int list \<Rightarrow> nat \<Rightarrow> 's \<Rightarrow> (bool \<times> 's) res"
    and rv :: "int \<Rightarrow> nat \<Rightarrow> 's \<Rightarrow> (bool \<times> 's) res"
    and tick :: "nat \<Rightarrow> 's \<Rightarrow> 's res"
    and rep :: "nat \<Rightarrow> 's \<Rightarrow> agraph \<Rightarrow> bool"
    and threads :: "nat set"
    and ids :: "int set"
  assumes ae_refused: "rep (Suc b) g G \<Longrightarrow> t \<in> threads \<Longrightarrow> s \<in> ids \<Longrightarrow> d \<in> ids \<Longrightarrow> s \<noteq> d \<Longrightarrow>
      s \<notin> ag_verts G \<or> d \<notin> ag_verts G \<or> ag_edges G (s, d) \<noteq> None \<Longrightarrow> \<exists>g'. ae s d w t g = Inr (False, g') \<and> rep b g' G"
    and ae_law: "rep (Suc b) g G \<Longrightarrow> t \<in> threads \<Longrightarrow> s \<in> ids \<Longrightarrow> d \<in> ids \<Longrightarrow> s \<noteq> d \<Longrightarrow>
      s \<in> ag_verts G \<Longrightarrow> d \<in> ag_verts G \<Longrightarrow> ag_edges G (s, d) = None \<Longrightarrow>
      \<exists>g'. ae s d w t g = Inr (True, g') \<and> rep b g' (G\<lparr>ag_edges := (ag_edges G)((s, d) \<mapsto> w)\<rparr>)"
    and he_law: "rep (Suc b) g G \<Longrightarrow> t \<in> threads \<Longrightarrow> s \<in> ids \<Longrightarrow> \<exists>g'. he s d t g = Inr (ag_edges G (s, d) \<noteq> None, g') \<and> rep b g' G"
    and re_law: "rep (Suc b) g G \<Longrightarrow> t \<in> threads \<Longrightarrow> s \<in> ids \<Longrightarrow> d \<in> ids \<Longrightarrow>
      \<exists>g'. re s d t g = Inr (ag_edges G (s, d) \<noteq> None, g') \<and> rep b g' (G\<lparr>ag_edges := (ag_edges G)((s, d) := None)\<rparr>)"
    and av_law: "rep (Suc b) g G \<Longrightarrow> t \<in> threads \<Longrightarrow> v \<in> ids \<Longrightarrow> set us \<subseteq> ids \<Longrightarrow>
      \<exists>g'. av v us t g = Inr (v \<notin> ag_verts G, g') \<and> rep b g' (if v \<in> ag_verts G then G else join_vertex v (drawn us) G)"
    and rv_law: "rep (Suc b) g G \<Longrightarrow> t \<in> threads \<Longrightarrow> v \<in> ids \<Longrightarrow>
      \<exists>g'. rv v t g = Inr (v \<in> ag_verts G, g') \<and> rep b g' (if v \<in> ag_verts G then cut_out v G else G)"
    and tick_law: "rep (Suc b) g G \<Longrightarrow> \<exists>g'. tick t g = Inr g' \<and> rep b g' G"
begin

sublocale refined_object "graph_step ae he re av rv tick" graph_spec rep "graph_legal threads ids"
proof (unfold_locales, goal_cases)
  case (1 b g G x)
  show ?case
  proof (cases x)
    case (AddEdge s d w t)
    then show ?thesis using 1 ae_law [OF 1(1), of t s d w] ae_refused [OF 1(1), of t s d w]
      by (cases "s \<in> ag_verts G \<and> d \<in> ag_verts G \<and> ag_edges G (s, d) = None") auto
  next
    case (HasEdge s d t)
    then show ?thesis using 1(2) he_law [OF 1(1), of t s d] by auto
  next
    case (RemoveEdge s d t)
    then show ?thesis using 1(2) re_law [OF 1(1), of t s d] by auto
  next
    case (AddVertex v us t)
    then show ?thesis using 1(2) av_law [OF 1(1), of t v us] by auto
  next
    case (RemoveVertex v t)
    then show ?thesis using 1(2) rv_law [OF 1(1), of t v] by auto
  next
    case (GraphTick t)
    then show ?thesis using tick_law [OF 1(1), of t] by auto
  qed
qed

end

end
