(* ===== verification/Transient_Structures.thy ===== *)
theory Transient_Structures
  imports Rideable_Specs
begin

text \<open>
  \<^verbatim>\<open>src/rideables/HashTable.hpp\<close> (\<^verbatim>\<open>DRAMHashTable\<close>) and \<^verbatim>\<open>src/rideables/Queue.hpp\<close> (\<^verbatim>\<open>DRAMQueue\<close>): the lock-based structures
  in ordinary memory.  A chain of \<^verbatim>\<open>ListNode\<close>s is the list of what its nodes hold, from \<^verbatim>\<open>head.next\<close> on; the loops walk it
  with \<^verbatim>\<open>prev\<close> at the node before.  The hash function, the standard library's, is an argument, and \<^verbatim>\<open>idxSize\<close> the length of the
  array of buckets.  An operation runs under its lock.
\<close>

section \<open>Hash table\<close>

definition ht_index :: "('k \<Rightarrow> u64) \<Rightarrow> 'k \<Rightarrow> 'b list \<Rightarrow> nat" where
  "ht_index hash_fn key buckets = unat (hash_fn key) mod length buckets"

fun dram_get_loop :: "'k \<Rightarrow> ('k \<times> 'v) list \<Rightarrow> 'v option" where
  "dram_get_loop key [] = None"
| "dram_get_loop key ((k, v) # nodes) = (if k = key then Some v else dram_get_loop key nodes)"

fun dram_put_loop :: "'k::linorder \<Rightarrow> 'v \<Rightarrow> ('k \<times> 'v) list \<Rightarrow> 'v option \<times> ('k \<times> 'v) list" where
  "dram_put_loop key val [] = (None, [(key, val)])"
| "dram_put_loop key val ((k, v) # nodes) =
     (if k = key then (Some v, (k, val) # nodes)
      else if k > key then (None, (key, val) # (k, v) # nodes)
      else (case dram_put_loop key val nodes of (ret, l) \<Rightarrow> (ret, (k, v) # l)))"

fun dram_insert_loop :: "'k::linorder \<Rightarrow> 'v \<Rightarrow> ('k \<times> 'v) list \<Rightarrow> bool \<times> ('k \<times> 'v) list" where
  "dram_insert_loop key val [] = (True, [(key, val)])"
| "dram_insert_loop key val ((k, v) # nodes) =
     (if k = key then (False, (k, v) # nodes)
      else if k > key then (True, (key, val) # (k, v) # nodes)
      else (case dram_insert_loop key val nodes of (ret, l) \<Rightarrow> (ret, (k, v) # l)))"

fun dram_remove_loop :: "'k::linorder \<Rightarrow> ('k \<times> 'v) list \<Rightarrow> 'v option \<times> ('k \<times> 'v) list" where
  "dram_remove_loop key [] = (None, [])"
| "dram_remove_loop key ((k, v) # nodes) =
     (if k = key then (Some v, nodes)
      else if k > key then (None, (k, v) # nodes)
      else (case dram_remove_loop key nodes of (ret, l) \<Rightarrow> (ret, (k, v) # l)))"

type_synonym ('k, 'v) dram_table = "('k \<times> 'v) list list"

definition on_bucket :: "('k \<Rightarrow> u64) \<Rightarrow> 'k \<Rightarrow> ('b \<Rightarrow> 'r \<times> 'b) \<Rightarrow> 'b list \<Rightarrow> ('r \<times> 'b list) res" where
  "on_bucket hash_fn key f buckets =
     (let idx = ht_index hash_fn key buckets in
      rbind (rnth buckets idx) (\<lambda>head. case f head of (ret, l) \<Rightarrow> Inr (ret, buckets[idx := l])))"

definition dram_get :: "('k \<Rightarrow> u64) \<Rightarrow> 'k \<Rightarrow> nat \<Rightarrow> ('k, 'v) dram_table \<Rightarrow> ('v option \<times> ('k, 'v) dram_table) res" where
  "dram_get hash_fn key tid = on_bucket hash_fn key (\<lambda>l. (dram_get_loop key l, l))"

definition dram_put :: "('k::linorder \<Rightarrow> u64) \<Rightarrow> 'k \<Rightarrow> 'v \<Rightarrow> nat \<Rightarrow> ('k, 'v) dram_table \<Rightarrow> ('v option \<times> ('k, 'v) dram_table) res" where
  "dram_put hash_fn key val tid = on_bucket hash_fn key (dram_put_loop key val)"

definition dram_insert :: "('k::linorder \<Rightarrow> u64) \<Rightarrow> 'k \<Rightarrow> 'v \<Rightarrow> nat \<Rightarrow> ('k, 'v) dram_table \<Rightarrow> (bool \<times> ('k, 'v) dram_table) res" where
  "dram_insert hash_fn key val tid = on_bucket hash_fn key (dram_insert_loop key val)"

definition dram_replace :: "'k \<Rightarrow> 'v \<Rightarrow> nat \<Rightarrow> 's \<Rightarrow> ('v option \<times> 's) res" where
  "dram_replace key val tid t = Inl Assertion"

definition dram_remove :: "('k::linorder \<Rightarrow> u64) \<Rightarrow> 'k \<Rightarrow> nat \<Rightarrow> ('k, 'v) dram_table \<Rightarrow> ('v option \<times> ('k, 'v) dram_table) res" where
  "dram_remove hash_fn key tid = on_bucket hash_fn key (dram_remove_loop key)"

text \<open>Chains are sorted by key, and a key is in the bucket of its hash.\<close>

definition chain_ok :: "('k::linorder \<times> 'v) list \<Rightarrow> bool" where
  "chain_ok l \<longleftrightarrow> sorted_wrt (<) (map fst l)"

definition dram_rep :: "('k::linorder \<Rightarrow> u64) \<Rightarrow> ('k, 'v) dram_table \<Rightarrow> ('k \<rightharpoonup> 'v) \<Rightarrow> bool" where
  "dram_rep hash_fn t M \<longleftrightarrow> t \<noteq> [] \<and> (\<forall>i < length t. chain_ok (t ! i) \<and> (\<forall>(k, v) \<in> set (t ! i). ht_index hash_fn k t = i))
     \<and> (\<forall>k. M k = map_of (t ! ht_index hash_fn k t) k)"

lemma chain_above: "chain_ok ((k', v') # l) \<Longrightarrow> k \<le> k' \<Longrightarrow> map_of l k = None"
  by (auto simp: chain_ok_def map_of_eq_None_iff)

lemma chain_tl: "chain_ok (p # l) \<Longrightarrow> chain_ok l"
  by (simp add: chain_ok_def)

lemma dram_get_loop_map: "dram_get_loop key l = map_of l key"
  by (induction key l rule: dram_get_loop.induct) auto

lemma dram_put_loop_map:
  assumes "chain_ok l" "dram_put_loop key val l = (ret, l')"
  shows "ret = map_of l key" "map_of l' = (map_of l)(key \<mapsto> val)" "chain_ok l'" "fst ` set l' = insert key (fst ` set l)"
proof -
  have "ret = map_of l key \<and> map_of l' = (map_of l)(key \<mapsto> val) \<and> chain_ok l' \<and> fst ` set l' = insert key (fst ` set l)"
    using assms
  proof (induction key val l arbitrary: l' rule: dram_put_loop.induct)
    case (2 key val k v nodes)
    note c = chain_tl [OF 2(2)]
    consider "k = key" | "key < k" | "k < key" by fastforce
    then show ?case
    proof cases
      case 3
      then have "k \<noteq> key" "\<not> key < k" by auto
      then obtain l1 where l1: "dram_put_loop key val nodes = (ret, l1)" "l' = (k, v) # l1"
        using 2(3) by (auto split: prod.splits)
      from 2(1) [OF _ _ c l1(1)] 3 have i: "ret = map_of nodes key" "map_of l1 = (map_of nodes)(key \<mapsto> val)" "chain_ok l1"
        "fst ` set l1 = insert key (fst ` set nodes)" by auto
      have "\<forall>x \<in> fst ` set l1. k < x" using 2(2) i(4) 3 by (auto simp: chain_ok_def)
      then show ?thesis using i l1(2) 3 by (auto simp: chain_ok_def fun_upd_twist)
    next
      case b: 2
      then have "k \<noteq> key" by auto
      with b have n: "map_of ((k, v) # nodes) key = None" "l' = (key, val) # (k, v) # nodes" "ret = None"
        using chain_above [OF 2(2), of key] 2(3) by auto
      have "chain_ok l'" using b 2(2) n(2) by (auto simp: chain_ok_def)
      then show ?thesis using n by (simp add: fun_eq_iff)
    next
      case 1
      then show ?thesis using 2(2,3) by (auto simp: chain_ok_def chain_above [OF 2(2)])
    qed
  qed (auto simp: chain_ok_def)
  then show "ret = map_of l key" "map_of l' = (map_of l)(key \<mapsto> val)" "chain_ok l'" "fst ` set l' = insert key (fst ` set l)" by auto
qed

lemma dram_insert_loop_put:
  "chain_ok l \<Longrightarrow> dram_insert_loop key val l = (if map_of l key = None then (True, snd (dram_put_loop key val l)) else (False, l))"
proof (induction key val l rule: dram_insert_loop.induct)
  case (2 key val k v nodes)
  consider "k = key" | "key < k" | "k < key" by fastforce
  then show ?case
  proof cases
    case b: 2
    then show ?thesis using chain_above [OF 2(2), of key] by simp
  next
    case 3
    then show ?thesis using 2(1) [OF _ _ chain_tl [OF 2(2)]] by (auto split: prod.splits)
  qed simp
qed simp

lemma dram_remove_loop_map:
  assumes "chain_ok l" "dram_remove_loop key l = (ret, l')"
  shows "ret = map_of l key" "map_of l' = (map_of l)(key := None)" "chain_ok l'" "fst ` set l' \<subseteq> fst ` set l"
proof -
  have "ret = map_of l key \<and> map_of l' = (map_of l)(key := None) \<and> chain_ok l' \<and> fst ` set l' \<subseteq> fst ` set l"
    using assms
  proof (induction key l arbitrary: l' rule: dram_remove_loop.induct)
    case (2 key k v nodes)
    note c = chain_tl [OF 2(2)]
    consider "k = key" | "key < k" | "k < key" by fastforce
    then show ?case
    proof cases
      case b: 2
      then have "k \<noteq> key" by auto
      with b have n: "map_of ((k, v) # nodes) key = None" "l' = (k, v) # nodes" "ret = None"
        using chain_above [OF 2(2), of key] 2(3) by auto
      then show ?thesis using 2(2) by (simp add: fun_eq_iff)
    next
      case 3
      then have "k \<noteq> key" "\<not> key < k" by auto
      then obtain l1 where l1: "dram_remove_loop key nodes = (ret, l1)" "l' = (k, v) # l1"
        using 2(3) by (auto split: prod.splits)
      from 2(1) [OF _ _ c l1(1)] 3 have i: "ret = map_of nodes key" "map_of l1 = (map_of nodes)(key := None)" "chain_ok l1"
        "fst ` set l1 \<subseteq> fst ` set nodes" by auto
      have "\<forall>x \<in> fst ` set nodes. k < x" using 2(2) by (auto simp: chain_ok_def)
      then have "\<forall>x \<in> fst ` set l1. k < x" using i(4) by blast
      then show ?thesis using i l1(2) 3 by (auto simp: chain_ok_def fun_upd_twist)
    next
      case 1
      then show ?thesis using 2(2,3) c chain_above [OF 2(2), of key] by (auto simp: fun_eq_iff)
    qed
  qed (auto simp: chain_ok_def)
  then show "ret = map_of l key" "map_of l' = (map_of l)(key := None)" "chain_ok l'" "fst ` set l' \<subseteq> fst ` set l" by auto
qed

text \<open>A loop on the bucket of a key that changes the bucket's map at that key only.\<close>

lemma on_bucket_rep:
  assumes r: "dram_rep hash_fn t M" and f: "f (t ! ht_index hash_fn key t) = (ret, l)"
    and l: "chain_ok l" "fst ` set l \<subseteq> insert key (fst ` set (t ! ht_index hash_fn key t))"
      "map_of l = (map_of (t ! ht_index hash_fn key t))(key := x)"
  shows "\<exists>t'. on_bucket hash_fn key f t = Inr (ret, t') \<and> dram_rep hash_fn t' (M(key := x))"
proof -
  let ?i = "ht_index hash_fn key t" and ?t = "t[ht_index hash_fn key t := l]"
  have i: "?i < length t" using r by (simp add: dram_rep_def ht_index_def)
  have ix: "ht_index hash_fn k ?t = ht_index hash_fn k t" for k by (simp add: ht_index_def)
  have "chain_ok (?t ! j) \<and> (\<forall>(k, v) \<in> set (?t ! j). ht_index hash_fn k t = j)" if "j < length t" for j
  proof (cases "j = ?i")
    case True
    have "ht_index hash_fn k t = ?i" if "(k, v) \<in> set l" for k v
    proof (cases "k = key")
      case False
      have "k \<in> fst ` set l" using that by force
      then obtain v' where "(k, v') \<in> set (t ! ?i)" using l(2) False by auto
      then show ?thesis using r i by (auto simp: dram_rep_def)
    qed simp
    then show ?thesis using True i l(1) by auto
  next
    case False
    then show ?thesis using r that by (auto simp: dram_rep_def)
  qed
  moreover have "(M(key := x)) k = map_of (?t ! ht_index hash_fn k t) k" for k
    using r i l(3) by (cases "ht_index hash_fn k t = ?i") (auto simp: dram_rep_def)
  moreover have "t \<noteq> []" using r by (simp add: dram_rep_def)
  ultimately have "dram_rep hash_fn ?t (M(key := x))" by (simp add: dram_rep_def ix)
  then show ?thesis using f i by (simp add: on_bucket_def Let_def)
qed

lemma dram_chain: "dram_rep hash_fn t M \<Longrightarrow> chain_ok (t ! ht_index hash_fn key t) \<and> map_of (t ! ht_index hash_fn key t) key = M key"
  by (simp add: dram_rep_def ht_index_def)

lemma dram_laws:
  assumes "dram_rep hash_fn t M"
  shows "dram_get hash_fn key tid t = Inr (M key, t)"
    and "\<exists>t'. dram_put hash_fn key val tid t = Inr (M key, t') \<and> dram_rep hash_fn t' (M(key \<mapsto> val))"
    and "\<exists>t'. dram_insert hash_fn key val tid t = Inr (M key = None, t')
           \<and> dram_rep hash_fn t' (if M key = None then M(key \<mapsto> val) else M)"
    and "\<exists>t'. dram_remove hash_fn key tid t = Inr (M key, t') \<and> dram_rep hash_fn t' (M(key := None))"
proof -
  let ?l = "t ! ht_index hash_fn key t"
  note c = dram_chain [OF assms, of key]
  have ix: "ht_index hash_fn key t < length t" using assms by (simp add: dram_rep_def ht_index_def)
  show "dram_get hash_fn key tid t = Inr (M key, t)"
    using c ix by (simp add: dram_get_def on_bucket_def Let_def dram_get_loop_map)
  obtain ret l where p: "dram_put_loop key val ?l = (ret, l)" by fastforce
  note pm = dram_put_loop_map [OF conjunct1 [OF c] p]
  show put: "\<exists>t'. dram_put hash_fn key val tid t = Inr (M key, t') \<and> dram_rep hash_fn t' (M(key \<mapsto> val))"
    using on_bucket_rep [of hash_fn t M "dram_put_loop key val" key ret l "Some val"] assms p pm c by (simp add: dram_put_def)
  show "\<exists>t'. dram_insert hash_fn key val tid t = Inr (M key = None, t')
      \<and> dram_rep hash_fn t' (if M key = None then M(key \<mapsto> val) else M)"
  proof (cases "M key = None")
    case True
    have "dram_insert_loop key val ?l = (True, l)" using dram_insert_loop_put [OF conjunct1 [OF c]] True c p by simp
    with on_bucket_rep [of hash_fn t M "dram_insert_loop key val" key True l "Some val"] assms pm show ?thesis
      using True by (simp add: dram_insert_def)
  next
    case False
    have "dram_insert_loop key val ?l = (False, ?l)" using dram_insert_loop_put [OF conjunct1 [OF c]] False c by simp
    moreover have "map_of ?l = (map_of ?l)(key := M key)" "M(key := M key) = M" using c by (simp_all add: fun_upd_idem)
    ultimately obtain t' where "on_bucket hash_fn key (dram_insert_loop key val) t = Inr (False, t')" "dram_rep hash_fn t' M"
      using on_bucket_rep [of hash_fn t M "dram_insert_loop key val" key False ?l "M key"] assms c by auto
    then show ?thesis using False by (auto simp: dram_insert_def)
  qed
  obtain ret' l' where q: "dram_remove_loop key ?l = (ret', l')" by fastforce
  note qm = dram_remove_loop_map [OF conjunct1 [OF c] q]
  have "fst ` set l' \<subseteq> insert key (fst ` set ?l)" using qm(4) by blast
  with on_bucket_rep [of hash_fn t M "dram_remove_loop key" key ret' l' None] assms q qm show "\<exists>t'. dram_remove hash_fn key tid t = Inr (M key, t') \<and> dram_rep hash_fn t' (M(key := None))"
    using qm(1) c by (simp add: dram_remove_def)
qed

interpretation dht: rmap "dram_get hash_fn" "dram_put hash_fn" "dram_insert hash_fn" "dram_remove hash_fn" "\<lambda>_. Inr"
  "\<lambda>_. dram_rep hash_fn" UNIV for hash_fn :: "'k::linorder \<Rightarrow> u64"
  by unfold_locales (simp_all add: dram_laws)

lemma dram_new_rep: "0 < n \<Longrightarrow> dram_rep hash_fn (replicate n []) Map.empty"
  by (simp add: dram_rep_def chain_ok_def ht_index_def)

section \<open>Queue\<close>

text \<open>
  The chain of nodes that both lock-based queues keep: nodes in a heap of their own, a pointer to the first and one to the
  last.  \<^verbatim>\<open>new Node\<close> takes an unused pointer.
\<close>

record 'a node =
  nd_val :: 'a
  nd_next :: "nat option"

record 'a node_queue =
  nq_heap :: "nat \<Rightarrow> 'a node option"
  nq_brk :: nat
  nq_head :: "nat option"
  nq_tail :: "nat option"

definition nq_new :: "'a node_queue" where
  "nq_new = \<lparr>nq_heap = (\<lambda>_. None), nq_brk = 0, nq_head = None, nq_tail = None\<rparr>"

definition new_node :: "'a \<Rightarrow> 'a node_queue \<Rightarrow> nat \<times> 'a node_queue" where
  "new_node val q =
     (nq_brk q, q\<lparr>nq_heap := (nq_heap q)(nq_brk q := Some \<lparr>nd_val = val, nd_next = None\<rparr>), nq_brk := Suc (nq_brk q)\<rparr>)"

text \<open>The end of \<^verbatim>\<open>enqueue\<close>, which links the new node.\<close>

definition nq_link :: "nat \<Rightarrow> 'a node_queue \<Rightarrow> 'a node_queue res" where
  "nq_link new q =
     (case nq_tail q of
        None \<Rightarrow> Inr (q\<lparr>nq_head := Some new, nq_tail := Some new\<rparr>)
      | Some t \<Rightarrow> (case nq_heap q t of
           None \<Rightarrow> Inl BadAccess
         | Some nd \<Rightarrow> Inr (q\<lparr>nq_heap := (nq_heap q)(t := Some (nd\<lparr>nd_next := Some new\<rparr>)), nq_tail := Some new\<rparr>)))"

text \<open>The middle of \<^verbatim>\<open>dequeue\<close>, from \<^verbatim>\<open>tmp = head\<close> on, with the node unlinked and freed.\<close>

definition nq_unlink :: "nat \<Rightarrow> 'a node_queue \<Rightarrow> ('a \<times> 'a node_queue) res" where
  "nq_unlink tmp q =
     (case nq_heap q tmp of
        None \<Rightarrow> Inl BadAccess
      | Some nd \<Rightarrow> Inr (nd_val nd, q\<lparr>nq_heap := (nq_heap q)(tmp := None), nq_head := nd_next nd,
                                       nq_tail := (if nd_next nd = None then None else nq_tail q)\<rparr>))"

definition dram_enqueue :: "'v \<Rightarrow> nat \<Rightarrow> 'v node_queue \<Rightarrow> 'v node_queue res" where
  "dram_enqueue val tid q = (case new_node val q of (new, q1) \<Rightarrow> nq_link new q1)"

definition dram_dequeue :: "nat \<Rightarrow> 'v node_queue \<Rightarrow> ('v option \<times> 'v node_queue) res" where
  "dram_dequeue tid q =
     (case nq_head q of
        None \<Rightarrow> Inr (None, q)
      | Some tmp \<Rightarrow> rbind (nq_unlink tmp q) (\<lambda>(res, q1). Inr (Some res, q1)))"

text \<open>The values along the chain.\<close>

fun node_path :: "(nat \<Rightarrow> 'a node option) \<Rightarrow> nat option \<Rightarrow> nat list \<Rightarrow> 'a list \<Rightarrow> bool" where
  "node_path h p [] xs \<longleftrightarrow> p = None \<and> xs = []"
| "node_path h p (a # as) xs \<longleftrightarrow> p = Some a \<and> (\<exists>nd ys. h a = Some nd \<and> xs = nd_val nd # ys \<and> node_path h (nd_next nd) as ys)"

definition nq_rep :: "'a node_queue \<Rightarrow> 'a list \<Rightarrow> bool" where
  "nq_rep q xs \<longleftrightarrow> (\<exists>as. node_path (nq_heap q) (nq_head q) as xs \<and> distinct as \<and> (\<forall>a \<in> set as. a < nq_brk q)
     \<and> nq_tail q = (if as = [] then None else Some (last as)))"

lemma node_path_frame: "node_path h p as xs \<Longrightarrow> a \<notin> set as \<Longrightarrow> node_path (h(a := x)) p as xs"
  by (induction as arbitrary: p xs) auto

lemma node_path_Cons: "h a = Some nd \<Longrightarrow> node_path h (nd_next nd) as ys \<Longrightarrow> node_path h (Some a) (a # as) (nd_val nd # ys)"
  by simp

lemma node_path_snoc:
  assumes "node_path h p as xs" "as \<noteq> []" "distinct as" "h new = Some \<lparr>nd_val = v, nd_next = None\<rparr>" "new \<notin> set as"
  shows "\<exists>nd. h (last as) = Some nd \<and> node_path (h(last as := Some (nd\<lparr>nd_next := Some new\<rparr>))) p (as @ [new]) (xs @ [v])"
  using assms
proof (induction as arbitrary: p xs)
  case (Cons a as)
  then obtain nd ys where n: "p = Some a" "h a = Some nd" "xs = nd_val nd # ys" "node_path h (nd_next nd) as ys" by auto
  show ?case
  proof (cases "as = []")
    case True
    then show ?thesis using n Cons.prems by auto
  next
    case False
    have "distinct as" "new \<notin> set as" using Cons.prems(3,5) by auto
    from Cons.IH [OF n(4) False this(1) Cons.prems(4) this(2)] obtain nd' where
      i: "h (last as) = Some nd'" "node_path (h(last as := Some (nd'\<lparr>nd_next := Some new\<rparr>))) (nd_next nd) (as @ [new]) (ys @ [v])" by blast
    have "last as \<noteq> a" using False Cons.prems(3) last_in_set [OF False] by auto
    then have "(h(last as := Some (nd'\<lparr>nd_next := Some new\<rparr>))) a = Some nd" using n(2) by simp
    from node_path_Cons [OF this i(2)] show ?thesis using n(1,3) i(1) False by (intro exI [of _ nd']) (simp del: fun_upd_apply node_path.simps)
  qed
qed simp

lemma nq_link_rep:
  assumes "nq_rep q xs" "new_node v q = (new, q1)"
  shows "\<exists>q'. nq_link new q1 = Inr q' \<and> nq_rep q' (xs @ [v])"
proof -
  obtain as where a: "node_path (nq_heap q) (nq_head q) as xs" "distinct as" "\<forall>a \<in> set as. a < nq_brk q"
      "nq_tail q = (if as = [] then None else Some (last as))" using assms(1) by (auto simp: nq_rep_def)
  have n: "new = nq_brk q" "nq_heap q1 = (nq_heap q)(new := Some \<lparr>nd_val = v, nd_next = None\<rparr>)" "nq_brk q1 = Suc new"
      "nq_head q1 = nq_head q" "nq_tail q1 = nq_tail q" using assms(2) by (auto simp: new_node_def)
  have f: "new \<notin> set as" using a(3) n(1) by auto
  have p: "node_path (nq_heap q1) (nq_head q1) as xs" using node_path_frame [OF a(1) f] n(2,4) by simp
  show ?thesis
  proof (cases "as = []")
    case True
    then show ?thesis using a n by (auto simp: nq_link_def nq_rep_def intro!: exI [of _ "[new]"])
  next
    case False
    from node_path_snoc [OF p False a(2) _ f, of v] n(2) obtain nd where
      nd: "nq_heap q1 (last as) = Some nd"
        "node_path ((nq_heap q1)(last as := Some (nd\<lparr>nd_next := Some new\<rparr>))) (nq_head q1) (as @ [new]) (xs @ [v])" by auto
    have lt: "\<forall>a \<in> set (as @ [new]). a < nq_brk q1" using a(3) n(1,3) by (auto simp: less_SucI)
    let ?q = "q1\<lparr>nq_heap := (nq_heap q1)(last as := Some (nd\<lparr>nd_next := Some new\<rparr>)), nq_tail := Some new\<rparr>"
    have "nq_link new q1 = Inr ?q" using False a(4) n(5) nd(1) by (simp add: nq_link_def)
    moreover have "nq_rep ?q (xs @ [v])" using nd(2) lt a(2) f by (auto simp: nq_rep_def intro!: exI [of _ "as @ [new]"])
    ultimately show ?thesis by blast
  qed
qed

lemma nq_unlink_rep:
  assumes "nq_rep q (x # xs)"
  shows "\<exists>tmp q'. nq_head q = Some tmp \<and> nq_unlink tmp q = Inr (x, q') \<and> nq_rep q' xs"
proof -
  obtain a as nd where a: "nq_head q = Some a" "nq_heap q a = Some nd" "x = nd_val nd" "node_path (nq_heap q) (nd_next nd) as xs"
      "distinct (a # as)" "\<forall>b \<in> set (a # as). b < nq_brk q" "nq_tail q = Some (last (a # as))"
  proof -
    obtain as' where b: "node_path (nq_heap q) (nq_head q) as' (x # xs)" "distinct as'" "\<forall>b \<in> set as'. b < nq_brk q"
        "nq_tail q = (if as' = [] then None else Some (last as'))" using assms by (auto simp: nq_rep_def)
    then obtain a as where "as' = a # as" by (cases as') auto
    with b that show ?thesis by auto
  qed
  have "node_path ((nq_heap q)(a := None)) (nd_next nd) as xs" using node_path_frame [OF a(4)] a(5) by simp
  moreover have "nd_next nd = None \<longleftrightarrow> as = []" using a(4) by (cases as) auto
  ultimately have "nq_rep (q\<lparr>nq_heap := (nq_heap q)(a := None), nq_head := nd_next nd,
      nq_tail := (if nd_next nd = None then None else nq_tail q)\<rparr>) xs"
    using a(5-7) unfolding nq_rep_def by (intro exI [of _ as]) simp
  then show ?thesis using a(1-3) by (simp add: nq_unlink_def)
qed

lemma nq_rep_empty: "nq_rep q [] \<longleftrightarrow> nq_head q = None \<and> nq_tail q = None"
proof
  assume "nq_rep q []"
  then obtain as where "node_path (nq_heap q) (nq_head q) as []" "nq_tail q = (if as = [] then None else Some (last as))"
    by (auto simp: nq_rep_def)
  then show "nq_head q = None \<and> nq_tail q = None" by (cases as) auto
qed (auto simp: nq_rep_def intro: exI [of _ "[]"])

lemma dram_queue_laws:
  "nq_rep q xs \<Longrightarrow> \<exists>q'. dram_enqueue v tid q = Inr q' \<and> nq_rep q' (xs @ [v])"
  "nq_rep q [] \<Longrightarrow> dram_dequeue tid q = Inr (None, q)"
  "nq_rep q (x # xs) \<Longrightarrow> \<exists>q'. dram_dequeue tid q = Inr (Some x, q') \<and> nq_rep q' xs"
proof -
  obtain new q1 where n: "new_node v q = (new, q1)" by fastforce
  then show "nq_rep q xs \<Longrightarrow> \<exists>q'. dram_enqueue v tid q = Inr q' \<and> nq_rep q' (xs @ [v])"
    using nq_link_rep [of q xs v new q1] by (simp add: dram_enqueue_def)
  show "nq_rep q [] \<Longrightarrow> dram_dequeue tid q = Inr (None, q)" by (simp add: nq_rep_empty dram_dequeue_def)
  show "nq_rep q (x # xs) \<Longrightarrow> \<exists>q'. dram_dequeue tid q = Inr (Some x, q') \<and> nq_rep q' xs"
    using nq_unlink_rep [of q x xs] by (auto simp: dram_dequeue_def)
qed

interpretation dqu: rqueue dram_enqueue dram_dequeue "\<lambda>_. Inr" "\<lambda>_. nq_rep" UNIV
  by unfold_locales (simp_all add: dram_queue_laws)

end
