(* ===== verification/Montage_HashTable.thy ===== *)
theory Montage_HashTable
  imports Store_Life Transient_Structures
begin

text \<open>
  \<^verbatim>\<open>src/rideables/MontageHashTable.hpp\<close>: the hash table whose payloads are persistent.  A \<^verbatim>\<open>ListNode\<close> is its pointer to the payload, a
  chain the list of those pointers.  The table behaves as the transient one of the same shape, with every payload read
  and written through \<^verbatim>\<open>Recoverable\<close>, and so as a map; recovery rebuilds it from the payloads in whatever order they come.
\<close>

section \<open>Payloads and nodes\<close>

record ('k, 'v) ht_payload =
  pl_key :: 'k
  pl_val :: 'v

type_synonym ('k, 'v) ht_rec = "('k, 'v) ht_payload recoverable"

record ('k, 'v) ht =
  ht_ds :: "('k, 'v) ht_rec"
  ht_buckets :: "addr list list"

definition node_new :: "nat \<Rightarrow> 'k \<Rightarrow> 'v \<Rightarrow> ('k, 'v) ht_rec \<Rightarrow> (addr \<times> ('k, 'v) ht_rec) res" where
  "node_new tid key val ds = pnew tid \<lparr>pl_key = key, pl_val = val\<rparr> ds"

definition node_get_key :: "addr \<Rightarrow> ('k, 'v) ht_rec \<Rightarrow> 'k res" where
  "node_get_key payload ds = rassert (payload \<noteq> 0) (field_get_unsafe pl_key payload ds)"

definition node_get_val :: "addr \<Rightarrow> ('k, 'v) ht_rec \<Rightarrow> 'v res" where
  "node_get_val payload ds = rassert (payload \<noteq> 0) (field_get_unsafe pl_val payload ds)"

definition node_set_val :: "nat \<Rightarrow> 'v \<Rightarrow> addr \<Rightarrow> ('k, 'v) ht_rec \<Rightarrow> (addr \<times> ('k, 'v) ht_rec) res" where
  "node_set_val tid v payload ds = rassert (payload \<noteq> 0) (field_set (pl_val_update (\<lambda>_. v)) tid payload ds)"

definition node_delete :: "nat \<Rightarrow> addr \<Rightarrow> ('k, 'v) ht_rec \<Rightarrow> ('k, 'v) ht_rec res" where
  "node_delete tid payload ds = (if payload \<noteq> 0 then pdelete tid payload ds else Inr ds)"

section \<open>Loops along a chain\<close>

fun get_loop :: "'k \<Rightarrow> addr list \<Rightarrow> ('k, 'v) ht_rec \<Rightarrow> 'v option res" where
  "get_loop key [] ds = Inr None"
| "get_loop key (cur # nodes) ds =
     rbind (node_get_key cur ds) (\<lambda>k.
       if k = key then rbind (node_get_val cur ds) (\<lambda>v. Inr (Some v)) else get_loop key nodes ds)"

fun put_loop :: "nat \<Rightarrow> 'k::linorder \<Rightarrow> 'v \<Rightarrow> addr \<Rightarrow> addr list \<Rightarrow> ('k, 'v) ht_rec \<Rightarrow> ('v option \<times> addr list \<times> ('k, 'v) ht_rec) res" where
  "put_loop tid key val new [] ds = Inr (None, [new], ds)"
| "put_loop tid key val new (cur # nodes) ds =
     rbind (node_get_key cur ds) (\<lambda>cur_key.
       if cur_key = key
       then rbind (node_get_val cur ds) (\<lambda>ret.
            rbind (node_set_val tid val cur ds) (\<lambda>(cur', ds1).
            rbind (node_delete tid new ds1) (\<lambda>ds2. Inr (Some ret, cur' # nodes, ds2))))
       else if cur_key > key then Inr (None, new # cur # nodes, ds)
       else rbind (put_loop tid key val new nodes ds) (\<lambda>(ret, nodes', ds1). Inr (ret, cur # nodes', ds1)))"

fun insert_loop :: "nat \<Rightarrow> 'k::linorder \<Rightarrow> 'v \<Rightarrow> addr \<Rightarrow> addr list \<Rightarrow> ('k, 'v) ht_rec \<Rightarrow> (bool \<times> addr list \<times> ('k, 'v) ht_rec) res" where
  "insert_loop tid key val new [] ds = Inr (True, [new], ds)"
| "insert_loop tid key val new (cur # nodes) ds =
     rbind (node_get_key cur ds) (\<lambda>cur_key.
       if cur_key = key then rbind (node_delete tid new ds) (\<lambda>ds1. Inr (False, cur # nodes, ds1))
       else if cur_key > key then Inr (True, new # cur # nodes, ds)
       else rbind (insert_loop tid key val new nodes ds) (\<lambda>(ret, nodes', ds1). Inr (ret, cur # nodes', ds1)))"

fun remove_loop :: "nat \<Rightarrow> 'k::linorder \<Rightarrow> addr list \<Rightarrow> ('k, 'v) ht_rec \<Rightarrow> ('v option \<times> addr list \<times> ('k, 'v) ht_rec) res" where
  "remove_loop tid key [] ds = Inr (None, [], ds)"
| "remove_loop tid key (cur # nodes) ds =
     rbind (node_get_key cur ds) (\<lambda>cur_key.
       if cur_key = key
       then rbind (node_get_val cur ds) (\<lambda>ret. rbind (node_delete tid cur ds) (\<lambda>ds1. Inr (Some ret, nodes, ds1)))
       else if cur_key > key then Inr (None, cur # nodes, ds)
       else rbind (remove_loop tid key nodes ds) (\<lambda>(ret, nodes', ds1). Inr (ret, cur # nodes', ds1)))"

section \<open>Operations\<close>

text \<open>
  The common shape of \<^verbatim>\<open>put\<close>, \<^verbatim>\<open>insert\<close> and \<^verbatim>\<open>remove\<close> after a node has been made: under the lock of the bucket, a
  \<^verbatim>\<open>MontageOpHolder\<close> brackets the loop.
\<close>

definition ht_locked :: "('k \<Rightarrow> u64) \<Rightarrow> nat \<Rightarrow> 'k
    \<Rightarrow> (addr list \<Rightarrow> ('k, 'v) ht_rec \<Rightarrow> ('r \<times> addr list \<times> ('k, 'v) ht_rec) res) \<Rightarrow> ('k, 'v) ht \<Rightarrow> ('r \<times> ('k, 'v) ht) res" where
  "ht_locked hash_fn tid key loop t =
     (let idx = ht_index hash_fn key (ht_buckets t) in
      rbind (rnth (ht_buckets t) idx) (\<lambda>head.
      rbind (begin_op tid (ht_ds t)) (\<lambda>ds1.
      rbind (loop head ds1) (\<lambda>(ret, head', ds2).
      rbind (end_op tid ds2) (\<lambda>ds3. Inr (ret, \<lparr>ht_ds = ds3, ht_buckets = (ht_buckets t)[idx := head']\<rparr>))))))"

definition mht_put :: "('k::linorder \<Rightarrow> u64) \<Rightarrow> 'k \<Rightarrow> 'v \<Rightarrow> nat \<Rightarrow> ('k, 'v) ht \<Rightarrow> ('v option \<times> ('k, 'v) ht) res" where
  "mht_put hash_fn key val tid t =
     rbind (node_new tid key val (ht_ds t)) (\<lambda>(new, ds).
       ht_locked hash_fn tid key (put_loop tid key val new) (t\<lparr>ht_ds := ds\<rparr>))"

definition mht_insert :: "('k::linorder \<Rightarrow> u64) \<Rightarrow> 'k \<Rightarrow> 'v \<Rightarrow> nat \<Rightarrow> ('k, 'v) ht \<Rightarrow> (bool \<times> ('k, 'v) ht) res" where
  "mht_insert hash_fn key val tid t =
     rbind (node_new tid key val (ht_ds t)) (\<lambda>(new, ds).
       ht_locked hash_fn tid key (insert_loop tid key val new) (t\<lparr>ht_ds := ds\<rparr>))"

definition mht_remove :: "('k::linorder \<Rightarrow> u64) \<Rightarrow> 'k \<Rightarrow> nat \<Rightarrow> ('k, 'v) ht \<Rightarrow> ('v option \<times> ('k, 'v) ht) res" where
  "mht_remove hash_fn key tid t = ht_locked hash_fn tid key (remove_loop tid key) t"

definition mht_replace :: "'k \<Rightarrow> 'v \<Rightarrow> nat \<Rightarrow> ('k, 'v) ht \<Rightarrow> ('v option \<times> ('k, 'v) ht) res" where
  "mht_replace key val tid t = Inl Assertion"

text \<open>
  The \<^verbatim>\<open>MontageOpHolderReadOnly\<close> of \<^verbatim>\<open>get\<close> is a temporary: the operation has ended before the first read.
\<close>

definition mht_get :: "('k \<Rightarrow> u64) \<Rightarrow> 'k \<Rightarrow> nat \<Rightarrow> ('k, 'v) ht \<Rightarrow> ('v option \<times> ('k, 'v) ht) res" where
  "mht_get hash_fn key tid t =
     (let idx = ht_index hash_fn key (ht_buckets t) in
      rbind (rnth (ht_buckets t) idx) (\<lambda>head.
      rbind (begin_op tid (ht_ds t)) (\<lambda>ds1.
      rbind (end_readonly_op tid ds1) (\<lambda>ds2.
      rbind (get_loop key head ds2) (\<lambda>ret. Inr (ret, t\<lparr>ht_ds := ds2\<rparr>))))))"

text \<open>\<^verbatim>\<open>clear\<close> deletes every node, and with it its payload unless the system is in recovery mode, as the destructor has it.\<close>

definition mht_clear :: "nat \<Rightarrow> ('k, 'v) ht \<Rightarrow> ('k, 'v) ht res" where
  "mht_clear tid t =
     rbind (rfold (\<lambda>nodes ds. rfold (node_delete tid) nodes ds) (ht_buckets t) (ht_ds t)) (\<lambda>ds.
       Inr \<lparr>ht_ds = ds, ht_buckets = map (\<lambda>_. []) (ht_buckets t)\<rparr>)"

definition mht_destroy :: "nat \<Rightarrow> ('k, 'v) ht \<Rightarrow> ('k, 'v) ht res" where
  "mht_destroy tid t =
     rbind (mht_clear tid (t\<lparr>ht_ds := recover_mode (ht_ds t)\<rparr>)) (\<lambda>t1. Inr (t1\<lparr>ht_ds := online_mode (ht_ds t1)\<rparr>))"

section \<open>Recovery\<close>

text \<open>
  The loop that puts a recovered payload back.  Where it meets a greater key it links the node and breaks; the
  assignment after the loop then links it once more.
\<close>

fun rec_insert_loop :: "'k::linorder \<Rightarrow> addr \<Rightarrow> addr list \<Rightarrow> ('k, 'v) ht_rec \<Rightarrow> addr list res" where
  "rec_insert_loop key new [] ds = Inr [new]"
| "rec_insert_loop key new (cur # nodes) ds =
     rbind (node_get_key cur ds) (\<lambda>cur_key.
       if cur_key = key then Inl (ErrExit ''conflicting keys recovered.'')
       else if cur_key > key then Inr (new # cur # nodes)
       else rbind (rec_insert_loop key new nodes ds) (\<lambda>nodes'. Inr (cur # nodes')))"

definition rec_insert :: "('k::linorder \<Rightarrow> u64) \<Rightarrow> ('k, 'v) ht_rec \<Rightarrow> addr \<Rightarrow> addr list list \<Rightarrow> addr list list res" where
  "rec_insert hash_fn ds payload buckets =
     rbind (node_get_key payload ds) (\<lambda>key.
     let idx = ht_index hash_fn key buckets in
     rbind (rnth buckets idx) (\<lambda>head.
     rbind (rec_insert_loop key payload head ds) (\<lambda>head'. Inr (buckets[idx := head']))))"

text \<open>
  \<^verbatim>\<open>recover\<close>: the payloads of the recovered map are dealt to \<^verbatim>\<open>rec_thd\<close> threads, which insert them under the locks of the
  buckets; \<^term>\<open>order\<close> is the order in which the critical sections happen, as positions in the vector of payloads.
\<close>

definition mht_recover :: "('k::linorder \<Rightarrow> u64) \<Rightarrow> (u64 \<times> addr) list \<Rightarrow> nat list \<Rightarrow> ('k, 'v) ht \<Rightarrow> (nat \<times> ('k, 'v) ht) res" where
  "mht_recover hash_fn recovered order t =
     (let payloadVector = map snd recovered in
      rbind (rfold (\<lambda>i bs. rbind (rnth payloadVector i) (\<lambda>p. rec_insert hash_fn (ht_ds t) p bs)) order (ht_buckets t)) (\<lambda>bs.
        Inr (length recovered, t\<lparr>ht_buckets := bs\<rparr>)))"

section \<open>The table simulates the transient one\<close>

definition entry :: "('k, 'v) ht_payload \<Rightarrow> 'k \<times> 'v" where
  "entry p = (pl_key p, pl_val p)"

definition chain_view :: "(addr \<rightharpoonup> ('k, 'v) ht_payload) \<Rightarrow> addr list \<Rightarrow> ('k \<times> 'v) list" where
  "chain_view V nodes = map (\<lambda>a. entry (the (V a))) nodes"

lemma chain_view_simps [simp]:
  "chain_view V [] = []" "V a = Some p \<Longrightarrow> chain_view V (a # nodes) = (pl_key p, pl_val p) # chain_view V nodes"
  by (simp_all add: chain_view_def entry_def)

lemma chain_view_cong: "\<forall>a \<in> set nodes. V' a = V a \<Longrightarrow> chain_view V' nodes = chain_view V nodes"
  by (simp add: chain_view_def)

text \<open>What a structure reads through its nodes.\<close>

definition reads :: "('k, 'v) ht_rec \<Rightarrow> (addr \<rightharpoonup> ('k, 'v) ht_payload) \<Rightarrow> bool" where
  "reads ds V \<longleftrightarrow> (\<forall>a p. V a = Some p \<longrightarrow> node_get_key a ds = Inr (pl_key p) \<and> node_get_val a ds = Inr (pl_val p))"

lemma core_nonnull: "core n b P V g s \<Longrightarrow> V 0 = None"
  by (cases "V 0") (auto simp: core_def payloads_ok_def)

lemma core_reads: "core n b P V g (r_esys ds) \<Longrightarrow> reads ds V"
  using core_nonnull by (auto simp: reads_def node_get_key_def node_get_val_def rassert_def read_inside)

lemma inside_reads: "inside_op n b tid ps ds V \<Longrightarrow> reads ds V"
  by (auto simp: inside_op_def Let_def intro: core_reads)

lemma idle_reads: "idle n b ds V \<Longrightarrow> reads ds V"
  by (auto simp: idle_def outside_op_def intro: core_reads)

lemma get_loop_sim: "reads ds V \<Longrightarrow> set nodes \<subseteq> dom V \<Longrightarrow> get_loop key nodes ds = Inr (dram_get_loop key (chain_view V nodes))"
  by (induction nodes) (auto simp: reads_def)

text \<open>
  The result of a loop on a chain: what the transient loop returns and leaves, with the payloads outside the chain,
  of which \<^term>\<open>W\<close> are all, untouched.
\<close>

definition sim :: "nat \<Rightarrow> nat \<Rightarrow> nat \<Rightarrow> addr list \<Rightarrow> (addr \<rightharpoonup> ('k, 'v) ht_payload) \<Rightarrow> 'r \<times> ('k \<times> 'v) list
    \<Rightarrow> ('r \<times> addr list \<times> ('k, 'v) ht_rec) res \<Rightarrow> bool" where
  "sim n b tid ps W out res \<longleftrightarrow> (\<exists>nodes ds V. res = Inr (fst out, nodes, ds) \<and> inside_op n b tid ps ds V
     \<and> chain_view V nodes = snd out \<and> distinct nodes \<and> set nodes \<subseteq> dom V \<and> V |` (- set nodes) = W)"

lemma simI:
  "res = Inr (ret, nodes, ds) \<Longrightarrow> inside_op n b tid ps ds V \<Longrightarrow> out = (ret, chain_view V nodes) \<Longrightarrow> distinct nodes \<Longrightarrow>
    set nodes \<subseteq> dom V \<Longrightarrow> V |` (- set nodes) = W \<Longrightarrow> sim n b tid ps W out res"
  by (auto simp: sim_def)

lemma sim_Cons:
  assumes "sim n b tid ps W out res" "W cur = Some p"
  shows "sim n b tid ps (W(cur := None)) (fst out, (pl_key p, pl_val p) # snd out)
    (rbind res (\<lambda>(ret, nodes', ds1). Inr (ret, cur # nodes', ds1)))"
proof -
  obtain nodes ds V where s: "res = Inr (fst out, nodes, ds)" "inside_op n b tid ps ds V" "chain_view V nodes = snd out" "distinct nodes"
      "set nodes \<subseteq> dom V" "V |` (- set nodes) = W" using assms(1) by (auto simp: sim_def)
  have c: "V cur = Some p" "cur \<notin> set nodes" using assms(2) s(6) by (auto simp: restrict_map_def split: if_splits)
  have "V |` (- set (cur # nodes)) = W(cur := None)" using s(6) by (auto simp: restrict_map_def fun_eq_iff)
  then show ?thesis using s c by (intro simI [where nodes = "cur # nodes" and ds = ds and V = V]) auto
qed

lemma node_delete_inside:
  assumes "inside_op n (b + 4) tid ps ds V" "V a = Some p"
  shows "\<exists>ds'. node_delete tid a ds = Inr ds' \<and> inside_op n b tid ps ds' (V(a := None))"
proof -
  have "a \<noteq> 0" using assms by (auto simp: inside_op_def Let_def core_def payloads_ok_def)
  then show ?thesis using pdelete_inside [OF assms] by (simp add: node_delete_def)
qed

lemma node_set_val_inside:
  assumes "inside_op n (b + 3) tid ps ds V" "V a = Some p"
  shows "\<exists>a' ds'. node_set_val tid v a ds = Inr (a', ds') \<and> inside_op n b tid ps ds' (V(a := None, a' \<mapsto> p\<lparr>pl_val := v\<rparr>))
    \<and> (a' = a \<or> V a' = None)"
proof -
  have "a \<noteq> 0" using assms by (auto simp: inside_op_def Let_def core_def payloads_ok_def)
  then show ?thesis using field_set_inside [OF assms, of "pl_val_update (\<lambda>_. v)"] by (simp add: node_set_val_def)
qed

lemma put_loop_sim:
  assumes "inside_op n (b + 7) tid ps ds V" "distinct nodes" "set nodes \<subseteq> dom V" "new \<notin> set nodes"
    and "V new = Some \<lparr>pl_key = key, pl_val = val\<rparr>"
  shows "sim n b tid ps (V |` (- insert new (set nodes))) (dram_put_loop key val (chain_view V nodes)) (put_loop tid key val new nodes ds)"
  using assms(2-5)
proof (induction nodes)
  case Nil
  then show ?case using inside_mono [OF assms(1), of b] by (intro simI [where V = V]) auto
next
  case (Cons cur nodes)
  obtain p where p: "V cur = Some p" using Cons.prems(2) by auto
  have k: "node_get_key cur ds = Inr (pl_key p)" "node_get_val cur ds = Inr (pl_val p)"
    using inside_reads [OF assms(1)] p by (simp_all add: reads_def)
  consider "pl_key p = key" | "key < pl_key p" | "pl_key p < key" by fastforce
  then show ?case
  proof cases
    case 1
    have i: "inside_op n (b + 4 + 3) tid ps ds V" using assms(1) by (simp add: add.assoc)
    from node_set_val_inside [OF i p, of val] obtain cur' ds1 where
      s: "node_set_val tid val cur ds = Inr (cur', ds1)" "inside_op n (b + 4) tid ps ds1 (V(cur := None, cur' \<mapsto> p\<lparr>pl_val := val\<rparr>))"
        "cur' = cur \<or> V cur' = None" by blast
    let ?V = "V(cur := None, cur' \<mapsto> p\<lparr>pl_val := val\<rparr>)"
    have new: "?V new = Some \<lparr>pl_key = key, pl_val = val\<rparr>" "new \<noteq> cur'" using Cons.prems s(3) by auto
    from node_delete_inside [OF s(2) new(1)] obtain ds2 where
      d: "node_delete tid new ds1 = Inr ds2" "inside_op n b tid ps ds2 (?V(new := None))" by blast
    have out: "cur' \<notin> set nodes" using Cons.prems(1,2) s(3) by auto
    then have v: "chain_view (?V(new := None)) nodes = chain_view V nodes" using Cons.prems(1,3) by (intro chain_view_cong) auto
    show ?thesis
    proof (rule simI [OF _ d(2)])
      show "put_loop tid key val new (cur # nodes) ds = Inr (Some (pl_val p), cur' # nodes, ds2)" using 1 k s(1) d(1) by simp
      show "(?V(new := None)) |` (- set (cur' # nodes)) = V |` (- insert new (set (cur # nodes)))"
        using s(3) by (auto simp: restrict_map_def fun_eq_iff)
    qed (use 1 p v new out Cons.prems in auto)
  next
    case 2
    then have "pl_key p \<noteq> key" by auto
    then show ?thesis using 2 k p Cons.prems inside_mono [OF assms(1), of b]
      by (intro simI [where nodes = "new # cur # nodes" and ds = ds and V = V]) auto
  next
    case 3
    then have n: "pl_key p \<noteq> key" "\<not> key < pl_key p" by auto
    have "sim n b tid ps (V |` (- insert new (set nodes))) (dram_put_loop key val (chain_view V nodes)) (put_loop tid key val new nodes ds)"
      using Cons by auto
    moreover have "(V |` (- insert new (set nodes))) cur = Some p" using p Cons.prems by (auto simp: restrict_map_def)
    moreover have "(V |` (- insert new (set nodes)))(cur := None) = V |` (- insert new (set (cur # nodes)))"
      by (auto simp: restrict_map_def fun_eq_iff)
    ultimately show ?thesis using sim_Cons n k p by (fastforce simp: case_prod_beta)
  qed
qed

lemma insert_loop_sim:
  assumes "inside_op n (b + 4) tid ps ds V" "distinct nodes" "set nodes \<subseteq> dom V" "new \<notin> set nodes"
    and "V new = Some \<lparr>pl_key = key, pl_val = val\<rparr>"
  shows "sim n b tid ps (V |` (- insert new (set nodes))) (dram_insert_loop key val (chain_view V nodes)) (insert_loop tid key val new nodes ds)"
  using assms(2-5)
proof (induction nodes)
  case Nil
  then show ?case using inside_mono [OF assms(1), of b] by (intro simI [where V = V]) auto
next
  case (Cons cur nodes)
  obtain p where p: "V cur = Some p" using Cons.prems(2) by auto
  have k: "node_get_key cur ds = Inr (pl_key p)" using inside_reads [OF assms(1)] p by (simp add: reads_def)
  consider "pl_key p = key" | "key < pl_key p" | "pl_key p < key" by fastforce
  then show ?case
  proof cases
    case 1
    from node_delete_inside [OF assms(1) Cons.prems(4)] obtain ds1 where
      d: "node_delete tid new ds = Inr ds1" "inside_op n b tid ps ds1 (V(new := None))" by blast
    have v: "chain_view (V(new := None)) (cur # nodes) = chain_view V (cur # nodes)" using Cons.prems(3) by (intro chain_view_cong) auto
    show ?thesis
    proof (rule simI [OF _ d(2)])
      show "insert_loop tid key val new (cur # nodes) ds = Inr (False, cur # nodes, ds1)" using 1 k d(1) by simp
      show "(V(new := None)) |` (- set (cur # nodes)) = V |` (- insert new (set (cur # nodes)))"
        by (auto simp: restrict_map_def fun_eq_iff)
      show "dram_insert_loop key val (chain_view V (cur # nodes)) = (False, chain_view (V(new := None)) (cur # nodes))"
        unfolding v using 1 p by simp
    qed (use Cons.prems in auto)
  next
    case 2
    then have "pl_key p \<noteq> key" by auto
    then show ?thesis using 2 k p Cons.prems inside_mono [OF assms(1), of b]
      by (intro simI [where nodes = "new # cur # nodes" and ds = ds and V = V]) auto
  next
    case 3
    then have n: "pl_key p \<noteq> key" "\<not> key < pl_key p" by auto
    have "sim n b tid ps (V |` (- insert new (set nodes))) (dram_insert_loop key val (chain_view V nodes)) (insert_loop tid key val new nodes ds)"
      using Cons by auto
    moreover have "(V |` (- insert new (set nodes))) cur = Some p" using p Cons.prems by (auto simp: restrict_map_def)
    moreover have "(V |` (- insert new (set nodes)))(cur := None) = V |` (- insert new (set (cur # nodes)))"
      by (auto simp: restrict_map_def fun_eq_iff)
    ultimately show ?thesis using sim_Cons n k p by (fastforce simp: case_prod_beta)
  qed
qed

lemma remove_loop_sim:
  assumes "inside_op n (b + 4) tid ps ds V" "distinct nodes" "set nodes \<subseteq> dom V"
  shows "sim n b tid ps (V |` (- set nodes)) (dram_remove_loop key (chain_view V nodes)) (remove_loop tid key nodes ds)"
  using assms(2,3)
proof (induction nodes)
  case Nil
  then show ?case using inside_mono [OF assms(1), of b] by (intro simI [where V = V]) auto
next
  case (Cons cur nodes)
  obtain p where p: "V cur = Some p" using Cons.prems(2) by auto
  have k: "node_get_key cur ds = Inr (pl_key p)" "node_get_val cur ds = Inr (pl_val p)"
    using inside_reads [OF assms(1)] p by (simp_all add: reads_def)
  consider "pl_key p = key" | "key < pl_key p" | "pl_key p < key" by fastforce
  then show ?case
  proof cases
    case 1
    from node_delete_inside [OF assms(1) p] obtain ds1 where
      d: "node_delete tid cur ds = Inr ds1" "inside_op n b tid ps ds1 (V(cur := None))" by blast
    have v: "chain_view (V(cur := None)) nodes = chain_view V nodes" using Cons.prems(1) by (intro chain_view_cong) auto
    show ?thesis
    proof (rule simI [OF _ d(2)])
      show "remove_loop tid key (cur # nodes) ds = Inr (Some (pl_val p), nodes, ds1)" using 1 k d(1) by simp
      show "(V(cur := None)) |` (- set nodes) = V |` (- set (cur # nodes))" by (auto simp: restrict_map_def fun_eq_iff)
    qed (use 1 p v Cons.prems in auto)
  next
    case 2
    then have "pl_key p \<noteq> key" by auto
    then show ?thesis using 2 k p Cons.prems inside_mono [OF assms(1), of b]
      by (intro simI [where nodes = "cur # nodes" and ds = ds and V = V]) auto
  next
    case 3
    then have n: "pl_key p \<noteq> key" "\<not> key < pl_key p" by auto
    have "sim n b tid ps (V |` (- set nodes)) (dram_remove_loop key (chain_view V nodes)) (remove_loop tid key nodes ds)"
      using Cons by auto
    moreover have "(V |` (- set nodes)) cur = Some p" using p Cons.prems by (auto simp: restrict_map_def)
    moreover have "(V |` (- set nodes))(cur := None) = V |` (- set (cur # nodes))" by (auto simp: restrict_map_def fun_eq_iff)
    ultimately show ?thesis using sim_Cons n k p by (fastforce simp: case_prod_beta)
  qed
qed

text \<open>The whole table: every payload is in one chain, once.\<close>

definition table_view :: "(addr \<rightharpoonup> ('k, 'v) ht_payload) \<Rightarrow> addr list list \<Rightarrow> ('k, 'v) dram_table" where
  "table_view V buckets = map (chain_view V) buckets"

definition table_ok :: "addr list list \<Rightarrow> (addr \<rightharpoonup> 'p) \<Rightarrow> bool" where
  "table_ok buckets V \<longleftrightarrow> distinct (concat buckets) \<and> set (concat buckets) = dom V"

lemma concat_update: "i < length xss \<Longrightarrow> concat (xss[i := ys]) = concat (take i xss) @ ys @ concat (drop (Suc i) xss)"
  by (simp add: upd_conv_take_nth_drop)

lemma concat_split: "i < length xss \<Longrightarrow> concat xss = concat (take i xss) @ xss ! i @ concat (drop (Suc i) xss)"
  using concat_update [of i xss "xss ! i"] by simp

lemma table_update:
  assumes t: "table_ok bs V" "i < length bs" and n: "distinct nodes" "set nodes \<subseteq> dom V'" "V' |` (- set nodes) = V |` (- set (bs ! i))"
  shows "table_ok (bs[i := nodes]) V'" "table_view V' (bs[i := nodes]) = (table_view V bs)[i := chain_view V' nodes]"
proof -
  define A B where AB: "A = concat (take i bs)" "B = concat (drop (Suc i) bs)"
  let ?O = "A @ B"
  have e: "concat bs = A @ bs ! i @ B" "concat (bs[i := nodes]) = A @ nodes @ B"
    using concat_split [OF t(2)] concat_update [OF t(2)] by (simp_all add: AB)
  have "distinct (A @ bs ! i @ B)" "set (A @ bs ! i @ B) = dom V" using t(1) unfolding table_ok_def e by auto
  then have d: "distinct ?O" "set ?O \<inter> set (bs ! i) = {}" "set ?O \<union> set (bs ! i) = dom V" by auto
  have o: "V' a = V a \<and> a \<notin> set nodes" if "a \<in> set ?O" for a
  proof -
    have "a \<in> dom V" "a \<notin> set (bs ! i)" using d that by auto
    then have "(V' |` (- set nodes)) a = V a" "V a \<noteq> None" using n(3) by (auto simp: restrict_map_def)
    then show ?thesis by (auto simp: restrict_map_def split: if_splits)
  qed
  have "dom V' - set nodes = set ?O"
  proof -
    have "dom V' \<inter> - set nodes = dom V \<inter> - set (bs ! i)" using arg_cong [OF n(3), of dom] by simp
    then have "dom V' - set nodes = dom V - set (bs ! i)" by blast
    then show ?thesis using d(2,3) by blast
  qed
  then show "table_ok (bs[i := nodes]) V'"
    using d(1) n(1,2) o unfolding table_ok_def e by auto
  have "chain_view V' (bs ! j) = chain_view V (bs ! j)" if "j < length bs" "j \<noteq> i" for j
  proof -
    have "set (bs ! j) \<subseteq> set ?O"
    proof (cases "j < i")
      case True
      then have "bs ! j = take i bs ! j" "j < length (take i bs)" using that(1) t(2) by auto
      then have "bs ! j \<in> set (take i bs)" using nth_mem by metis
      then show ?thesis by (auto simp: AB)
    next
      case False
      then have "bs ! j = drop (Suc i) bs ! (j - Suc i)" "j - Suc i < length (drop (Suc i) bs)" using that by auto
      then have "bs ! j \<in> set (drop (Suc i) bs)" using nth_mem by metis
      then show ?thesis by (auto simp: AB)
    qed
    then show ?thesis using o by (intro chain_view_cong) auto
  qed
  then show "table_view V' (bs[i := nodes]) = (table_view V bs)[i := chain_view V' nodes]"
    using t(2) by (intro nth_equalityI) (auto simp: table_view_def nth_upd)
qed

text \<open>The table over the store; an operation needs at most ten steps of the budget.\<close>

definition mht_sim :: "nat \<Rightarrow> nat \<Rightarrow> ('k, 'v) ht \<Rightarrow> ('k, 'v) dram_table \<Rightarrow> bool" where
  "mht_sim n b t D \<longleftrightarrow> (\<exists>V. idle n (10 * b) (ht_ds t) V \<and> table_ok (ht_buckets t) V \<and> D = table_view V (ht_buckets t))"

lemma table_chain:
  assumes "table_ok bs V" "i < length bs"
  shows "distinct (bs ! i)" "set (bs ! i) \<subseteq> dom V"
proof -
  show "distinct (bs ! i)" using assms distinct_concat_iff nth_mem by (fastforce simp: table_ok_def)
  have "bs ! i \<in> set bs" using assms(2) by simp
  then have "set (bs ! i) \<subseteq> set (concat bs)" by auto
  then show "set (bs ! i) \<subseteq> dom V" using assms(1) by (simp only: table_ok_def)
qed

lemma ht_locked_sim:
  assumes o: "outside_op n (Suc (length ps + b)) tid ps (ht_ds t) V'" "tid < n" and t: "table_ok (ht_buckets t) V" "ht_buckets t \<noteq> []"
    and sim: "\<And>ds. inside_op n b tid ps ds V' \<Longrightarrow>
        sim n (10 * k) tid ps (V |` (- set (ht_buckets t ! ht_index hash_fn key (ht_buckets t))))
          (f (chain_view V (ht_buckets t ! ht_index hash_fn key (ht_buckets t)))) (loop (ht_buckets t ! ht_index hash_fn key (ht_buckets t)) ds)"
  shows "\<exists>t'. ht_locked hash_fn tid key loop t = Inr (fst (f (chain_view V (ht_buckets t ! ht_index hash_fn key (ht_buckets t)))), t')
    \<and> mht_sim n k t' ((table_view V (ht_buckets t))[ht_index hash_fn key (ht_buckets t) :=
        snd (f (chain_view V (ht_buckets t ! ht_index hash_fn key (ht_buckets t))))])"
proof -
  let ?i = "ht_index hash_fn key (ht_buckets t)"
  have i: "?i < length (ht_buckets t)" using t(2) by (simp add: ht_index_def)
  from begin_op_inside [OF o] obtain ds1 where d1: "begin_op tid (ht_ds t) = Inr ds1" "inside_op n b tid ps ds1 V'" by blast
  from sim [OF d1(2)] obtain nodes ds2 V2 where
    s: "loop (ht_buckets t ! ?i) ds1 = Inr (fst (f (chain_view V (ht_buckets t ! ?i))), nodes, ds2)" "inside_op n (10 * k) tid ps ds2 V2"
      "chain_view V2 nodes = snd (f (chain_view V (ht_buckets t ! ?i)))" "distinct nodes" "set nodes \<subseteq> dom V2"
      "V2 |` (- set nodes) = V |` (- set (ht_buckets t ! ?i))" by (auto simp: sim_def)
  from end_op_outside(1) [OF s(2)] obtain ds3 where d3: "end_op tid ds2 = Inr ds3" "idle n (10 * k) ds3 V2" by blast
  note u = table_update [OF t(1) i s(4-6)]
  let ?t = "\<lparr>ht_ds = ds3, ht_buckets = (ht_buckets t)[?i := nodes]\<rparr>"
  have "ht_locked hash_fn tid key loop t = Inr (fst (f (chain_view V (ht_buckets t ! ?i))), ?t)"
    using i d1(1) s(1) d3(1) by (simp add: ht_locked_def Let_def)
  moreover have "mht_sim n k ?t ((table_view V (ht_buckets t))[?i := snd (f (chain_view V (ht_buckets t ! ?i)))])"
    using d3(2) u s(3) by (auto simp: mht_sim_def)
  ultimately show ?thesis by blast
qed

lemma table_view_nth: "bs \<noteq> [] \<Longrightarrow> table_view V bs ! ht_index hash_fn key bs = chain_view V (bs ! ht_index hash_fn key bs)"
  by (simp add: table_view_def ht_index_def)

lemma ht_index_view [simp]: "ht_index hash_fn key (table_view V bs) = ht_index hash_fn key bs"
  by (simp add: ht_index_def table_view_def)

text \<open>Operations that first make a node.\<close>

lemma new_node_sim:
  assumes s: "mht_sim n (Suc k) t D" "D \<noteq> []" "tid < n"
    and sim: "\<And>new ds V nodes. inside_op n (10 * k + 7) tid [new] ds V \<Longrightarrow> distinct nodes \<Longrightarrow> set nodes \<subseteq> dom V \<Longrightarrow> new \<notin> set nodes \<Longrightarrow>
        V new = Some \<lparr>pl_key = key, pl_val = val\<rparr> \<Longrightarrow>
        sim n (10 * k) tid [new] (V |` (- insert new (set nodes))) (f (chain_view V nodes)) (loop new nodes ds)"
  shows "\<exists>t'. rbind (node_new tid key val (ht_ds t)) (\<lambda>(new, ds). ht_locked hash_fn tid key (loop new) (t\<lparr>ht_ds := ds\<rparr>))
      = Inr (fst (f (D ! ht_index hash_fn key D)), t')
    \<and> mht_sim n k t' (D[ht_index hash_fn key D := snd (f (D ! ht_index hash_fn key D))])"
proof -
  obtain V where V: "idle n (10 * Suc k) (ht_ds t) V" "table_ok (ht_buckets t) V" "D = table_view V (ht_buckets t)"
    using s(1) by (auto simp: mht_sim_def)
  have "outside_op n (Suc (10 * k + 9)) tid [] (ht_ds t) V" using V(1) idle_outside [of n _ "ht_ds t" V tid] by simp
  from pnew_outside [OF this s(3), of "\<lparr>pl_key = key, pl_val = val\<rparr>"] obtain new ds where
    nw: "node_new tid key val (ht_ds t) = Inr (new, ds)" "V new = None"
      "outside_op n (10 * k + 9) tid [new] ds (V(new \<mapsto> \<lparr>pl_key = key, pl_val = val\<rparr>))" by (auto simp: node_new_def)
  let ?V = "V(new \<mapsto> \<lparr>pl_key = key, pl_val = val\<rparr>)" and ?t = "t\<lparr>ht_ds := ds\<rparr>" and ?i = "ht_index hash_fn key (ht_buckets t)"
  have ne: "ht_buckets t \<noteq> []" using s(2) V(3) by (auto simp: table_view_def)
  have i: "?i < length (ht_buckets t)" using ne by (simp add: ht_index_def)
  have out: "outside_op n (Suc (length [new] + (10 * k + 7))) tid [new] (ht_ds ?t) ?V" using nw(3) by (simp add: numeral_eq_Suc)
  have c: "distinct (ht_buckets t ! ?i)" "set (ht_buckets t ! ?i) \<subseteq> dom V" using table_chain [OF V(2) i] by auto
  have ni: "new \<notin> set (ht_buckets t ! ?i)" using c(2) nw(2) by auto
  have W: "?V |` (- insert new (set (ht_buckets t ! ?i))) = V |` (- set (ht_buckets t ! ?i))"
    using nw(2) by (auto simp: restrict_map_def fun_eq_iff)
  have cv: "chain_view ?V (ht_buckets t ! ?i) = chain_view V (ht_buckets t ! ?i)" using ni by (intro chain_view_cong) auto
  have "sim n (10 * k) tid [new] (V |` (- set (ht_buckets ?t ! ht_index hash_fn key (ht_buckets ?t))))
      (f (chain_view V (ht_buckets ?t ! ht_index hash_fn key (ht_buckets ?t))))
      (loop new (ht_buckets ?t ! ht_index hash_fn key (ht_buckets ?t)) ds')"
    if "inside_op n (10 * k + 7) tid [new] ds' ?V" for ds'
    using sim [OF that c(1) _ ni] c(2) W cv by auto
  from ht_locked_sim [where V' = ?V and V = V and t = ?t and loop = "loop new" and f = f and hash_fn = hash_fn and key = key, OF out s(3) _ _ this] V(2) ne show ?thesis
    using nw(1) V(3) table_view_nth [OF ne, of V hash_fn key] by simp
qed

lemma mht_laws:
  fixes hash_fn :: "'k::linorder \<Rightarrow> u64" and key :: 'k and val :: 'v
  assumes "mht_sim n (Suc k) t D" "D \<noteq> []" "tid < n"
  defines "l \<equiv> D ! ht_index hash_fn key D"
  shows "\<exists>t'. mht_put hash_fn key val tid t = Inr (fst (dram_put_loop key val l), t')
           \<and> mht_sim n k t' (D[ht_index hash_fn key D := snd (dram_put_loop key val l)])"
    and "\<exists>t'. mht_insert hash_fn key val tid t = Inr (fst (dram_insert_loop key val l), t')
           \<and> mht_sim n k t' (D[ht_index hash_fn key D := snd (dram_insert_loop key val l)])"
    and "\<exists>t'. mht_remove hash_fn key tid t = Inr (fst (dram_remove_loop key l), t')
           \<and> mht_sim n k t' (D[ht_index hash_fn key D := snd (dram_remove_loop key l)])"
    and "\<exists>t'. mht_get hash_fn key tid t = Inr (dram_get_loop key l, t') \<and> mht_sim n k t' D"
proof -
  show "\<exists>t'. mht_put hash_fn key val tid t = Inr (fst (dram_put_loop key val l), t')
      \<and> mht_sim n k t' (D[ht_index hash_fn key D := snd (dram_put_loop key val l)])"
    unfolding mht_put_def l_def by (rule new_node_sim [OF assms(1-3)]) (rule put_loop_sim)
  show "\<exists>t'. mht_insert hash_fn key val tid t = Inr (fst (dram_insert_loop key val l), t')
      \<and> mht_sim n k t' (D[ht_index hash_fn key D := snd (dram_insert_loop key val l)])"
    unfolding mht_insert_def l_def
    by (rule new_node_sim [OF assms(1-3)]) (rule insert_loop_sim, rule inside_mono, auto)
  obtain V where V: "idle n (10 * Suc k) (ht_ds t) V" "table_ok (ht_buckets t) V" "D = table_view V (ht_buckets t)"
    using assms(1) by (auto simp: mht_sim_def)
  let ?i = "ht_index hash_fn key (ht_buckets t)"
  have ne: "ht_buckets t \<noteq> []" using assms(2) V(3) by (auto simp: table_view_def)
  have i: "?i < length (ht_buckets t)" using ne by (simp add: ht_index_def)
  have c: "distinct (ht_buckets t ! ?i)" "set (ht_buckets t ! ?i) \<subseteq> dom V" using table_chain [OF V(2) i] by auto
  have out: "outside_op n (Suc (length ([] :: addr list) + (10 * k + 4))) tid [] (ht_ds t) V"
    using idle_mono [OF V(1), of "10 * k + 5"] idle_outside [of n _ "ht_ds t" V tid] by (simp add: numeral_eq_Suc)
  have l: "l = chain_view V (ht_buckets t ! ?i)" using table_view_nth [OF ne] V(3) by (simp add: l_def)
  show "\<exists>t'. mht_remove hash_fn key tid t = Inr (fst (dram_remove_loop key l), t')
      \<and> mht_sim n k t' (D[ht_index hash_fn key D := snd (dram_remove_loop key l)])"
    using ht_locked_sim [where loop = "remove_loop tid key" and f = "dram_remove_loop key" and hash_fn = hash_fn and key = key,
        OF out assms(3) V(2) ne remove_loop_sim [OF _ c]] l V(3) by (simp add: mht_remove_def)
  from begin_op_inside [OF out assms(3)] obtain ds1 where d1: "begin_op tid (ht_ds t) = Inr ds1" "inside_op n (10 * k + 4) tid [] ds1 V" by blast
  from end_op_outside(2) [OF d1(2)] obtain ds2 where d2: "end_readonly_op tid ds1 = Inr ds2" "idle n (10 * k + 4) ds2 V" by blast
  have "get_loop key (ht_buckets t ! ?i) ds2 = Inr (dram_get_loop key l)"
    using get_loop_sim [OF idle_reads [OF d2(2)] c(2)] l by simp
  then have "mht_get hash_fn key tid t = Inr (dram_get_loop key l, t\<lparr>ht_ds := ds2\<rparr>)"
    using i d1(1) d2(1) by (simp add: mht_get_def Let_def)
  moreover have "mht_sim n k (t\<lparr>ht_ds := ds2\<rparr>) D" using idle_mono [OF d2(2), of "10 * k"] V(2,3) by (auto simp: mht_sim_def)
  ultimately show "\<exists>t'. mht_get hash_fn key tid t = Inr (dram_get_loop key l, t') \<and> mht_sim n k t' D" by blast
qed

section \<open>The table is a map\<close>

text \<open>The epoch advancer takes a turn between two operations.\<close>

definition mht_tick :: "nat \<Rightarrow> ('k, 'v) ht \<Rightarrow> ('k, 'v) ht res" where
  "mht_tick tid t = rbind (next_epoch tid (ht_ds t)) (\<lambda>ds. Inr (t\<lparr>ht_ds := ds\<rparr>))"

definition mht_rep :: "('k::linorder \<Rightarrow> u64) \<Rightarrow> nat \<Rightarrow> nat \<Rightarrow> ('k, 'v) ht \<Rightarrow> ('k \<rightharpoonup> 'v) \<Rightarrow> bool" where
  "mht_rep hash_fn n b t M \<longleftrightarrow> (\<exists>D. mht_sim n b t D \<and> dram_rep hash_fn D M)"

lemma on_bucket_Inr: "on_bucket hash_fn key f t = Inr (r, t') \<Longrightarrow>
    r = fst (f (t ! ht_index hash_fn key t)) \<and> t' = t[ht_index hash_fn key t := snd (f (t ! ht_index hash_fn key t))]"
  by (auto simp: on_bucket_def Let_def rbind_eq_Inr_iff rnth_eq_Inr_iff split: prod.splits)

lemma mht_tick_sim:
  assumes "mht_sim n (Suc k) t D"
  shows "\<exists>t'. mht_tick tid t = Inr t' \<and> mht_sim n k t' D"
proof -
  obtain V where V: "idle n (10 * Suc k) (ht_ds t) V" "table_ok (ht_buckets t) V" "D = table_view V (ht_buckets t)"
    using assms by (auto simp: mht_sim_def)
  have "idle n (Suc (10 * k)) (ht_ds t) V" by (rule idle_mono [OF V(1)]) simp
  from next_epoch_idle [OF this, of tid] V(2,3) show ?thesis by (auto simp: mht_tick_def mht_sim_def)
qed

interpretation mht: rmap "mht_get hash_fn" "mht_put hash_fn" "mht_insert hash_fn" "mht_remove hash_fn" mht_tick
  "mht_rep hash_fn n" "{..<n}" for hash_fn :: "'k::linorder \<Rightarrow> u64" and n :: nat
proof (unfold_locales, goal_cases)
  case (1 b t M tid key)
  then obtain D where D: "mht_sim n (Suc b) t D" "dram_rep hash_fn D M" by (auto simp: mht_rep_def)
  have ne: "D \<noteq> []" "tid < n" using D(2) 1 by (auto simp: dram_rep_def)
  have "dram_get_loop key (D ! ht_index hash_fn key D) = M key" using dram_chain [OF D(2), of key] by (simp add: dram_get_loop_map)
  with mht_laws(4) [OF D(1) ne, of hash_fn key] D(2) show ?case by (auto simp: mht_rep_def)
next
  case (2 b t M tid key val)
  then obtain D where D: "mht_sim n (Suc b) t D" "dram_rep hash_fn D M" by (auto simp: mht_rep_def)
  have ne: "D \<noteq> []" "tid < n" using D(2) 2 by (auto simp: dram_rep_def)
  from dram_laws(2) [OF D(2), of key val tid] obtain D' where
    "on_bucket hash_fn key (dram_put_loop key val) D = Inr (M key, D')" "dram_rep hash_fn D' (M(key \<mapsto> val))" by (auto simp: dram_put_def)
  with on_bucket_Inr mht_laws(1) [OF D(1) ne, of hash_fn key val] show ?case unfolding mht_rep_def by metis
next
  case (3 b t M tid key val)
  then obtain D where D: "mht_sim n (Suc b) t D" "dram_rep hash_fn D M" by (auto simp: mht_rep_def)
  have ne: "D \<noteq> []" "tid < n" using D(2) 3 by (auto simp: dram_rep_def)
  from dram_laws(3) [OF D(2), of key val tid] obtain D' where
    "on_bucket hash_fn key (dram_insert_loop key val) D = Inr (M key = None, D')"
    "dram_rep hash_fn D' (if M key = None then M(key \<mapsto> val) else M)" by (auto simp: dram_insert_def)
  with on_bucket_Inr mht_laws(2) [OF D(1) ne, of hash_fn key val] show ?case unfolding mht_rep_def by metis
next
  case (4 b t M tid key)
  then obtain D where D: "mht_sim n (Suc b) t D" "dram_rep hash_fn D M" by (auto simp: mht_rep_def)
  have ne: "D \<noteq> []" "tid < n" using D(2) 4 by (auto simp: dram_rep_def)
  from dram_laws(4) [OF D(2), of key tid] obtain D' where
    "on_bucket hash_fn key (dram_remove_loop key) D = Inr (M key, D')" "dram_rep hash_fn D' (M(key := None))" by (auto simp: dram_remove_def)
  with on_bucket_Inr mht_laws(3) [OF D(1) ne, of hash_fn key] show ?case unfolding mht_rep_def by metis
next
  case (5 b t M tid)
  then show ?case using mht_tick_sim [of n b t _ tid] by (fastforce simp: mht_rep_def)
qed

text \<open>The constructor, with no recovered payloads.\<close>

definition mht_new :: "nat \<Rightarrow> ('k, 'v) ht_rec \<Rightarrow> ('k, 'v) ht" where
  "mht_new idxSize ds = \<lparr>ht_ds = ds, ht_buckets = replicate idxSize []\<rparr>"

lemma mht_new_rep:
  assumes "idle n (10 * b) ds Map.empty" "0 < idxSize"
  shows "mht_rep hash_fn n b (mht_new idxSize ds) Map.empty"
proof -
  have "mht_sim n b (mht_new idxSize ds) (replicate idxSize [])"
    using assms by (auto simp: mht_sim_def mht_new_def table_ok_def table_view_def)
  then show ?thesis using dram_new_rep [OF assms(2)] by (auto simp: mht_rep_def)
qed

section \<open>Rebuilding the table\<close>

lemma rec_insert_loop_sim:
  assumes "reads ds V" "V new = Some \<lparr>pl_key = key, pl_val = val\<rparr>" "set nodes \<subseteq> dom V" "chain_ok (chain_view V nodes)"
  shows "if map_of (chain_view V nodes) key = None
    then \<exists>nodes'. rec_insert_loop key new nodes ds = Inr nodes' \<and> chain_view V nodes' = snd (dram_put_loop key val (chain_view V nodes))
      \<and> mset nodes' = add_mset new (mset nodes)
    else rec_insert_loop key new nodes ds = Inl (ErrExit ''conflicting keys recovered.'')"
  using assms(3,4)
proof (induction nodes)
  case Nil
  then show ?case using assms(2) by simp
next
  case (Cons cur nodes)
  obtain p where p: "V cur = Some p" using Cons.prems(1) by auto
  have k: "node_get_key cur ds = Inr (pl_key p)" using assms(1) p by (simp add: reads_def)
  have c: "chain_ok ((pl_key p, pl_val p) # chain_view V nodes)" using Cons.prems(2) p by simp
  consider "pl_key p = key" | "key < pl_key p" | "pl_key p < key" by fastforce
  then show ?case
  proof cases
    case 2
    then have "pl_key p \<noteq> key" "map_of (chain_view V nodes) key = None" using chain_above [OF c, of key] by auto
    then show ?thesis using 2 k p assms(2) by (auto intro!: exI [of _ "new # cur # nodes"])
  next
    case 3
    then have n: "pl_key p \<noteq> key" "\<not> key < pl_key p" by auto
    show ?thesis
    proof (cases "map_of (chain_view V nodes) key")
      case None
      with Cons.IH chain_tl [OF c] Cons.prems(1) obtain nodes' where
        i: "rec_insert_loop key new nodes ds = Inr nodes'" "chain_view V nodes' = snd (dram_put_loop key val (chain_view V nodes))"
          "mset nodes' = add_mset new (mset nodes)" by auto
      then show ?thesis using n k p None by (auto simp: case_prod_beta intro!: exI [of _ "cur # nodes'"])
    next
      case (Some v)
      with Cons.IH chain_tl [OF c] Cons.prems(1) have "rec_insert_loop key new nodes ds = Inl (ErrExit ''conflicting keys recovered.'')" by auto
      then show ?thesis using n k p Some by simp
    qed
  qed (use k p in simp)
qed

lemma rec_insert_sim:
  assumes r: "reads ds V" "V new = Some p" and b: "set (concat bs) \<subseteq> dom V" "distinct (concat bs)" "new \<notin> set (concat bs)"
    and d: "dram_rep hash_fn (table_view V bs) M"
  shows "if M (pl_key p) = None
    then \<exists>bs'. rec_insert hash_fn ds new bs = Inr bs' \<and> set (concat bs') = insert new (set (concat bs)) \<and> distinct (concat bs')
      \<and> dram_rep hash_fn (table_view V bs') (M(pl_key p \<mapsto> pl_val p))
    else rec_insert hash_fn ds new bs = Inl (ErrExit ''conflicting keys recovered.'')"
proof -
  let ?key = "pl_key p" and ?i = "ht_index hash_fn (pl_key p) bs"
  have ne: "bs \<noteq> []" using d by (auto simp: dram_rep_def table_view_def)
  have i: "?i < length bs" using ne by (simp add: ht_index_def)
  have v: "table_view V bs ! ?i = chain_view V (bs ! ?i)" by (rule table_view_nth [OF ne])
  have c: "chain_ok (chain_view V (bs ! ?i))" "map_of (chain_view V (bs ! ?i)) ?key = M ?key"
    using dram_chain [OF d, of ?key] v by simp_all
  have "bs ! ?i \<in> set bs" using i by simp
  then have s: "set (bs ! ?i) \<subseteq> dom V" using b(1) by auto
  have p: "V new = Some \<lparr>pl_key = ?key, pl_val = pl_val p\<rparr>" using r(2) by simp
  have k: "node_get_key new ds = Inr ?key" using r by (simp add: reads_def)
  note l = rec_insert_loop_sim [OF r(1) p s c(1)]
  show ?thesis
  proof (cases "M ?key")
    case (Some w)
    then show ?thesis using l c(2) k i by (simp add: rec_insert_def Let_def)
  next
    case None
    with l c(2) obtain nodes where
      n: "rec_insert_loop ?key new (bs ! ?i) ds = Inr nodes"
        "chain_view V nodes = snd (dram_put_loop ?key (pl_val p) (chain_view V (bs ! ?i)))" "mset nodes = add_mset new (mset (bs ! ?i))" by auto
    let ?bs = "bs[?i := nodes]"
    have "mset (concat ?bs) + mset (bs ! ?i) = mset (concat bs) + mset nodes" by (rule mset_concat_update [OF i])
    then have "mset (concat ?bs) = mset (new # concat bs)" using n(3) by (simp add: add_mset_commute)
    then have "set (concat ?bs) = set (new # concat bs)" "distinct (concat ?bs) = distinct (new # concat bs)"
      by (rule mset_eq_setD, rule mset_eq_imp_distinct_iff)
    then have "set (concat ?bs) = insert new (set (concat bs))" "distinct (concat ?bs)" using b(2,3) by (simp_all del: set_concat)
    moreover obtain ret l' where pl: "dram_put_loop ?key (pl_val p) (table_view V bs ! ?i) = (ret, l')" by fastforce
    moreover have "table_view V ?bs = (table_view V bs)[?i := l']" using n(2) pl v by (simp add: table_view_def map_update)
    moreover have "dram_rep hash_fn ((table_view V bs)[?i := l']) (M(?key \<mapsto> pl_val p))"
    proof -
      have "dram_put hash_fn ?key (pl_val p) 0 (table_view V bs) = Inr (ret, (table_view V bs)[?i := l'])"
        using pl i by (simp add: dram_put_def on_bucket_def Let_def table_view_def ht_index_def)
      then show ?thesis using dram_laws(2) [OF d, of ?key "pl_val p" 0] by auto
    qed
    moreover have "rec_insert hash_fn ds new bs = Inr ?bs" using n(1) k i by (simp add: rec_insert_def Let_def)
    ultimately show ?thesis using None by simp
  qed
qed

text \<open>The contents of a set of payloads, and when they have no key twice.\<close>

definition contents :: "(addr \<rightharpoonup> ('k, 'v) ht_payload) \<Rightarrow> addr list \<Rightarrow> ('k \<rightharpoonup> 'v)" where
  "contents V ps = map_of (map (\<lambda>a. entry (the (V a))) ps)"

lemma contents_cong:
  assumes "set qs = set ps" "distinct (map (\<lambda>a. pl_key (the (V a))) qs)" "distinct (map (\<lambda>a. pl_key (the (V a))) ps)"
  shows "contents V qs = contents V ps"
  unfolding contents_def by (rule map_of_inject_set [THEN iffD2]) (use assms in \<open>simp_all add: entry_def comp_def\<close>)

lemma rec_insert_all:
  assumes "reads ds V" "set (concat bs) \<union> set ps \<subseteq> dom V" "distinct (concat bs @ ps)" "dram_rep hash_fn (table_view V bs) M"
  shows "if distinct (map (\<lambda>a. pl_key (the (V a))) ps) \<and> (\<forall>a \<in> set ps. M (pl_key (the (V a))) = None)
    then \<exists>bs'. rfold (rec_insert hash_fn ds) ps bs = Inr bs' \<and> set (concat bs') = set (concat bs) \<union> set ps \<and> distinct (concat bs')
      \<and> dram_rep hash_fn (table_view V bs') (M ++ contents V ps)
    else rfold (rec_insert hash_fn ds) ps bs = Inl (ErrExit ''conflicting keys recovered.'')"
  using assms(2-4)
proof (induction ps arbitrary: bs M)
  case Nil
  then show ?case by (simp add: contents_def)
next
  case (Cons a ps)
  obtain p where p: "V a = Some p" using Cons.prems(1) by auto
  have "set (concat bs) \<subseteq> dom V" "distinct (concat bs)" "a \<notin> set (concat bs)" using Cons.prems(1,2) by auto
  note r = rec_insert_sim [OF assms(1) p this Cons.prems(3)]
  show ?case
  proof (cases "M (pl_key p)")
    case (Some w)
    then show ?thesis using r p by auto
  next
    case None
    with r obtain bs1 where b: "rec_insert hash_fn ds a bs = Inr bs1" "set (concat bs1) = insert a (set (concat bs))" "distinct (concat bs1)"
        "dram_rep hash_fn (table_view V bs1) (M(pl_key p \<mapsto> pl_val p))" by auto
    have "set (concat bs1) \<union> set ps \<subseteq> dom V" "distinct (concat bs1 @ ps)" using b(2,3) Cons.prems(1,2) by auto
    note ih = Cons.IH [OF this b(4)]
    let ?k = "\<lambda>x. pl_key (the (V x))"
    have cond: "distinct (map ?k ps) \<and> (\<forall>x \<in> set ps. (M(pl_key p \<mapsto> pl_val p)) (?k x) = None) \<longleftrightarrow>
        distinct (map ?k (a # ps)) \<and> (\<forall>x \<in> set (a # ps). M (?k x) = None)"
      using p None by (auto split: if_splits) (metis image_eqI)
    have eq: "M(pl_key p \<mapsto> pl_val p) ++ contents V ps = M ++ contents V (a # ps)" if "pl_key p \<notin> ?k ` set ps"
    proof -
      have "pl_key p \<notin> dom (contents V ps)" using that by (auto simp: contents_def entry_def dom_map_of_conv_image_fst)
      moreover have "contents V (a # ps) = (contents V ps)(pl_key p \<mapsto> pl_val p)" using p by (simp add: contents_def entry_def)
      ultimately show ?thesis by (simp add: map_add_upd_left)
    qed
    show ?thesis
    proof (cases "distinct (map ?k (a # ps)) \<and> (\<forall>x \<in> set (a # ps). M (?k x) = None)")
      case True
      then have "pl_key p \<notin> ?k ` set ps" using p by auto
      then show ?thesis using ih b(1,2) True cond eq by auto
    next
      case False
      then show ?thesis using ih b(1) cond by auto
    qed
  qed
qed

lemma mht_recover_outcome:
  assumes i: "idle n (10 * b) ds V" "0 < idxSize" and r: "dom V = set (map snd recovered)" "distinct (map snd recovered)"
    and o: "0 < k" "mset order = (\<Sum>i<k. mset (dealt k (length recovered) i))"
  shows "if distinct (map (\<lambda>a. pl_key (the (V a))) (map snd recovered))
    then \<exists>t. mht_recover hash_fn recovered order (mht_new idxSize ds) = Inr (length recovered, t)
      \<and> mht_rep hash_fn n b t (contents V (map snd recovered))
    else mht_recover hash_fn recovered order (mht_new idxSize ds) = Inl (ErrExit ''conflicting keys recovered.'')"
proof -
  let ?ps = "map snd recovered" and ?key = "\<lambda>a. pl_key (the (V a))"
  let ?qs = "map ((!) ?ps) order" and ?bs = "replicate idxSize [] :: addr list list"
  have m: "mset order = mset [0..<length ?ps]" using o dealt_all by simp
  then have "mset ?qs = mset (map ((!) ?ps) [0..<length ?ps])" by (metis mset_map)
  then have q: "mset ?qs = mset ?ps" by (simp only: map_nth)
  have "set order \<subseteq> {..<length ?ps}" using mset_eq_setD [OF m] by auto
  then have run: "mht_recover hash_fn recovered order (mht_new idxSize ds) =
      rbind (rfold (rec_insert hash_fn ds) ?qs ?bs) (\<lambda>bs. Inr (length recovered, \<lparr>ht_ds = ds, ht_buckets = bs\<rparr>))"
    by (simp add: mht_recover_def mht_new_def rfold_positions Let_def)
  have sq: "set ?qs = set ?ps" "distinct ?qs" using mset_eq_setD [OF q] mset_eq_imp_distinct_iff [OF q] r(2) by simp_all
  have dk: "distinct (map ?key ?qs) \<longleftrightarrow> distinct (map ?key ?ps)" 
    by (rule mset_eq_imp_distinct_iff) (simp only: mset_map [of ?key] q)
  have "dram_rep hash_fn (table_view V ?bs) Map.empty" using dram_new_rep [OF i(2)] by (simp add: table_view_def)
  moreover have "set (concat ?bs) \<union> set ?qs \<subseteq> dom V" "distinct (concat ?bs @ ?qs)" using sq r(1) by auto
  ultimately have out: "if distinct (map ?key ?qs)
    then \<exists>bs. rfold (rec_insert hash_fn ds) ?qs ?bs = Inr bs \<and> set (concat bs) = set ?qs \<and> distinct (concat bs)
      \<and> dram_rep hash_fn (table_view V bs) (contents V ?qs)
    else rfold (rec_insert hash_fn ds) ?qs ?bs = Inl (ErrExit ''conflicting keys recovered.'')"
    using rec_insert_all [OF idle_reads [OF i(1)], of ?bs ?qs hash_fn Map.empty] by auto
  show ?thesis
  proof (cases "distinct (map ?key ?ps)")
    case False
    then show ?thesis using out dk run by simp
  next
    case True
    with out dk obtain bs where b: "rfold (rec_insert hash_fn ds) ?qs ?bs = Inr bs" "set (concat bs) = set ?ps" "distinct (concat bs)"
        "dram_rep hash_fn (table_view V bs) (contents V ?qs)" using sq(1) by auto
    have "contents V ?qs = contents V ?ps" by (rule contents_cong [OF sq(1)]) (use True dk in auto)
    moreover have "mht_sim n b \<lparr>ht_ds = ds, ht_buckets = bs\<rparr> (table_view V bs)"
      unfolding mht_sim_def table_ok_def using i(1) b(2,3) r(1) by (intro exI [of _ V]) simp
    ultimately have "mht_rep hash_fn n b \<lparr>ht_ds = ds, ht_buckets = bs\<rparr> (contents V ?ps)" using b(4) by (auto simp: mht_rep_def)
    then show ?thesis using True b(1) run by simp
  qed
qed

lemma mht_history:
  assumes "mht_rep hash_fn n (length xs) t M" "list_all (map_legal {..<n}) xs"
  shows "\<exists>t'. obj_run (map_step (mht_get hash_fn) (mht_put hash_fn) (mht_insert hash_fn) (mht_remove hash_fn) mht_tick) xs t =
    Inr (fst (spec_run map_spec xs M), t')"
  using mht.run_law [of hash_fn n xs 0 t M] assms by auto

section \<open>Closing the table\<close>

lemma mht_destroy_keeps:
  assumes "es_mode (r_esys (ht_ds t)) = ONLINE"
  shows "mht_destroy tid t = Inr \<lparr>ht_ds = ht_ds t, ht_buckets = map (\<lambda>_. []) (ht_buckets t)\<rparr>"
proof -
  let ?ds = "recover_mode (ht_ds t)"
  have "rfold (node_delete tid) nodes ?ds = Inr ?ds" for nodes
    by (induction nodes) (simp_all add: node_delete_def pdelete_def recover_mode_def)
  then have "rfold (\<lambda>nodes ds. rfold (node_delete tid) nodes ds) bs ?ds = Inr ?ds" for bs by (induction bs) simp_all
  then show ?thesis using assms by (simp add: mht_destroy_def mht_clear_def recover_mode_def online_mode_def)
qed

section \<open>Claims\<close>

definition ex_history :: "(nat, nat) map_op list" where
  "ex_history = [MapPut 1 10 0, MapInsert 5 50 1, MapTick 2, MapPut 1 11 1, MapInsert 5 51 0, MapTick 2, MapRemove 5 0, MapGet 5 1, MapGet 1 0]"

text \<open>
  C3.  A hash table on Montage is a map.  From its construction on, through every history of gets,
  puts, inserts and removes by any of its threads, with the epoch advancing between any two of them, the table
  answers every operation as a map does: no operation fails or
  runs into the system's assertions, although updates move payloads to other blocks and
  old blocks are reclaimed along the way.
\<close>

theorem MontageHashTable_refines_map:
  assumes "usable g (10 * length xs)" "finite (allocated m)" "alloc_room ral (card (allocated m) + Suc (10 * length xs))"
    and "0 < idxSize" and "list_all (map_legal {..<cf_task_num g}) xs"
  shows "\<exists>ds t. Recoverable_new None g ral None descs m = Inr ds
    \<and> obj_run (map_step (mht_get hash_fn) (mht_put hash_fn) (mht_insert hash_fn) (mht_remove hash_fn) mht_tick) xs (mht_new idxSize ds) =
        Inr (fst (spec_run map_spec xs Map.empty), t)"
proof -
  obtain ds where ds: "Recoverable_new None g ral None descs m = Inr ds" "idle (cf_task_num g) (10 * length xs) ds Map.empty"
    using usable_new [OF assms(1-3)] by blast
  show ?thesis using ds(1) mht_history [OF mht_new_rep [OF ds(2) assms(4)] assms(5)] by blast
qed

theorem MontageHashTable_refines_map_witness:
  "\<exists>ds t. Recoverable_new None ex_config first_fit None [] ex_memory = Inr ds
    \<and> obj_run (map_step (mht_get of_nat) (mht_put of_nat) (mht_insert of_nat) (mht_remove of_nat) mht_tick) ex_history (mht_new 4 ds) =
        Inr ([MapOpt None, MapBool True, MapUnit, MapOpt (Some 10), MapBool False, MapUnit, MapOpt (Some 50), MapOpt None, MapOpt (Some 11)], t)"
proof -
  have r: "fst (spec_run map_spec ex_history Map.empty) =
      [MapOpt None, MapBool True, MapUnit, MapOpt (Some 10), MapBool False, MapUnit, MapOpt (Some 50), MapOpt None, MapOpt (Some 11)]"
    by (simp add: ex_history_def)
  have "usable ex_config (10 * length ex_history)" using usable_mono [OF ex_config_usable(1)] by (simp add: ex_history_def)
  moreover have "alloc_room first_fit (card (allocated (ex_memory :: (nat, nat) ht_payload pmem)) + Suc (10 * length ex_history))"
    by (rule first_fit_room) (simp add: ex_memory_def ex_history_def)
  moreover have "list_all (map_legal {..<cf_task_num ex_config}) ex_history" by (simp add: ex_history_def ex_config_usable)
  ultimately show ?thesis
    using MontageHashTable_refines_map [of ex_config ex_history ex_memory first_fit 4 "[]" of_nat] unfolding r by (simp add: ex_memory_def)
qed

text \<open>
  C4.  Restarting a hash table gives back the map of the recovered payloads.  However the payloads are
  dealt to recovery threads and whatever the order in which these insert, the rebuilt table answers every later history
  as the map holding exactly the recovered keys and values does; and if two recovered payloads
  have the same key, every order ends in the error the code raises.
\<close>

theorem MontageHashTable_restarts:
  assumes "usable g (10 * length xs)" "finite (allocated m)" "alloc_room ral (card (allocated m) + 10 * length xs)"
    and "INIT_EPOCH \<le> e" "unat e + 10 * length xs < 2 ^ 64 - 1"
    and "stored V e m" "dom V = set (map snd recovered)" "distinct (map snd recovered)"
    and "0 < rec_thd" "mset order = (\<Sum>i<rec_thd. mset (dealt rec_thd (length recovered) i))"
    and "0 < idxSize" and "list_all (map_legal {..<cf_task_num g}) xs"
  shows "\<exists>ds. Recoverable_new None g ral (Some e) descs m = Inr ds
    \<and> (if distinct (map (\<lambda>a. pl_key (the (V a))) (map snd recovered))
       then \<exists>t t'. mht_recover hash_fn recovered order (mht_new idxSize ds) = Inr (length recovered, t)
         \<and> obj_run (map_step (mht_get hash_fn) (mht_put hash_fn) (mht_insert hash_fn) (mht_remove hash_fn) mht_tick) xs t =
             Inr (fst (spec_run map_spec xs (contents V (map snd recovered))), t')
       else mht_recover hash_fn recovered order (mht_new idxSize ds) = Inl (ErrExit ''conflicting keys recovered.''))"
proof -
  obtain ds where ds: "Recoverable_new None g ral (Some e) descs m = Inr ds" "idle (cf_task_num g) (10 * length xs) ds V"
    using usable_restart [OF assms(1-6)] by blast
  note out = mht_recover_outcome [OF ds(2) assms(11,7-10), of hash_fn]
  show ?thesis using ds(1) out mht_history [OF _ assms(12)] by (simp split: if_splits) blast
qed

definition ex_payloads :: "addr \<rightharpoonup> (nat, nat) ht_payload" where
  "ex_payloads = [64 \<mapsto> \<lparr>pl_key = 9, pl_val = 90\<rparr>, 128 \<mapsto> \<lparr>pl_key = 1, pl_val = 10\<rparr>, 192 \<mapsto> \<lparr>pl_key = 5, pl_val = 50\<rparr>]"

definition ex_survivors :: "(nat, nat) ht_payload pmem" where
  "ex_survivors = ex_memory\<lparr>m_hdr := (\<lambda>a. if a \<in> {64, 128, 192} then Some (PBlk_new\<lparr>pb_epoch := 4, pb_blktype := ALLOC\<rparr>) else None),
     m_val := ex_payloads, allocated := {64, 128, 192}\<rparr>"

definition ex_later :: "(nat, nat) map_op list" where
  "ex_later = [MapGet 5 0, MapPut 9 91 1, MapTick 2, MapRemove 1 0, MapGet 9 1]"

definition ex_recovered :: "(u64 \<times> addr) list" where
  "ex_recovered = [(3, 64), (1, 128), (2, 192)]"

theorem MontageHashTable_restarts_witness:
  "\<exists>ds t t'. Recoverable_new None ex_config first_fit (Some 7) [] ex_survivors = Inr ds
    \<and> mht_recover of_nat ex_recovered [1, 0, 2] (mht_new 4 ds) = Inr (3, t)
    \<and> obj_run (map_step (mht_get of_nat) (mht_put of_nat) (mht_insert of_nat) (mht_remove of_nat) mht_tick) ex_later t =
        Inr ([MapOpt (Some 50), MapOpt (Some 90), MapUnit, MapOpt (Some 10), MapOpt (Some 91)], t')"
proof -
  have h: "usable ex_config (10 * length ex_later)" "finite (allocated ex_survivors)"
      "alloc_room first_fit (card (allocated ex_survivors) + 10 * length ex_later)" "INIT_EPOCH \<le> 7" "unat (7 :: u64) + 10 * length ex_later < 2 ^ 64 - 1"
    using usable_mono [OF ex_config_usable(1)] by (simp_all add: ex_survivors_def first_fit_room ex_later_def)
  have s: "stored ex_payloads 7 ex_survivors"
    by (auto simp: stored_def ex_payloads_def ex_survivors_def payload_hdr_def is_raw_def PBlk_new_def split: if_splits)
  have r: "dom ex_payloads = set (map snd ex_recovered)" "distinct (map snd ex_recovered)" by (auto simp: ex_payloads_def ex_recovered_def)
  have o: "0 < (2 :: nat)" "mset [1, 0, 2] = (\<Sum>i<2. mset (dealt 2 (length ex_recovered) i))"
    by (simp_all add: dealt_def ex_recovered_def lessThan_Suc numeral_2_eq_2 upt_rec)
  have l: "0 < (4 :: nat)" "list_all (map_legal {..<cf_task_num ex_config}) ex_later" by (simp_all add: ex_config_usable ex_later_def)
  have "distinct (map (\<lambda>a. pl_key (the (ex_payloads a))) (map snd ex_recovered))" by (simp add: ex_payloads_def ex_recovered_def)
  moreover have "fst (spec_run map_spec ex_later (contents ex_payloads (map snd ex_recovered))) =
      [MapOpt (Some 50), MapOpt (Some 90), MapUnit, MapOpt (Some 10), MapOpt (Some 91)]"
    by (simp add: ex_payloads_def contents_def entry_def ex_later_def ex_recovered_def)
  moreover have "length ex_recovered = 3" by (simp add: ex_recovered_def)
  ultimately show ?thesis using MontageHashTable_restarts [OF h s r o l, of "[]" of_nat] by presburger
qed

end
