(* ===== verification/Montage_Queue.thy ===== *)
theory Montage_Queue
  imports Store_Life Transient_Structures
begin

text \<open>
  \<^verbatim>\<open>src/rideables/MontageQueue.hpp\<close>: the queue under one lock whose payloads are persistent.  Its transient nodes form the chain
  of the transient queue, with pointers to payloads for values; a payload carries a serial number, taken from the queue's
  counter, so that the payloads alone determine the order of the queue.
\<close>

section \<open>The queue\<close>

record 'v mq_payload =
  mp_val :: 'v
  mp_sn :: u64

record 'v mq =
  mq_ds :: "'v mq_payload recoverable"
  mq_nodes :: "addr node_queue"
  global_sn :: u64

definition mq_new :: "'v mq_payload recoverable \<Rightarrow> 'v mq" where
  "mq_new ds = \<lparr>mq_ds = ds, mq_nodes = nq_new, global_sn = 0\<rparr>"

text \<open>\<^verbatim>\<open>set_sn\<close> and \<^verbatim>\<open>get_val\<close> of a node, by its payload.\<close>

definition qnode_set_sn :: "u64 \<Rightarrow> addr \<Rightarrow> 'v mq_payload recoverable \<Rightarrow> 'v mq_payload recoverable res" where
  "qnode_set_sn sn payload ds = rassert (payload \<noteq> 0) (field_set_unsafe (mp_sn_update (\<lambda>_. sn)) payload ds)"

definition qnode_get_val :: "addr \<Rightarrow> 'v mq_payload recoverable \<Rightarrow> 'v res" where
  "qnode_get_val payload ds = rassert (payload \<noteq> 0) (field_get_unsafe mp_val payload ds)"

definition mq_enqueue :: "'v \<Rightarrow> nat \<Rightarrow> 'v mq \<Rightarrow> 'v mq res" where
  "mq_enqueue val tid q =
     rbind (pnew tid \<lparr>mp_val = val, mp_sn = 0\<rparr> (mq_ds q)) (\<lambda>(payload, ds).
     case new_node payload (mq_nodes q) of (new, nodes) \<Rightarrow>
     rbind (qnode_set_sn (global_sn q) payload ds) (\<lambda>ds1.
     rbind (begin_op tid ds1) (\<lambda>ds2.
     rbind (nq_link new nodes) (\<lambda>nodes'.
     rbind (end_op tid ds2) (\<lambda>ds3. Inr \<lparr>mq_ds = ds3, mq_nodes = nodes', global_sn = global_sn q + 1\<rparr>)))))"

definition mq_dequeue :: "nat \<Rightarrow> 'v mq \<Rightarrow> ('v option \<times> 'v mq) res" where
  "mq_dequeue tid q =
     rbind (begin_op tid (mq_ds q)) (\<lambda>ds1.
     case nq_head (mq_nodes q) of
       None \<Rightarrow> rbind (end_op tid ds1) (\<lambda>ds2. Inr (None, q\<lparr>mq_ds := ds2\<rparr>))
     | Some tmp \<Rightarrow>
         rbind (nq_unlink tmp (mq_nodes q)) (\<lambda>(payload, nodes).
         rbind (qnode_get_val payload ds1) (\<lambda>res.
         rbind (pdelete tid payload ds1) (\<lambda>ds2.
         rbind (end_op tid ds2) (\<lambda>ds3. Inr (Some res, q\<lparr>mq_ds := ds3, mq_nodes := nodes\<rparr>))))))"

definition mq_recover :: "'v mq \<Rightarrow> (nat \<times> 'v mq) res" where
  "mq_recover q = Inl (ErrExit ''recover of MontageQueue not implemented.'')"

text \<open>The epoch advancer takes a turn between two operations.\<close>

definition mq_tick :: "nat \<Rightarrow> 'v mq \<Rightarrow> 'v mq res" where
  "mq_tick tid q = rbind (next_epoch tid (mq_ds q)) (\<lambda>ds. Inr (q\<lparr>mq_ds := ds\<rparr>))"

section \<open>The queue is a queue\<close>

text \<open>
  The payloads along the chain are all the payloads there are, and their serial numbers are the last ones drawn.
\<close>

definition chain_of :: "addr list \<Rightarrow> (addr \<rightharpoonup> 'v mq_payload) \<Rightarrow> nat \<Rightarrow> 'v list \<Rightarrow> bool" where
  "chain_of ps V sn vs \<longleftrightarrow> distinct ps \<and> set ps = dom V \<and> map (\<lambda>a. mp_val (the (V a))) ps = vs
     \<and> length ps \<le> sn \<and> map (\<lambda>a. unat (mp_sn (the (V a)))) ps = [sn - length ps..<sn]"

definition mq_rep :: "nat \<Rightarrow> nat \<Rightarrow> 'v mq \<Rightarrow> 'v list \<Rightarrow> bool" where
  "mq_rep n b q vs \<longleftrightarrow> (\<exists>V ps. idle n (10 * b) (mq_ds q) V \<and> nq_rep (mq_nodes q) ps
     \<and> chain_of ps V (unat (global_sn q)) vs \<and> unat (global_sn q) + b < 2 ^ 64)"

lemma chain_of_snoc:
  assumes "chain_of ps V (unat g) vs" "V a = None" "unat g + 1 < 2 ^ 64"
  shows "chain_of (ps @ [a]) (V(a \<mapsto> \<lparr>mp_val = v, mp_sn = g\<rparr>)) (unat (g + 1)) (vs @ [v])"
proof -
  obtain W where W: "W = V(a \<mapsto> \<lparr>mp_val = v, mp_sn = g\<rparr>)" by blast
  have na: "a \<notin> set ps" using assms(1,2) by (auto simp: chain_of_def)
  then have m: "map (\<lambda>x. mp_val (the (W x))) ps = map (\<lambda>x. mp_val (the (V x))) ps"
      "map (\<lambda>x. unat (mp_sn (the (W x)))) ps = map (\<lambda>x. unat (mp_sn (the (V x)))) ps" by (simp_all add: W)
  have "unat (g + 1) = Suc (unat g)" using assms(3) by (simp add: unat_word_ariths(1))
  moreover have "W a = Some \<lparr>mp_val = v, mp_sn = g\<rparr>" "dom W = insert a (dom V)" by (simp_all add: W)
  ultimately have "chain_of (ps @ [a]) W (unat (g + 1)) (vs @ [v])"
    using assms(1) na unfolding chain_of_def map_append m by (simp add: Suc_diff_le)
  then show ?thesis by (simp only: W)
qed

lemma chain_of_tl:
  assumes "chain_of (a # ps) V sn vs"
  shows "\<exists>p. V a = Some p \<and> vs = mp_val p # tl vs \<and> chain_of ps (V(a := None)) sn (tl vs)"
proof -
  obtain W where W: "W = V(a := None)" by blast
  have "a \<in> dom V" using assms by (auto simp: chain_of_def)
  then obtain p where p: "V a = Some p" by auto
  have na: "a \<notin> set ps" using assms by (auto simp: chain_of_def)
  then have m: "map (\<lambda>x. mp_val (the (W x))) ps = map (\<lambda>x. mp_val (the (V x))) ps"
      "map (\<lambda>x. unat (mp_sn (the (W x)))) ps = map (\<lambda>x. unat (mp_sn (the (V x)))) ps" by (simp_all add: W)
  have "[sn - Suc (length ps)..<sn] = (sn - Suc (length ps)) # [sn - length ps..<sn]"
    using assms by (subst upt_conv_Cons) (auto simp: chain_of_def Suc_diff_Suc)
  moreover have "dom W = dom V - {a}" by (simp add: W)
  ultimately have "chain_of ps W sn (tl vs)" using assms na unfolding chain_of_def m by (simp add: insert_ident) auto
  then show ?thesis using p assms by (auto simp: chain_of_def W)
qed

lemma mq_tick_rep:
  assumes "mq_rep n (Suc b) q vs"
  shows "\<exists>q'. mq_tick tid q = Inr q' \<and> mq_rep n b q' vs"
proof -
  obtain V ps where r: "idle n (10 * Suc b) (mq_ds q) V" "nq_rep (mq_nodes q) ps" "chain_of ps V (unat (global_sn q)) vs"
      "unat (global_sn q) + Suc b < 2 ^ 64" using assms by (auto simp: mq_rep_def)
  have "idle n (Suc (10 * b)) (mq_ds q) V" by (rule idle_mono [OF r(1)]) simp
  from next_epoch_idle [OF this, of tid] obtain ds where ds: "next_epoch tid (mq_ds q) = Inr ds" "idle n (10 * b) ds V" by auto
  then have "mq_rep n b (q\<lparr>mq_ds := ds\<rparr>) vs" using r(2-4) by (auto simp: mq_rep_def)
  then show ?thesis using ds(1) by (simp add: mq_tick_def)
qed

lemma idle_null: "idle n b r V \<Longrightarrow> V 0 = None"
  by (cases "V 0") (auto simp: idle_def outside_op_def core_def payloads_ok_def)

lemma mq_enqueue_rep:
  assumes "mq_rep n (Suc b) q vs" "tid < n"
  shows "\<exists>q'. mq_enqueue v tid q = Inr q' \<and> mq_rep n b q' (vs @ [v])"
proof -
  obtain V ps where r: "idle n (10 * Suc b) (mq_ds q) V" "nq_rep (mq_nodes q) ps" "chain_of ps V (unat (global_sn q)) vs"
      "unat (global_sn q) + Suc b < 2 ^ 64" using assms by (auto simp: mq_rep_def)
  have "outside_op n (Suc (10 * b + 9)) tid [] (mq_ds q) V" using r(1) idle_outside [of n _ "mq_ds q" V tid] by simp
  from pnew_outside [OF this assms(2), of "\<lparr>mp_val = v, mp_sn = 0\<rparr>"] obtain a ds where
    nw: "pnew tid \<lparr>mp_val = v, mp_sn = 0\<rparr> (mq_ds q) = Inr (a, ds)" "V a = None"
      "outside_op n (10 * b + 9) tid [a] ds (V(a \<mapsto> \<lparr>mp_val = v, mp_sn = 0\<rparr>))" by auto
  have a0: "a \<noteq> 0" using nw(3) by (auto simp: outside_op_def core_def payloads_ok_def)
  let ?V = "V(a \<mapsto> \<lparr>mp_val = v, mp_sn = global_sn q\<rparr>)"
  from set_unsafe_outside [OF nw(3), of a "\<lparr>mp_val = v, mp_sn = 0\<rparr>" "mp_sn_update (\<lambda>_. global_sn q)"] obtain ds1 where
    d1: "field_set_unsafe (mp_sn_update (\<lambda>_. global_sn q)) a ds = Inr ds1" "outside_op n (10 * b + 9) tid [a] ds1 ?V" by auto
  have "outside_op n (Suc (length [a] + (10 * b + 7))) tid [a] ds1 ?V" using d1(2) by (simp add: numeral_eq_Suc)
  from begin_op_inside [OF this assms(2)] obtain ds2 where d2: "begin_op tid ds1 = Inr ds2" "inside_op n (10 * b + 7) tid [a] ds2 ?V" by blast
  from end_op_outside(1) [OF d2(2)] obtain ds3 where d3: "end_op tid ds2 = Inr ds3" "idle n (10 * b + 7) ds3 ?V" by blast
  obtain new nodes where nn: "new_node a (mq_nodes q) = (new, nodes)" by fastforce
  from nq_link_rep [OF r(2) nn] obtain nodes' where l: "nq_link new nodes = Inr nodes'" "nq_rep nodes' (ps @ [a])" by blast
  have c: "chain_of (ps @ [a]) ?V (unat (global_sn q + 1)) (vs @ [v])" using chain_of_snoc [OF r(3) nw(2)] r(4) by simp
  have u: "unat (global_sn q + 1) = Suc (unat (global_sn q))" using r(4) by (simp add: unat_word_ariths(1))
  have "mq_rep n b \<lparr>mq_ds = ds3, mq_nodes = nodes', global_sn = global_sn q + 1\<rparr> (vs @ [v])"
    unfolding mq_rep_def using idle_mono [OF d3(2), of "10 * b"] l(2) c r(4) u
    by (intro exI [of _ ?V] exI [of _ "ps @ [a]"]) (simp del: fun_upd_apply)
  then show ?thesis using nw(1) nn d1(1) d2(1) l(1) d3(1) a0 by (simp add: mq_enqueue_def qnode_set_sn_def rassert_def)
qed

lemma mq_dequeue_rep:
  assumes "mq_rep n (Suc b) q vs" "tid < n"
  shows "\<exists>q'. mq_dequeue tid q = Inr (if vs = [] then None else Some (hd vs), q') \<and> mq_rep n b q' (tl vs)"
proof -
  obtain V ps where r: "idle n (10 * Suc b) (mq_ds q) V" "nq_rep (mq_nodes q) ps" "chain_of ps V (unat (global_sn q)) vs"
      "unat (global_sn q) + Suc b < 2 ^ 64" using assms by (auto simp: mq_rep_def)
  have "outside_op n (Suc (length ([] :: addr list) + (10 * b + 9))) tid [] (mq_ds q) V" using r(1) idle_outside [of n _ "mq_ds q" V tid] by simp
  from begin_op_inside [OF this assms(2)] obtain ds1 where d1: "begin_op tid (mq_ds q) = Inr ds1" "inside_op n (10 * b + 9) tid [] ds1 V" by blast
  show ?thesis
  proof (cases ps)
    case Nil
    then have e: "nq_head (mq_nodes q) = None" "vs = []" using r(2,3) by (auto simp: nq_rep_empty chain_of_def)
    from end_op_outside(1) [OF d1(2)] obtain ds2 where d2: "end_op tid ds1 = Inr ds2" "idle n (10 * b + 9) ds2 V" by blast
    have "mq_rep n b (q\<lparr>mq_ds := ds2\<rparr>) []" using idle_mono [OF d2(2), of "10 * b"] r(2-4) e(2) by (auto simp: mq_rep_def)
    then show ?thesis using e d1(1) d2(1) by (simp add: mq_dequeue_def)
  next
    case (Cons a as)
    from chain_of_tl [OF r(3) [unfolded Cons]] obtain p where
      p: "V a = Some p" "vs = mp_val p # tl vs" "chain_of as (V(a := None)) (unat (global_sn q)) (tl vs)" by blast
    from nq_unlink_rep [OF r(2) [unfolded Cons]] obtain tmp nodes where
      u: "nq_head (mq_nodes q) = Some tmp" "nq_unlink tmp (mq_nodes q) = Inr (a, nodes)" "nq_rep nodes as" by blast
    have a0: "a \<noteq> 0" using idle_null [OF r(1)] p(1) by auto
    have "inside_op n (10 * b + 4) tid [] ds1 V" by (rule inside_mono [OF d1(2)]) simp
    from pdelete_inside [OF this p(1)] obtain ds2 where d2: "pdelete tid a ds1 = Inr ds2" "inside_op n (10 * b) tid [] ds2 (V(a := None))" by blast
    from end_op_outside(1) [OF d2(2)] obtain ds3 where d3: "end_op tid ds2 = Inr ds3" "idle n (10 * b) ds3 (V(a := None))" by blast
    have "mq_rep n b (q\<lparr>mq_ds := ds3, mq_nodes := nodes\<rparr>) (tl vs)"
      unfolding mq_rep_def using d3(2) u(3) p(3) r(4) by (intro exI [of _ "V(a := None)"] exI [of _ as]) (simp del: fun_upd_apply)
    moreover have "vs \<noteq> []" "hd vs = mp_val p" using p(2) by (metis list.distinct(1), metis list.sel(1))
    ultimately show ?thesis using d1(1) u(1,2) get_inside [OF d1(2) p(1), of mp_val] d2(1) d3(1) a0
      by (simp add: mq_dequeue_def qnode_get_val_def rassert_def)
  qed
qed

interpretation mqu: rqueue mq_enqueue mq_dequeue mq_tick "mq_rep n" "{..<n}" for n
proof (unfold_locales, goal_cases)
  case (2 b q tid)
  then show ?case using mq_dequeue_rep [of n b q "[]" tid] by simp
next
  case (3 b q v vs tid)
  then show ?case using mq_dequeue_rep [of n b q "v # vs" tid] by simp
qed (simp_all add: mq_enqueue_rep mq_tick_rep)

lemma mq_new_rep: "idle n (10 * b) ds Map.empty \<Longrightarrow> b < 2 ^ 64 \<Longrightarrow> mq_rep n b (mq_new ds) []"
  unfolding mq_rep_def by (intro exI [of _ Map.empty] exI [of _ "[]"]) (simp add: mq_new_def chain_of_def nq_rep_empty nq_new_def)

section \<open>The order of the payloads\<close>

text \<open>What the payloads in memory say about the queue: their values by increasing serial number.\<close>

definition by_serial :: "(addr \<rightharpoonup> 'v mq_payload) \<Rightarrow> 'v list" where
  "by_serial V = map mp_val (sort_key (\<lambda>p. unat (mp_sn p)) (map (\<lambda>a. the (V a)) (sorted_list_of_set (dom V))))"

lemma chain_by_serial:
  assumes "chain_of ps V sn vs"
  shows "by_serial V = vs"
proof -
  let ?L = "map (\<lambda>a. the (V a)) ps" and ?k = "\<lambda>p. unat (mp_sn p)"
  have c: "distinct ps" "set ps = dom V" "map mp_val ?L = vs" "map ?k ?L = [sn - length ps..<sn]"
    using assms by (auto simp: chain_of_def comp_def)
  have "finite (dom V)" unfolding c(2) [symmetric] by simp
  then have "mset (sorted_list_of_set (dom V)) = mset ps"
    using c(1,2) set_eq_iff_mset_eq_distinct [of "sorted_list_of_set (dom V)" ps] by simp
  then have m: "mset (map (\<lambda>a. the (V a)) (sorted_list_of_set (dom V))) = mset ?L" by (simp only: mset_map)
  have "distinct (map ?k ?L)" unfolding c(4) by (rule distinct_upt)
  then have "inj_on ?k (set ?L)" unfolding distinct_map by blast
  then have i: "inj_on ?k (set (map (\<lambda>a. the (V a)) (sorted_list_of_set (dom V))))" by (simp only: mset_eq_setD [OF m])
  have "sorted (map ?k ?L)" unfolding c(4) by simp
  then have "sort_key ?k (map (\<lambda>a. the (V a)) (sorted_list_of_set (dom V))) = ?L" by (rule sort_key_inj_key_eq [OF m i])
  then show ?thesis using c(3) by (simp add: by_serial_def)
qed

section \<open>Claims\<close>


definition ex_queue_history :: "nat queue_op list" where
  "ex_queue_history = [Dequeue 0, Enqueue 10 0, Enqueue 20 1, QueueTick 2, Dequeue 1, Enqueue 30 0, QueueTick 2, QueueTick 2, Dequeue 0, Enqueue 40 1]"


end
