(* ===== verification/Montage_Graph.thy ===== *)
theory Montage_Graph
  imports Store_Life Rideable_Specs
begin

text \<open>
  \<^verbatim>\<open>src/rideables/MontageGraph.hpp\<close>: the directed graph whose vertices and edges are persistent payloads.  A vertex keeps its
  outgoing edges in \<^verbatim>\<open>adjacency_list\<close> and its incoming ones in \<^verbatim>\<open>dest_list\<close>, both of pointers to the same payloads.
  An operation runs under the locks of the vertices it touches and is one step here; only \<^verbatim>\<open>remove_vertex\<close>, which releases
  its lock to take several in order, lets other operations in between and finds out by the sequence number of the vertex.
\<close>

section \<open>Payloads, vertices and the array\<close>

datatype graph_payload = Vertex int int | Relation int int int

type_synonym edge = "int \<times> int"

text \<open>A map of relations, as the list of its entries in the order of iteration.\<close>

type_synonym relations = "(edge \<times> addr) list"

type_synonym graph_rec = "graph_payload recoverable"

record tvertex =
  tv_payload :: addr
  tv_id :: int
  adjacency_list :: relations
  dest_list :: relations

record vertex_meta =
  idxToVertex :: "tvertex option"
  vertexSeqs :: "32 word"

type_synonym vertices = "int \<Rightarrow> vertex_meta"

record graph =
  mg_ds :: graph_rec
  numVertices :: int
  vMeta :: vertices

text \<open>\<^verbatim>\<open>emplace\<close>, \<^verbatim>\<open>find\<close> and \<^verbatim>\<open>erase\<close> of the map.\<close>

definition emplace :: "edge \<Rightarrow> addr \<Rightarrow> relations \<Rightarrow> bool \<times> relations" where
  "emplace p r m = (if map_of m p = None then (True, m @ [(p, r)]) else (False, m))"

definition has_relation :: "relations \<Rightarrow> edge \<Rightarrow> bool" where
  "has_relation m r \<longleftrightarrow> map_of m r \<noteq> None"

definition remove_relation :: "edge \<Rightarrow> relations \<Rightarrow> addr option \<times> relations" where
  "remove_relation r m = (map_of m r, filter (\<lambda>x. fst x \<noteq> r) m)"

text \<open>Taking the lock of a vertex accesses the array at its index.\<close>

definition lock_vertex :: "int \<Rightarrow> graph \<Rightarrow> unit res" where
  "lock_vertex i g = (if 0 \<le> i \<and> i < numVertices g then Inr () else Inl BadAccess)"

definition lock_all :: "int list \<Rightarrow> graph \<Rightarrow> unit res" where
  "lock_all is g = rfold (\<lambda>i _. lock_vertex i g) is ()"

definition vertex :: "int \<Rightarrow> vertices \<Rightarrow> tvertex option" where
  "vertex i T = idxToVertex (T i)"

definition set_vertex :: "int \<Rightarrow> tvertex option \<Rightarrow> vertices \<Rightarrow> vertices" where
  "set_vertex i v T = T(i := (T i)\<lparr>idxToVertex := v\<rparr>)"

definition get_seq :: "int \<Rightarrow> vertices \<Rightarrow> 32 word" where
  "get_seq i T = vertexSeqs (T i)"

definition inc_seq :: "int \<Rightarrow> vertices \<Rightarrow> vertices" where
  "inc_seq i T = T(i := (T i)\<lparr>vertexSeqs := vertexSeqs (T i) + 1\<rparr>)"

definition source :: "int \<Rightarrow> vertices \<Rightarrow> relations res" where
  "source i T = (case vertex i T of None \<Rightarrow> Inl BadAccess | Some v \<Rightarrow> Inr (adjacency_list v))"

definition destination :: "int \<Rightarrow> vertices \<Rightarrow> relations res" where
  "destination i T = (case vertex i T of None \<Rightarrow> Inl BadAccess | Some v \<Rightarrow> Inr (dest_list v))"

definition set_source :: "int \<Rightarrow> relations \<Rightarrow> vertices \<Rightarrow> vertices" where
  "set_source i m T = set_vertex i (map_option (\<lambda>v. v\<lparr>adjacency_list := m\<rparr>) (vertex i T)) T"

definition set_destination :: "int \<Rightarrow> relations \<Rightarrow> vertices \<Rightarrow> vertices" where
  "set_destination i m T = set_vertex i (map_option (\<lambda>v. v\<lparr>dest_list := m\<rparr>) (vertex i T)) T"

text \<open>Emplacing a relation at both of its ends.\<close>

definition emplace_both :: "edge \<Rightarrow> addr \<Rightarrow> vertices \<Rightarrow> (bool \<times> bool \<times> vertices) res" where
  "emplace_both p r T =
     rbind (source (fst p) T) (\<lambda>srcSet. case emplace p r srcSet of (ret1, srcSet') \<Rightarrow>
     let T1 = set_source (fst p) srcSet' T in
     rbind (destination (snd p) T1) (\<lambda>destSet. case emplace p r destSet of (ret2, destSet') \<Rightarrow>
       Inr (ret1, ret2, set_destination (snd p) destSet' T1)))"

section \<open>Operations\<close>

text \<open>
  The constructor, on a store without recovered payloads.  \<^term>\<open>coin\<close> says which vertices the random numbers put into the graph and
  \<^term>\<open>picks\<close> which vertices they draw as the ends of a vertex's edges.
\<close>

definition new_vertex :: "nat \<Rightarrow> int \<Rightarrow> int \<Rightarrow> graph_rec \<Rightarrow> (tvertex \<times> graph_rec) res" where
  "new_vertex tid i l ds =
     rbind (pnew tid (Vertex i l) ds) (\<lambda>(payload, ds1).
       Inr (\<lparr>tv_payload = payload, tv_id = i, adjacency_list = [], dest_list = []\<rparr>, ds1))"

definition delete_vertex :: "nat \<Rightarrow> tvertex \<Rightarrow> graph_rec \<Rightarrow> graph_rec res" where
  "delete_vertex tid v ds = (if tv_payload v \<noteq> 0 then pdelete tid (tv_payload v) ds else Inr ds)"

definition fill_vertex :: "nat \<Rightarrow> (int \<Rightarrow> bool) \<Rightarrow> int \<Rightarrow> graph_rec \<times> vertices \<Rightarrow> (graph_rec \<times> vertices) res" where
  "fill_vertex tid coin i = (\<lambda>(ds, T).
     if coin i then rbind (new_vertex tid i i ds) (\<lambda>(v, ds1). Inr (ds1, T(i := \<lparr>idxToVertex = Some v, vertexSeqs = 0\<rparr>)))
     else Inr (ds, T(i := \<lparr>idxToVertex = None, vertexSeqs = 0\<rparr>)))"

definition fill_edge :: "nat \<Rightarrow> int \<Rightarrow> int \<Rightarrow> graph_rec \<times> vertices \<Rightarrow> (graph_rec \<times> vertices) res" where
  "fill_edge tid i k = (\<lambda>(ds, T).
     if k = i \<or> vertex k T = None then Inr (ds, T)
     else rbind (pnew tid (Relation (-1) i k) ds) (\<lambda>(r, ds1).
          rbind (emplace_both (i, k) r T) (\<lambda>(ret1, ret2, T1).
          rassert (ret1 = ret2)
            (if ret1 then Inr (ds1, T1) else rbind (pdelete tid r ds1) (\<lambda>ds2. Inr (ds2, T1))))))"

definition fill_edges :: "nat \<Rightarrow> (int \<Rightarrow> int list) \<Rightarrow> int \<Rightarrow> graph_rec \<times> vertices \<Rightarrow> (graph_rec \<times> vertices) res" where
  "fill_edges tid picks i = (\<lambda>(ds, T).
     if vertex i T = None then Inr (ds, T) else rfold (fill_edge tid i) (picks i) (ds, T))"

definition empty_meta :: vertices where
  "empty_meta = (\<lambda>_. \<lparr>idxToVertex = None, vertexSeqs = 0\<rparr>)"

definition mg_new :: "nat \<Rightarrow> int \<Rightarrow> (int \<Rightarrow> bool) \<Rightarrow> (int \<Rightarrow> int list) \<Rightarrow> graph_rec \<Rightarrow> graph res" where
  "mg_new tid num coin picks ds =
     rbind (rfold (fill_vertex tid coin) [0..num - 1] (ds, empty_meta)) (\<lambda>st1.
     rbind (rfold (fill_edges tid picks) [0..num - 1] st1) (\<lambda>(ds2, T2).
     rbind (begin_op tid ds2) (\<lambda>ds3.
     rbind (end_op tid ds3) (\<lambda>ds4. Inr \<lparr>mg_ds = ds4, numVertices = num, vMeta = T2\<rparr>))))"

definition mg_add_edge :: "int \<Rightarrow> int \<Rightarrow> int \<Rightarrow> nat \<Rightarrow> graph \<Rightarrow> (bool \<times> graph) res" where
  "mg_add_edge src dest weight tid g =
     rbind (pnew tid (Relation weight src dest) (mg_ds g)) (\<lambda>(r, ds).
       if src = dest then Inr (False, g\<lparr>mg_ds := ds\<rparr>)
       else rbind (lock_all [min src dest, max src dest] g) (\<lambda>_.
         let T = vMeta g in
         if vertex src T = None \<or> vertex dest T = None
         then rbind (pdelete tid r ds) (\<lambda>ds1. Inr (False, g\<lparr>mg_ds := ds1\<rparr>))
         else rbind (begin_op tid ds) (\<lambda>ds1.
              rbind (emplace_both (src, dest) r T) (\<lambda>(ret1, ret2, T1).
              rassert (ret1 = ret2) (
              let T2 = (if ret1 then inc_seq dest (inc_seq src T1) else T1) in
              rbind (end_op tid ds1) (\<lambda>ds2.
              rbind (if ret1 then Inr ds2 else pdelete tid r ds2) (\<lambda>ds3.
                Inr (ret1, g\<lparr>mg_ds := ds3, vMeta := T2\<rparr>))))))))"

definition mg_has_edge :: "int \<Rightarrow> int \<Rightarrow> nat \<Rightarrow> graph \<Rightarrow> (bool \<times> graph) res" where
  "mg_has_edge src dest tid g =
     rbind (lock_vertex src g) (\<lambda>_.
       case vertex src (vMeta g) of
         None \<Rightarrow> Inr (False, g)
       | Some v \<Rightarrow>
           rbind (begin_op tid (mg_ds g)) (\<lambda>ds1.
           let retval = has_relation (adjacency_list v) (src, dest) in
           rbind (end_op tid ds1) (\<lambda>ds2. Inr (retval, g\<lparr>mg_ds := ds2\<rparr>))))"

definition remove_both :: "edge \<Rightarrow> vertices \<Rightarrow> (addr option \<times> addr option \<times> vertices) res" where
  "remove_both p T =
     rbind (source (fst p) T) (\<lambda>srcSet. case remove_relation p srcSet of (ret1, srcSet') \<Rightarrow>
     let T1 = set_source (fst p) srcSet' T in
     rbind (destination (snd p) T1) (\<lambda>destSet. case remove_relation p destSet of (ret2, destSet') \<Rightarrow>
       Inr (ret1, ret2, set_destination (snd p) destSet' T1)))"

definition mg_remove_edge :: "int \<Rightarrow> int \<Rightarrow> nat \<Rightarrow> graph \<Rightarrow> (bool \<times> graph) res" where
  "mg_remove_edge src dest tid g =
     (if src = dest then Inr (False, g)
      else rbind (lock_all [min src dest, max src dest] g) (\<lambda>_.
        let T = vMeta g in
        if vertex src T = None \<or> vertex dest T = None then Inr (False, g)
        else rbind (begin_op tid (mg_ds g)) (\<lambda>ds1.
             rbind (remove_both (src, dest) T) (\<lambda>(ret1, ret2, T1).
             rassert (ret1 = ret2)
               (case ret1 of
                  None \<Rightarrow> rbind (end_op tid ds1) (\<lambda>ds2. Inr (False, g\<lparr>mg_ds := ds2, vMeta := T1\<rparr>))
                | Some r \<Rightarrow>
                    rbind (pdelete tid r ds1) (\<lambda>ds2.
                    rbind (end_op tid ds2) (\<lambda>ds3.
                      Inr (True, g\<lparr>mg_ds := ds3, vMeta := inc_seq dest (inc_seq src T1)\<rparr>))))))))"

text \<open>
  \<^verbatim>\<open>add_vertex\<close> connects the new vertex with those among randomly drawn ones that exist; \<^term>\<open>samples\<close> are the numbers drawn.
\<close>

definition sample_vector :: "int \<Rightarrow> int list \<Rightarrow> int list" where
  "sample_vector vid samples =
     remdups_adj (sort (map snd (filter (\<lambda>(i, u). u \<noteq> i) (zip [0..int (length samples) - 1] samples)) @ [vid]))"

definition add_neighbour :: "nat \<Rightarrow> int \<Rightarrow> int \<Rightarrow> graph_rec \<times> vertices \<Rightarrow> (graph_rec \<times> vertices) res" where
  "add_neighbour tid vid u = (\<lambda>(ds, T).
     if vertex u T = None \<or> u = vid then Inr (ds, T)
     else rbind (pnew tid (Relation (-1) vid u) ds) (\<lambda>(r, ds1).
          rbind (emplace_both (vid, u) r T) (\<lambda>(_, _, T1). Inr (ds1, T1))))"

definition bump_seqs :: "int \<Rightarrow> int list \<Rightarrow> vertices \<Rightarrow> vertices" where
  "bump_seqs vid us = fold (\<lambda>u T. if vertex vid T \<noteq> None \<and> vertex u T \<noteq> None then inc_seq u T else T) us"

definition mg_add_vertex :: "int \<Rightarrow> int list \<Rightarrow> nat \<Rightarrow> graph \<Rightarrow> (bool \<times> graph) res" where
  "mg_add_vertex vid samples tid g =
     (let vec = sample_vector vid samples in
      rbind (new_vertex tid vid vid (mg_ds g)) (\<lambda>(new_v, ds).
      rbind (lock_all vec g) (\<lambda>_.
        let T = vMeta g in
        if vertex vid T = None
        then rbind (begin_op tid ds) (\<lambda>ds1.
             rbind (rfold (add_neighbour tid vid) vec (ds1, set_vertex vid (Some new_v) T)) (\<lambda>(ds2, T1).
             rbind (end_op tid ds2) (\<lambda>ds3.
               Inr (True, g\<lparr>mg_ds := ds3, vMeta := bump_seqs vid (rev vec) T1\<rparr>))))
        else rbind (delete_vertex tid new_v ds) (\<lambda>ds1.
               Inr (False, g\<lparr>mg_ds := ds1, vMeta := bump_seqs vid (rev vec) T\<rparr>)))))"

text \<open>\<^verbatim>\<open>remove_vertex\<close>.  The ends of a relation are read from its payload.\<close>

definition relation_src :: "addr \<Rightarrow> graph_rec \<Rightarrow> int res" where
  "relation_src r ds = rbind (read_val r ds) (\<lambda>p. case p of Relation w s d \<Rightarrow> Inr s | Vertex _ _ \<Rightarrow> Inl BadAccess)"

definition relation_dest :: "addr \<Rightarrow> graph_rec \<Rightarrow> int res" where
  "relation_dest r ds = rbind (read_val r ds) (\<lambda>p. case p of Relation w s d \<Rightarrow> Inr d | Vertex _ _ \<Rightarrow> Inl BadAccess)"

fun read_all :: "('a \<Rightarrow> 'b res) \<Rightarrow> 'a list \<Rightarrow> 'b list res" where
  "read_all f [] = Inr []"
| "read_all f (x # xs) = rbind (f x) (\<lambda>y. rbind (read_all f xs) (\<lambda>ys. Inr (y # ys)))"

text \<open>The first step: the sequence number and the neighbours, sorted and without repetition.\<close>

definition collect_neighbours :: "int \<Rightarrow> tvertex \<Rightarrow> graph_rec \<Rightarrow> int list res" where
  "collect_neighbours vid v ds =
     rbind (read_all (\<lambda>r. relation_dest (snd r) ds) (adjacency_list v)) (\<lambda>ds1.
     rbind (read_all (\<lambda>r. relation_src (snd r) ds) (dest_list v)) (\<lambda>ss.
       Inr (remdups_adj (sort (ds1 @ ss @ [vid])))))"

text \<open>
  The second: taking the locks one after the other, with the check that a neighbour has not gone unnoticed.  Before each lock
  is free, other threads may have changed the graph; \<^term>\<open>others\<close> is what they do, one entry for each lock.
\<close>

fun lock_neighbours :: "int \<Rightarrow> 32 word \<Rightarrow> int list \<Rightarrow> (graph \<Rightarrow> graph res) list \<Rightarrow> graph \<Rightarrow> graph res" where
  "lock_neighbours vid seq [] others g = Inr g"
| "lock_neighbours vid seq (u # us) others g =
     rbind (case others of [] \<Rightarrow> Inr g | f # _ \<Rightarrow> f g) (\<lambda>g1.
     rbind (lock_vertex u g1) (\<lambda>_.
       if vertex u (vMeta g1) = None \<and> get_seq vid (vMeta g1) = seq then Inl (ErrExit ''abort'')
       else lock_neighbours vid seq us (tl others) g1))"

text \<open>The third: the edges between the vertex and a neighbour.\<close>

definition cut_neighbour :: "nat \<Rightarrow> int \<Rightarrow> int \<Rightarrow> graph_rec \<times> vertices \<Rightarrow> (graph_rec \<times> vertices) res" where
  "cut_neighbour tid vid other = (\<lambda>(ds, T).
     if other = vid then Inr (ds, T)
     else rbind (source other T) (\<lambda>srcSet.
          rbind (destination other T) (\<lambda>destSet.
          if \<not> has_relation srcSet (other, vid) \<and> \<not> has_relation destSet (vid, other) then Inl (ErrExit ''abort'')
          else case remove_relation (other, vid) srcSet of (ret1, srcSet') \<Rightarrow>
               case remove_relation (vid, other) destSet of (ret2, destSet') \<Rightarrow>
               rbind (case ret1 of None \<Rightarrow> Inr ds | Some r \<Rightarrow> pdelete tid r ds) (\<lambda>ds1.
               rassert (\<not> has_relation srcSet' (other, vid) \<and> \<not> has_relation destSet' (vid, other))
                 (Inr (ds1, set_destination other destSet' (set_source other srcSet' T)))))))"

definition destroy_vertex :: "nat \<Rightarrow> int \<Rightarrow> graph_rec \<times> vertices \<Rightarrow> (graph_rec \<times> vertices) res" where
  "destroy_vertex tid vid = (\<lambda>(ds, T).
     case vertex vid T of None \<Rightarrow> Inl Assertion
     | Some v \<Rightarrow> rbind (delete_vertex tid v ds) (\<lambda>ds1. Inr (ds1, set_vertex vid None T)))"

definition cut_vertex :: "nat \<Rightarrow> int \<Rightarrow> int list \<Rightarrow> graph \<Rightarrow> graph res" where
  "cut_vertex tid vid us g =
     rbind (begin_op tid (mg_ds g)) (\<lambda>ds1.
     rbind (rfold (cut_neighbour tid vid) us (ds1, vMeta g)) (\<lambda>(ds2, T2).
     rbind (source vid T2) (\<lambda>srcSet.
     rbind (rfold (\<lambda>r. pdelete tid (snd r)) srcSet ds2) (\<lambda>ds3.
     rbind (destroy_vertex tid vid (ds3, set_destination vid [] (set_source vid [] T2))) (\<lambda>(ds4, T3).
     rbind (end_op tid ds4) (\<lambda>ds5. Inr (g\<lparr>mg_ds := ds5, vMeta := fold inc_seq (rev us) T3\<rparr>)))))))"

text \<open>The whole.  After a turn that found the vertex changed, the next goes on with what others do from then on.\<close>

function mg_remove_vertex :: "int \<Rightarrow> (graph \<Rightarrow> graph res) list \<Rightarrow> nat \<Rightarrow> graph \<Rightarrow> (bool \<times> graph) res" where
  "mg_remove_vertex vid others tid g =
     rbind (lock_vertex vid g) (\<lambda>_.
       case vertex vid (vMeta g) of
         None \<Rightarrow> Inr (False, g)
       | Some v \<Rightarrow>
           let seq = get_seq vid (vMeta g) in
           rbind (collect_neighbours vid v (mg_ds g)) (\<lambda>us.
           rbind (lock_neighbours vid seq us others g) (\<lambda>g1.
             if get_seq vid (vMeta g1) \<noteq> seq
             then (if us = [] \<or> others = [] then Inl Diverges else mg_remove_vertex vid (drop (length us) others) tid g1)
             else rbind (cut_vertex tid vid us g1) (\<lambda>g2. Inr (True, g2)))))"
  by auto
termination by (relation "measure (\<lambda>(vid, others, tid, g). length others)") auto

declare mg_remove_vertex.simps [simp del]

text \<open>Time passes between operations.\<close>

definition mg_tick :: "nat \<Rightarrow> graph \<Rightarrow> graph res" where
  "mg_tick tid g = rbind (next_epoch tid (mg_ds g)) (\<lambda>ds. Inr (g\<lparr>mg_ds := ds\<rparr>))"

text \<open>The number of vertices and of edges, and the degrees.\<close>

definition mg_stats :: "graph \<Rightarrow> nat \<times> nat \<times> nat list" where
  "mg_stats g =
     (let vs = map (\<lambda>i. vertex i (vMeta g)) [0..numVertices g - 1] in
      (length (filter (\<lambda>v. v \<noteq> None) vs),
       sum_list (map (\<lambda>v. case v of None \<Rightarrow> 0 | Some t \<Rightarrow> length (adjacency_list t)) vs),
       map (\<lambda>v. case v of None \<Rightarrow> 0 | Some t \<Rightarrow> length (adjacency_list t) + length (dest_list t)) vs))"

section \<open>The lists of the vertices\<close>

lemma vertex_simps [simp]:
  "vertex j (set_vertex i v T) = (if j = i then v else vertex j T)" "get_seq j (set_vertex i v T) = get_seq j T"
  "vertex j (inc_seq i T) = vertex j T" "get_seq j (inc_seq i T) = get_seq j T + (if j = i then 1 else 0)"
  by (simp_all add: vertex_def set_vertex_def get_seq_def inc_seq_def)

lemma vertex_set_lists [simp]:
  "vertex j (set_source i m T) = (if j = i then map_option (\<lambda>v. v\<lparr>adjacency_list := m\<rparr>) (vertex i T) else vertex j T)"
  "vertex j (set_destination i m T) = (if j = i then map_option (\<lambda>v. v\<lparr>dest_list := m\<rparr>) (vertex i T) else vertex j T)"
  "get_seq j (set_source i m T) = get_seq j T" "get_seq j (set_destination i m T) = get_seq j T"
  by (simp_all add: set_source_def set_destination_def)

text \<open>The entries of a list are those of a map of edges that satisfy a condition.\<close>

definition edges_in :: "relations \<Rightarrow> (edge \<Rightarrow> bool) \<Rightarrow> (edge \<rightharpoonup> addr) \<Rightarrow> bool" where
  "edges_in m P E \<longleftrightarrow> distinct (map fst m) \<and> (\<forall>p. map_of m p = (if P p then E p else None))"

lemma edges_in_of: "edges_in m P E \<Longrightarrow> P p \<Longrightarrow> map_of m p = E p"
  by (cases p) (simp add: edges_in_def)

lemma edges_in_nil: "(\<And>p. P p \<Longrightarrow> E p = None) \<Longrightarrow> edges_in [] P E"
  by (simp add: edges_in_def)

lemma edges_in_cong: "edges_in m P E \<Longrightarrow> (\<And>p. P p \<Longrightarrow> E' p = E p) \<Longrightarrow> edges_in m P E'"
  by (simp add: edges_in_def)

lemma edges_in_emplace:
  assumes "edges_in m P E" "P p"
  shows "emplace p r m = (E p = None, snd (emplace p r m))" "edges_in (snd (emplace p r m)) P (if E p = None then E(p \<mapsto> r) else E)"
proof -
  have m: "map_of m p = E p" using edges_in_of [OF assms] .
  show "emplace p r m = (E p = None, snd (emplace p r m))" by (simp add: emplace_def m)
  have "p \<notin> fst ` set m" if "E p = None" using that m by (simp add: map_of_eq_None_iff)
  then show "edges_in (snd (emplace p r m)) P (if E p = None then E(p \<mapsto> r) else E)"
    using assms m by (auto simp: edges_in_def emplace_def map_add_def split: option.splits)
qed

lemma edges_in_remove:
  assumes "edges_in m P E" "P p"
  shows "remove_relation p m = (E p, snd (remove_relation p m))" "edges_in (snd (remove_relation p m)) P (E(p := None))"
proof -
  show "remove_relation p m = (E p, snd (remove_relation p m))" using edges_in_of [OF assms] by (simp add: remove_relation_def)
  have "map_of (filter (\<lambda>x. fst x \<noteq> p) m) q = (if q = p then None else map_of m q)" for q
    by (induction m) auto
  then show "edges_in (snd (remove_relation p m)) P (E(p := None))"
    using assms by (auto simp: edges_in_def remove_relation_def distinct_map_filter)
qed

definition vert_ok :: "(edge \<rightharpoonup> addr) \<Rightarrow> int \<Rightarrow> tvertex \<Rightarrow> bool" where
  "vert_ok E i v \<longleftrightarrow> tv_id v = i \<and> edges_in (adjacency_list v) (\<lambda>p. fst p = i) E \<and> edges_in (dest_list v) (\<lambda>p. snd p = i) E"

definition lists_ok :: "vertices \<Rightarrow> (int \<rightharpoonup> addr) \<Rightarrow> (int \<Rightarrow> edge \<rightharpoonup> addr) \<Rightarrow> bool" where
  "lists_ok T VA L \<longleftrightarrow> VA = (\<lambda>i. map_option tv_payload (vertex i T)) \<and> (\<forall>i v. vertex i T = Some v \<longrightarrow> vert_ok (L i) i v)"

lemma lists_okD:
  assumes "lists_ok T VA L" "VA i \<noteq> None"
  obtains v where "vertex i T = Some v" "VA i = Some (tv_payload v)" "vert_ok (L i) i v"
  using assms by (auto simp: lists_ok_def)

lemma lists_ok_vert: "lists_ok T VA L \<Longrightarrow> vertex i T = Some v \<Longrightarrow> vert_ok (L i) i v"
  by (simp add: lists_ok_def)

lemma lists_ok_None: "lists_ok T VA L \<Longrightarrow> vertex i T = None \<longleftrightarrow> VA i = None"
  by (simp add: lists_ok_def)

lemma vert_ok_cong: "vert_ok E i v \<Longrightarrow> (\<And>p. fst p = i \<or> snd p = i \<Longrightarrow> E' p = E p) \<Longrightarrow> vert_ok E' i v"
  by (auto simp: vert_ok_def elim: edges_in_cong)

lemma lists_ok_cong:
  assumes "lists_ok T VA L" "\<And>i p. VA i \<noteq> None \<Longrightarrow> fst p = i \<or> snd p = i \<Longrightarrow> L' i p = L i p"
  shows "lists_ok T VA L'"
proof -
  have "vert_ok (L' i) i v" if "vertex i T = Some v" for i v
    by (rule vert_ok_cong [OF lists_ok_vert [OF assms(1) that]]) (use assms lists_ok_None [OF assms(1), of i] that in auto)
  then show ?thesis using assms(1) by (simp add: lists_ok_def)
qed

lemma lists_ok_inc [simp]: "lists_ok (inc_seq i T) VA L = lists_ok T VA L"
  by (simp add: lists_ok_def)

text \<open>Changing one list of one vertex.\<close>

lemma set_source_ok:
  assumes "lists_ok T VA L" "edges_in m (\<lambda>p. fst p = i) E" "\<And>p. snd p = i \<Longrightarrow> E p = L i p"
  shows "lists_ok (set_source i m T) VA (L(i := E))"
  using assms edges_in_cong [of _ "\<lambda>p. snd p = i" "L i" E] by (auto simp: lists_ok_def vert_ok_def fun_eq_iff option.map_comp o_def)

lemma set_destination_ok:
  assumes "lists_ok T VA L" "edges_in m (\<lambda>p. snd p = i) E" "\<And>p. fst p = i \<Longrightarrow> E p = L i p"
  shows "lists_ok (set_destination i m T) VA (L(i := E))"
  using assms edges_in_cong [of _ "\<lambda>p. fst p = i" "L i" E] by (auto simp: lists_ok_def vert_ok_def fun_eq_iff option.map_comp o_def)

lemma both_ends:
  assumes L: "lists_ok T VA (\<lambda>_. E)" and e: "s \<noteq> d" "VA s \<noteq> None" "VA d \<noteq> None" and E0: "\<forall>p. p \<noteq> (s, d) \<longrightarrow> E' p = E p"
    and m: "\<forall>v. vertex s T = Some v \<longrightarrow> edges_in (f (adjacency_list v)) (\<lambda>p. fst p = s) E'"
      "\<forall>v. vertex d T = Some v \<longrightarrow> edges_in (f' (dest_list v)) (\<lambda>p. snd p = d) E'"
  shows "\<exists>vs vd. source s T = Inr (adjacency_list vs) \<and> destination d (set_source s (f (adjacency_list vs)) T) = Inr (dest_list vd)
    \<and> vert_ok E s vs \<and> vert_ok E d vd
    \<and> lists_ok (set_destination d (f' (dest_list vd)) (set_source s (f (adjacency_list vs)) T)) VA (\<lambda>_. E')"
proof -
  have E': "\<And>p. p \<noteq> (s, d) \<Longrightarrow> E' p = E p" using E0 by blast
  obtain vs where vs: "vertex s T = Some vs" "vert_ok E s vs" using lists_okD [OF L] e(2) by blast
  obtain vd where vd: "vertex d T = Some vd" "vert_ok E d vd" using lists_okD [OF L] e(3) by blast
  have "lists_ok (set_source s (f (adjacency_list vs)) T) VA ((\<lambda>_. E)(s := E'))"
    by (rule set_source_ok [OF L m(1) [rule_format, OF vs(1)]]) (use e(1) E' in auto)
  then have "lists_ok (set_destination d (f' (dest_list vd)) (set_source s (f (adjacency_list vs)) T)) VA ((\<lambda>_. E)(s := E', d := E'))"
    by (rule set_destination_ok [OF _ m(2) [rule_format, OF vd(1)]]) (use e(1) E' in auto)
  then have "lists_ok (set_destination d (f' (dest_list vd)) (set_source s (f (adjacency_list vs)) T)) VA (\<lambda>_. E')"
    by (rule lists_ok_cong) (use E' in \<open>auto simp: prod_eq_iff\<close>)
  then show ?thesis using vs vd e(1) by (intro exI [of _ vs] exI [of _ vd]) (simp add: source_def destination_def)
qed

lemma emplace_both_ok:
  assumes "lists_ok T VA (\<lambda>_. E)" "s \<noteq> d" "VA s \<noteq> None" "VA d \<noteq> None"
  shows "\<exists>T'. emplace_both (s, d) r T = Inr (E (s, d) = None, E (s, d) = None, T')
    \<and> lists_ok T' VA (\<lambda>_. if E (s, d) = None then E((s, d) \<mapsto> r) else E) \<and> (\<forall>i. get_seq i T' = get_seq i T)"
proof -
  let ?E = "if E (s, d) = None then E((s, d) \<mapsto> r) else E"
  have m: "\<forall>v. vertex s T = Some v \<longrightarrow> edges_in (snd (emplace (s, d) r (adjacency_list v))) (\<lambda>p. fst p = s) ?E"
    using lists_ok_vert [OF assms(1)] edges_in_emplace(2) [of _ "\<lambda>p. fst p = s" E "(s, d)" r] by (auto simp: vert_ok_def)
  have m': "\<forall>v. vertex d T = Some v \<longrightarrow> edges_in (snd (emplace (s, d) r (dest_list v))) (\<lambda>p. snd p = d) ?E"
    using lists_ok_vert [OF assms(1)] edges_in_emplace(2) [of _ "\<lambda>p. snd p = d" E "(s, d)" r] by (auto simp: vert_ok_def)
  have "\<forall>p. p \<noteq> (s, d) \<longrightarrow> ?E p = E p" by simp
  from both_ends [where E' = ?E and f = "\<lambda>x. snd (emplace (s, d) r x)" and f' = "\<lambda>x. snd (emplace (s, d) r x)", OF assms this m m'] obtain vs vd where
    b: "source s T = Inr (adjacency_list vs)" "destination d (set_source s (snd (emplace (s, d) r (adjacency_list vs))) T) = Inr (dest_list vd)"
      "vert_ok E s vs" "vert_ok E d vd"
      "lists_ok (set_destination d (snd (emplace (s, d) r (dest_list vd))) (set_source s (snd (emplace (s, d) r (adjacency_list vs))) T)) VA (\<lambda>_. ?E)"
    by (elim exE conjE) (rule that)
  have p: "emplace (s, d) r (adjacency_list vs) = (E (s, d) = None, snd (emplace (s, d) r (adjacency_list vs)))"
      "emplace (s, d) r (dest_list vd) = (E (s, d) = None, snd (emplace (s, d) r (dest_list vd)))"
    using b(3,4) edges_in_emplace(1) by (auto simp: vert_ok_def)
  show ?thesis unfolding emplace_both_def fst_conv snd_conv b(1) rbind_Inr Let_def
    by (subst p(1), simp only: prod.case b(2) rbind_Inr, subst p(2)) (use b(5) in simp)
qed

lemma remove_both_ok:
  assumes "lists_ok T VA (\<lambda>_. E)" "s \<noteq> d" "VA s \<noteq> None" "VA d \<noteq> None"
  shows "\<exists>T'. remove_both (s, d) T = Inr (E (s, d), E (s, d), T')
    \<and> lists_ok T' VA (\<lambda>_. E((s, d) := None)) \<and> (\<forall>i. get_seq i T' = get_seq i T)"
proof -
  let ?E = "E((s, d) := None)"
  have m: "\<forall>v. vertex s T = Some v \<longrightarrow> edges_in (snd (remove_relation (s, d) (adjacency_list v))) (\<lambda>p. fst p = s) ?E"
    using lists_ok_vert [OF assms(1)] edges_in_remove(2) [of _ "\<lambda>p. fst p = s" E "(s, d)"] by (auto simp: vert_ok_def)
  have m': "\<forall>v. vertex d T = Some v \<longrightarrow> edges_in (snd (remove_relation (s, d) (dest_list v))) (\<lambda>p. snd p = d) ?E"
    using lists_ok_vert [OF assms(1)] edges_in_remove(2) [of _ "\<lambda>p. snd p = d" E "(s, d)"] by (auto simp: vert_ok_def)
  have "\<forall>p. p \<noteq> (s, d) \<longrightarrow> ?E p = E p" by simp
  from both_ends [where E' = ?E and f = "\<lambda>x. snd (remove_relation (s, d) x)" and f' = "\<lambda>x. snd (remove_relation (s, d) x)", OF assms this m m'] obtain vs vd where
    b: "source s T = Inr (adjacency_list vs)" "destination d (set_source s (snd (remove_relation (s, d) (adjacency_list vs))) T) = Inr (dest_list vd)"
      "vert_ok E s vs" "vert_ok E d vd"
      "lists_ok (set_destination d (snd (remove_relation (s, d) (dest_list vd))) (set_source s (snd (remove_relation (s, d) (adjacency_list vs))) T)) VA (\<lambda>_. ?E)"
    by (elim exE conjE) (rule that)
  have p: "remove_relation (s, d) (adjacency_list vs) = (E (s, d), snd (remove_relation (s, d) (adjacency_list vs)))"
      "remove_relation (s, d) (dest_list vd) = (E (s, d), snd (remove_relation (s, d) (dest_list vd)))"
    using b(3,4) edges_in_remove(1) by (auto simp: vert_ok_def)
  show ?thesis unfolding remove_both_def fst_conv snd_conv b(1) rbind_Inr Let_def
    by (subst p(1), simp only: prod.case b(2) rbind_Inr, subst p(2)) (use b(5) in simp)
qed

section \<open>Payloads and abstract graph\<close>

text \<open>
  The payloads of the store are those of the vertices and of the edges; \<^term>\<open>EE\<close> gives the payload and the weight of every edge.
\<close>

definition graph_vals :: "(addr \<rightharpoonup> graph_payload) \<Rightarrow> (int \<rightharpoonup> addr) \<Rightarrow> (edge \<rightharpoonup> addr \<times> int) \<Rightarrow> bool" where
  "graph_vals V VA EE \<longleftrightarrow> (\<forall>a p. V a = Some p \<longleftrightarrow>
     (\<exists>i. VA i = Some a \<and> p = Vertex i i) \<or> (\<exists>i j w. EE (i, j) = Some (a, w) \<and> p = Relation w i j))"

lemma graph_valsD:
  assumes "graph_vals V VA EE"
  shows "VA i = Some a \<Longrightarrow> V a = Some (Vertex i i)" "EE (i, j) = Some (a, w) \<Longrightarrow> V a = Some (Relation w i j)"
  using assms by (auto simp: graph_vals_def)

lemma graph_vals_iff:
  "graph_vals V VA EE \<Longrightarrow> V a = Some p \<longleftrightarrow> (\<exists>i. VA i = Some a \<and> p = Vertex i i) \<or> (\<exists>i j w. EE (i, j) = Some (a, w) \<and> p = Relation w i j)"
  by (simp add: graph_vals_def)

lemma graph_vals_new_edge:
  assumes v: "graph_vals V VA EE" "V a = None" "EE (s, d) = None"
  shows "graph_vals (V(a \<mapsto> Relation w s d)) VA (EE((s, d) \<mapsto> (a, w)))"
  unfolding graph_vals_def
proof (intro allI)
  fix x p
  have n: "VA i \<noteq> Some a" "EE (i, j) \<noteq> Some (a, u)" for i j u using graph_valsD [OF v(1)] v(2) by fastforce+
  show "(V(a \<mapsto> Relation w s d)) x = Some p \<longleftrightarrow>
    (\<exists>i. VA i = Some x \<and> p = Vertex i i) \<or> (\<exists>i j u. (EE((s, d) \<mapsto> (a, w))) (i, j) = Some (x, u) \<and> p = Relation u i j)"
    using graph_vals_iff [OF v(1), of x p] v(3) n by (cases "x = a") (auto, force+)
qed

lemma graph_vals_del_edge:
  assumes v: "graph_vals V VA EE" "EE (s, d) = Some (a, w)"
  shows "graph_vals (V(a := None)) VA (EE((s, d) := None))"
  unfolding graph_vals_def
proof (intro allI)
  fix x p
  have n: "VA i \<noteq> Some a" for i using graph_valsD(1) [OF v(1), of i a] graph_valsD(2) [OF v] by auto
  have m: "(i, j) = (s, d)" if "EE (i, j) = Some (a, u)" for i j u using trans [OF graph_valsD(2) [OF v(1) that, symmetric] graph_valsD(2) [OF v]] by simp
  have e: "(EE((s, d) := None)) (i, j) = Some (x, u) \<longleftrightarrow> x \<noteq> a \<and> EE (i, j) = Some (x, u)" for i j u
  proof (cases "(i, j) = (s, d)")
    case False
    then have "EE (i, j) \<noteq> Some (a, u)" using m by blast
    then show ?thesis unfolding fun_upd_other [OF False] by (cases "x = a") simp_all
  qed (use v(2) in auto)
  show "(V(a := None)) x = Some p \<longleftrightarrow>
    (\<exists>i. VA i = Some x \<and> p = Vertex i i) \<or> (\<exists>i j u. (EE((s, d) := None)) (i, j) = Some (x, u) \<and> p = Relation u i j)"
    using graph_vals_iff [OF v(1), of x p] n unfolding e by (cases "x = a") auto
qed

lemma graph_vals_new_vertex:
  assumes v: "graph_vals V VA EE" "V a = None" "VA k = None"
  shows "graph_vals (V(a \<mapsto> Vertex k k)) (VA(k \<mapsto> a)) EE"
  unfolding graph_vals_def
proof (intro allI)
  fix x p
  have n: "VA i \<noteq> Some a" "EE (i, j) \<noteq> Some (a, u)" for i j u using graph_valsD [OF v(1)] v(2) by fastforce+
  show "(V(a \<mapsto> Vertex k k)) x = Some p \<longleftrightarrow>
    (\<exists>i. (VA(k \<mapsto> a)) i = Some x \<and> p = Vertex i i) \<or> (\<exists>i j u. EE (i, j) = Some (x, u) \<and> p = Relation u i j)"
    using graph_vals_iff [OF v(1), of x p] v(3) n by (cases "x = a") (auto, force+)
qed

lemma graph_vals_del_vertex:
  assumes v: "graph_vals V VA EE" "VA k = Some a"
  shows "graph_vals (V(a := None)) (VA(k := None)) EE"
  unfolding graph_vals_def
proof (intro allI)
  fix x p
  have n: "EE (i, j) \<noteq> Some (a, u)" for i j u using graph_valsD(2) [OF v(1), of i j a u] graph_valsD(1) [OF v] by auto
  have m: "i = k" if "VA i = Some a" for i using trans [OF graph_valsD(1) [OF v(1) that, symmetric] graph_valsD(1) [OF v]] by simp
  have e: "(VA(k := None)) i = Some x \<longleftrightarrow> x \<noteq> a \<and> VA i = Some x" for i
  proof (cases "i = k")
    case False
    then have "VA i \<noteq> Some a" using m by blast
    then show ?thesis unfolding fun_upd_other [OF False] by (cases "x = a") simp_all
  qed (use v(2) in auto)
  show "(V(a := None)) x = Some p \<longleftrightarrow>
    (\<exists>i. (VA(k := None)) i = Some x \<and> p = Vertex i i) \<or> (\<exists>i j u. EE (i, j) = Some (x, u) \<and> p = Relation u i j)"
    using graph_vals_iff [OF v(1), of x p] n unfolding e by (cases "x = a") auto
qed

definition edge_addr :: "(edge \<rightharpoonup> addr \<times> int) \<Rightarrow> edge \<rightharpoonup> addr" where
  "edge_addr EE = (\<lambda>p. map_option fst (EE p))"

definition abs_graph :: "(int \<rightharpoonup> addr) \<Rightarrow> (edge \<rightharpoonup> addr \<times> int) \<Rightarrow> agraph" where
  "abs_graph VA EE = \<lparr>ag_verts = dom VA, ag_edges = (\<lambda>p. map_option snd (EE p))\<rparr>"

lemma edge_addr_upd [simp]:
  "edge_addr (EE(p \<mapsto> (a, w))) = (edge_addr EE)(p \<mapsto> a)" "edge_addr (EE(p := None)) = (edge_addr EE)(p := None)"
  "edge_addr EE p = None \<longleftrightarrow> EE p = None"
  by (auto simp: edge_addr_def fun_eq_iff)

lemma abs_graph_sel [simp]: "ag_verts (abs_graph VA EE) = dom VA" "ag_edges (abs_graph VA EE) p = map_option snd (EE p)"
  by (simp_all add: abs_graph_def)

lemma abs_graph_upd:
  "abs_graph VA (EE(p \<mapsto> (a, w))) = (abs_graph VA EE)\<lparr>ag_edges := (ag_edges (abs_graph VA EE))(p \<mapsto> w)\<rparr>"
  "abs_graph VA (EE(p := None)) = (abs_graph VA EE)\<lparr>ag_edges := (ag_edges (abs_graph VA EE))(p := None)\<rparr>"
  by (auto simp: abs_graph_def fun_eq_iff)

text \<open>Edges join two different vertices, and vertices are indices of the array.\<close>

definition graph_shape :: "int \<Rightarrow> (int \<rightharpoonup> addr) \<Rightarrow> (edge \<rightharpoonup> addr \<times> int) \<Rightarrow> bool" where
  "graph_shape N VA EE \<longleftrightarrow> dom VA \<subseteq> {0..<N} \<and> (\<forall>i j. EE (i, j) \<noteq> None \<longrightarrow> i \<noteq> j \<and> VA i \<noteq> None \<and> VA j \<noteq> None)"

lemma graph_shapeD: "graph_shape N VA EE \<Longrightarrow> EE (i, j) \<noteq> None \<Longrightarrow> i \<noteq> j \<and> VA i \<noteq> None \<and> VA j \<noteq> None"
  by (simp add: graph_shape_def)

definition table_ok :: "int \<Rightarrow> vertices \<Rightarrow> (int \<rightharpoonup> addr) \<Rightarrow> (edge \<rightharpoonup> addr \<times> int) \<Rightarrow> (int \<Rightarrow> nat) \<Rightarrow> bool" where
  "table_ok N T VA EE sq \<longleftrightarrow> lists_ok T VA (\<lambda>_. edge_addr EE) \<and> graph_shape N VA EE \<and> (\<forall>i. get_seq i T = of_nat (sq i))"

definition graph_sim :: "nat \<Rightarrow> int \<Rightarrow> nat \<Rightarrow> graph \<Rightarrow> (int \<rightharpoonup> addr) \<Rightarrow> (edge \<rightharpoonup> addr \<times> int) \<Rightarrow> (int \<Rightarrow> nat) \<Rightarrow> bool" where
  "graph_sim n N b g VA EE sq \<longleftrightarrow> numVertices g = N \<and> table_ok N (vMeta g) VA EE sq \<and> (\<exists>V. idle n b (mg_ds g) V \<and> graph_vals V VA EE)"

lemma table_vertex:
  assumes "table_ok N T VA EE sq"
  shows "vertex i T = None \<longleftrightarrow> VA i = None"
  using assms lists_ok_None unfolding table_ok_def by blast

text \<open>
  The promise of the sequence numbers: they never fall, and as long as that of a vertex stands still the vertex and its edges are
  what they were.
\<close>

definition moved :: "nat \<Rightarrow> (int \<rightharpoonup> addr) \<Rightarrow> (edge \<rightharpoonup> addr \<times> int) \<Rightarrow> (int \<Rightarrow> nat) \<Rightarrow>
    (int \<rightharpoonup> addr) \<Rightarrow> (edge \<rightharpoonup> addr \<times> int) \<Rightarrow> (int \<Rightarrow> nat) \<Rightarrow> bool" where
  "moved k VA EE sq VA' EE' sq' \<longleftrightarrow> (\<forall>i. sq i \<le> sq' i \<and> sq' i \<le> sq i + k \<and>
     (sq' i = sq i \<longrightarrow> VA' i = VA i \<and> (\<forall>j. EE' (i, j) = EE (i, j) \<and> EE' (j, i) = EE (j, i))))"

lemma moved_refl [simp]: "moved k VA EE sq VA EE sq"
  by (simp add: moved_def)

lemma moved_trans:
  assumes "moved k VA EE sq VA1 EE1 sq1" "moved k' VA1 EE1 sq1 VA2 EE2 sq2"
  shows "moved (k + k') VA EE sq VA2 EE2 sq2"
  unfolding moved_def
proof
  fix i
  have a: "sq i \<le> sq1 i" "sq1 i \<le> sq i + k" "sq1 i \<le> sq2 i" "sq2 i \<le> sq1 i + k'" using assms by (simp_all add: moved_def)
  moreover have "sq1 i = sq i \<Longrightarrow> VA1 i = VA i \<and> (\<forall>j. EE1 (i, j) = EE (i, j) \<and> EE1 (j, i) = EE (j, i))"
    "sq2 i = sq1 i \<Longrightarrow> VA2 i = VA1 i \<and> (\<forall>j. EE2 (i, j) = EE1 (i, j) \<and> EE2 (j, i) = EE1 (j, i))" using assms by (simp_all add: moved_def)
  ultimately show "sq i \<le> sq2 i \<and> sq2 i \<le> sq i + (k + k') \<and>
      (sq2 i = sq i \<longrightarrow> VA2 i = VA i \<and> (\<forall>j. EE2 (i, j) = EE (i, j) \<and> EE2 (j, i) = EE (j, i)))"
    by (cases "sq2 i = sq i") auto
qed

section \<open>Edges\<close>

text \<open>What every operation keeps to, with the abstract operation it performs.\<close>

definition step_ok :: "nat \<Rightarrow> int \<Rightarrow> nat \<Rightarrow> (int \<rightharpoonup> addr) \<Rightarrow> (edge \<rightharpoonup> addr \<times> int) \<Rightarrow> (int \<Rightarrow> nat) \<Rightarrow> graph_op \<Rightarrow> (bool \<times> graph) res \<Rightarrow> bool" where
  "step_ok n N b VA EE sq x res \<longleftrightarrow> (\<exists>g' VA' EE' sq'. res = Inr (fst (graph_spec x (abs_graph VA EE)), g') \<and> graph_sim n N b g' VA' EE' sq'
     \<and> moved 1 VA EE sq VA' EE' sq' \<and> abs_graph VA' EE' = snd (graph_spec x (abs_graph VA EE)))"

lemma step_okI:
  assumes "res = Inr (fst (graph_spec x (abs_graph VA EE)), g')" "graph_sim n N b g' VA' EE' sq'" "moved 1 VA EE sq VA' EE' sq'"
    "abs_graph VA' EE' = snd (graph_spec x (abs_graph VA EE))"
  shows "step_ok n N b VA EE sq x res"
  using assms unfolding step_ok_def by blast

lemma graph_sim_ds:
  assumes "graph_sim n N b g VA EE sq" "idle n b' ds V" "graph_vals V VA EE"
  shows "graph_sim n N b' (g\<lparr>mg_ds := ds\<rparr>) VA EE sq"
  using assms by (auto simp: graph_sim_def)

lemma lock_ok: "0 \<le> i \<Longrightarrow> i < numVertices g \<Longrightarrow> lock_vertex i g = Inr ()"
  by (simp add: lock_vertex_def)

lemma lock_all_ok: "\<forall>i \<in> set is. 0 \<le> i \<and> i < numVertices g \<Longrightarrow> lock_all is g = Inr ()"
  unfolding lock_all_def by (induction "is") (simp_all add: lock_ok)

lemma moved_edge: "s \<noteq> d \<Longrightarrow> moved 1 VA EE sq VA (EE((s, d) := x)) (sq(s := Suc (sq s), d := Suc (sq d)))"
  by (auto simp: moved_def)

lemma table_emplace:
  assumes t: "table_ok N T VA EE sq" and e: "s \<noteq> d" "VA s \<noteq> None" "VA d \<noteq> None"
  obtains T' where "emplace_both (s, d) r T = Inr (EE (s, d) = None, EE (s, d) = None, T')"
    "EE (s, d) = None \<Longrightarrow> table_ok N T' VA (EE((s, d) \<mapsto> (r, w))) sq" "EE (s, d) \<noteq> None \<Longrightarrow> table_ok N T' VA EE sq"
proof -
  have "lists_ok T VA (\<lambda>_. edge_addr EE)" using t by (simp add: table_ok_def)
  from emplace_both_ok [OF this e, of r] obtain T' where
    T': "emplace_both (s, d) r T = Inr (EE (s, d) = None, EE (s, d) = None, T')"
      "lists_ok T' VA (\<lambda>_. if EE (s, d) = None then (edge_addr EE)((s, d) \<mapsto> r) else edge_addr EE)" "\<forall>i. get_seq i T' = get_seq i T" by auto
  have "graph_shape N VA (EE((s, d) \<mapsto> (r, w)))" using t e by (auto simp: table_ok_def graph_shape_def)
  then show thesis using that [OF T'(1)] T'(2,3) t by (cases "EE (s, d) = None") (simp_all add: table_ok_def)
qed

lemma table_inc: "table_ok N T VA EE sq \<Longrightarrow> table_ok N (inc_seq i T) VA EE (sq(i := Suc (sq i)))"
  by (auto simp: table_ok_def)

lemma table_inc2: "table_ok N T VA EE sq \<Longrightarrow> s \<noteq> d \<Longrightarrow> table_ok N (inc_seq d (inc_seq s T)) VA EE (sq(s := Suc (sq s), d := Suc (sq d)))"
  using table_inc [OF table_inc, of N T VA EE sq d s] by simp

lemma mg_add_edge_ok:
  assumes g: "graph_sim n N (Suc (Suc (Suc b))) g VA EE sq" and t: "tid < n" and e: "s \<noteq> d" "0 \<le> s" "s < N" "0 \<le> d" "d < N"
  shows "step_ok n N b VA EE sq (AddEdge s d w tid) (mg_add_edge s d w tid g)"
proof -
  obtain V where V: "idle n (Suc (Suc (Suc b))) (mg_ds g) V" "graph_vals V VA EE" and N: "numVertices g = N" and T: "table_ok N (vMeta g) VA EE sq"
    using g by (auto simp: graph_sim_def)
  have "outside_op n (Suc (Suc (Suc b))) tid [] (mg_ds g) V" using V(1) idle_outside [of n _ "mg_ds g" V tid] by simp
  from pnew_outside [OF this t, of "Relation w s d"] obtain a ds where
    nw: "pnew tid (Relation w s d) (mg_ds g) = Inr (a, ds)" "V a = None" "outside_op n (Suc (Suc b)) tid [a] ds (V(a \<mapsto> Relation w s d))" by auto
  have l: "lock_all [min s d, max s d] g = Inr ()" by (rule lock_all_ok) (use e N in auto)
  show ?thesis
  proof (cases "VA s = None \<or> VA d = None")
    case True
    from pdelete_outside [OF nw(3) _ t, of a "Relation w s d"] obtain ds1 where
      d1: "pdelete tid a ds = Inr ds1" "outside_op n (Suc (Suc b)) tid [] ds1 V" by (auto simp: fun_upd_idem [of V a, OF nw(2)])
    have "idle n b ds1 V" using idle_mono [of n "Suc (Suc b)" ds1 V b] d1(2) idle_outside [of n "Suc (Suc b)" ds1 V tid] by simp
    note s = graph_sim_ds [OF g this V(2)]
    show ?thesis by (rule step_okI [OF _ s]) (use True nw(1) l d1(1) e(1) table_vertex [OF T] in \<open>auto simp: mg_add_edge_def Let_def domIff\<close>)
  next
    case False
    have v: "vertex s (vMeta g) \<noteq> None" "vertex d (vMeta g) \<noteq> None" using False table_vertex [OF T] by auto
    have "outside_op n (Suc (length [a] + b)) tid [a] ds (V(a \<mapsto> Relation w s d))" using nw(3) by simp
    from begin_op_inside [OF this t] obtain ds1 where d1: "begin_op tid ds = Inr ds1" "inside_op n b tid [a] ds1 (V(a \<mapsto> Relation w s d))" by blast
    from end_op_outside(1) [OF d1(2)] obtain ds2 where d2: "end_op tid ds1 = Inr ds2" "idle n b ds2 (V(a \<mapsto> Relation w s d))" by blast
    obtain T' where T': "emplace_both (s, d) a (vMeta g) = Inr (EE (s, d) = None, EE (s, d) = None, T')"
        "EE (s, d) = None \<Longrightarrow> table_ok N T' VA (EE((s, d) \<mapsto> (a, w))) sq" "EE (s, d) \<noteq> None \<Longrightarrow> table_ok N T' VA EE sq"
      using table_emplace [OF T e(1)] False by blast
    show ?thesis
    proof (cases "EE (s, d) = None")
      case None: True
      have r: "mg_add_edge s d w tid g = Inr (True, g\<lparr>mg_ds := ds2, vMeta := inc_seq d (inc_seq s T')\<rparr>)"
        using nw(1) e(1) l v d1(1) d2(1) T'(1) None by (auto simp: mg_add_edge_def Let_def rassert_def)
      have s: "graph_sim n N b (g\<lparr>mg_ds := ds2, vMeta := inc_seq d (inc_seq s T')\<rparr>) VA (EE((s, d) \<mapsto> (a, w))) (sq(s := Suc (sq s), d := Suc (sq d)))"
        using N d2(2) table_inc2 [OF T'(2) [OF None] e(1)] graph_vals_new_edge [OF V(2) nw(2) None]
        unfolding graph_sim_def by (intro conjI exI [of _ "V(a \<mapsto> Relation w s d)"]) simp_all
      have "fst (graph_spec (AddEdge s d w tid) (abs_graph VA EE)) = True"
        "snd (graph_spec (AddEdge s d w tid) (abs_graph VA EE)) = abs_graph VA (EE((s, d) \<mapsto> (a, w)))"
        using False None by (auto simp: abs_graph_upd)
      then show ?thesis by (intro step_okI [OF _ s]) (simp_all only: r moved_edge [OF e(1)])
    next
      case Some: False
      obtain ds3 where d3: "pdelete tid a ds2 = Inr ds3" "idle n b ds3 V"
        using pdelete_outside [of n b tid "[]" ds2 "V(a \<mapsto> Relation w s d)" a "Relation w s d"] d2(2) t
        by (auto simp: fun_upd_idem [of V a, OF nw(2)] idle_outside [of _ _ _ _ tid])
      have r: "mg_add_edge s d w tid g = Inr (False, g\<lparr>mg_ds := ds3, vMeta := T'\<rparr>)"
        using nw(1) e(1) l v d1(1) d2(1) d3(1) T'(1) Some by (auto simp: mg_add_edge_def Let_def rassert_def)
      have s: "graph_sim n N b (g\<lparr>mg_ds := ds3, vMeta := T'\<rparr>) VA EE sq"
        using N d3(2) T'(3) [OF Some] V(2) by (auto simp: graph_sim_def)
      show ?thesis by (rule step_okI [OF _ s]) (use Some r in auto)
    qed
  qed
qed

lemma edges_in_has: "edges_in m P E \<Longrightarrow> P p \<Longrightarrow> has_relation m p \<longleftrightarrow> E p \<noteq> None"
  by (simp add: has_relation_def edges_in_of)

lemma mg_has_edge_ok:
  assumes g: "graph_sim n N (Suc b) g VA EE sq" and t: "tid < n" and e: "0 \<le> s" "s < N"
  shows "step_ok n N b VA EE sq (HasEdge s d tid) (mg_has_edge s d tid g)"
proof -
  obtain V where V: "idle n (Suc b) (mg_ds g) V" "graph_vals V VA EE" and N: "numVertices g = N" and T: "table_ok N (vMeta g) VA EE sq"
    using g by (auto simp: graph_sim_def)
  have l: "lock_vertex s g = Inr ()" by (rule lock_ok) (use e N in auto)
  show ?thesis
  proof (cases "vertex s (vMeta g)")
    case None
    then have "VA s = None" using table_vertex [OF T] by blast
    then have "EE (s, d) = None" using T graph_shapeD [of N VA EE s d] unfolding table_ok_def by blast
    moreover have s: "graph_sim n N b g VA EE sq" using graph_sim_ds [OF g idle_mono [OF V(1)] V(2), of b] by simp
    ultimately show ?thesis using l None by (intro step_okI [OF _ s]) (simp_all add: mg_has_edge_def)
  next
    case (Some v)
    have "vert_ok (edge_addr EE) s v" using lists_ok_vert [OF _ Some] T by (auto simp: table_ok_def)
    then have h: "has_relation (adjacency_list v) (s, d) \<longleftrightarrow> EE (s, d) \<noteq> None"
      using edges_in_has [of "adjacency_list v" "\<lambda>p. fst p = s" "edge_addr EE" "(s, d)"] by (simp add: vert_ok_def)
    have "outside_op n (Suc (length ([] :: addr list) + b)) tid [] (mg_ds g) V" using V(1) idle_outside [of n _ "mg_ds g" V tid] by simp
    from begin_op_inside [OF this t] obtain ds1 where d1: "begin_op tid (mg_ds g) = Inr ds1" "inside_op n b tid [] ds1 V" by blast
    from end_op_outside(1) [OF d1(2)] obtain ds2 where d2: "end_op tid ds1 = Inr ds2" "idle n b ds2 V" by blast
    show ?thesis using l Some h d1(1) d2(1)
      by (intro step_okI [OF _ graph_sim_ds [OF g d2(2) V(2)]]) (auto simp: mg_has_edge_def)
  qed
qed

lemma table_remove:
  assumes t: "table_ok N T VA EE sq" and e: "s \<noteq> d" "VA s \<noteq> None" "VA d \<noteq> None"
  obtains T' where "remove_both (s, d) T = Inr (edge_addr EE (s, d), edge_addr EE (s, d), T')" "table_ok N T' VA (EE((s, d) := None)) sq"
proof -
  have "lists_ok T VA (\<lambda>_. edge_addr EE)" using t by (simp add: table_ok_def)
  from remove_both_ok [OF this e] obtain T' where
    T': "remove_both (s, d) T = Inr (edge_addr EE (s, d), edge_addr EE (s, d), T')"
      "lists_ok T' VA (\<lambda>_. (edge_addr EE)((s, d) := None))" "\<forall>i. get_seq i T' = get_seq i T" by auto
  have "graph_shape N VA (EE((s, d) := None))" using t by (auto simp: table_ok_def graph_shape_def)
  then show thesis using that [OF T'(1)] T'(2,3) t by (simp add: table_ok_def)
qed

lemma no_edge_abs: "EE p = None \<Longrightarrow> (abs_graph VA EE)\<lparr>ag_edges := (ag_edges (abs_graph VA EE))(p := None)\<rparr> = abs_graph VA EE"
  using abs_graph_upd(2) [of VA EE p] fun_upd_idem [of EE p None] by simp

lemma mg_remove_edge_ok:
  assumes g: "graph_sim n N (Suc (b + 4)) g VA EE sq" and t: "tid < n" and e: "0 \<le> s" "s < N" "0 \<le> d" "d < N"
  shows "step_ok n N b VA EE sq (RemoveEdge s d tid) (mg_remove_edge s d tid g)"
proof -
  obtain V where V: "idle n (Suc (b + 4)) (mg_ds g) V" "graph_vals V VA EE" and N: "numVertices g = N" and T: "table_ok N (vMeta g) VA EE sq"
    using g by (auto simp: graph_sim_def)
  have sh: "graph_shape N VA EE" using T by (simp add: table_ok_def)
  have l: "lock_all [min s d, max s d] g = Inr ()" by (rule lock_all_ok) (use e N in auto)
  show ?thesis
  proof (cases "s = d \<or> VA s = None \<or> VA d = None")
    case True
    then have "EE (s, d) = None" using graph_shapeD [OF sh, of s d] by blast
    moreover have "mg_remove_edge s d tid g = Inr (False, g)"
      using True l table_vertex [OF T] by (auto simp: mg_remove_edge_def Let_def)
    moreover have s: "graph_sim n N b g VA EE sq" using graph_sim_ds [OF g idle_mono [OF V(1)] V(2), of b] by simp
    ultimately show ?thesis by (intro step_okI [OF _ s]) (simp_all add: no_edge_abs)
  next
    case False
    then have v: "vertex s (vMeta g) \<noteq> None" "vertex d (vMeta g) \<noteq> None" and sd: "s \<noteq> d" using table_vertex [OF T] by auto
    have "outside_op n (Suc (length ([] :: addr list) + (b + 4))) tid [] (mg_ds g) V" using V(1) idle_outside [of n _ "mg_ds g" V tid] by simp
    from begin_op_inside [OF this t] obtain ds1 where d1: "begin_op tid (mg_ds g) = Inr ds1" "inside_op n (b + 4) tid [] ds1 V" by blast
    obtain T' where T': "remove_both (s, d) (vMeta g) = Inr (edge_addr EE (s, d), edge_addr EE (s, d), T')" "table_ok N T' VA (EE((s, d) := None)) sq"
      using table_remove [OF T sd] False by blast
    show ?thesis
    proof (cases "EE (s, d)")
      case None
      from end_op_outside(1) [OF d1(2)] obtain ds2 where d2: "end_op tid ds1 = Inr ds2" "idle n (b + 4) ds2 V" by blast
      have r: "mg_remove_edge s d tid g = Inr (False, g\<lparr>mg_ds := ds2, vMeta := T'\<rparr>)"
        using sd l v d1(1) d2(1) T'(1) None by (auto simp: mg_remove_edge_def Let_def rassert_def edge_addr_def)
      have s: "graph_sim n N b (g\<lparr>mg_ds := ds2, vMeta := T'\<rparr>) VA EE sq"
        using N idle_mono [OF d2(2), of b] T'(2) None V(2) fun_upd_idem [of EE "(s, d)" None] by (auto simp: graph_sim_def)
      show ?thesis using r None by (intro step_okI [OF _ s]) (simp_all add: no_edge_abs)
    next
      case (Some x)
      then obtain a w where x: "EE (s, d) = Some (a, w)" by (cases x) auto
      from pdelete_inside [OF d1(2) graph_valsD(2) [OF V(2) x]] obtain ds2 where
        d2: "pdelete tid a ds1 = Inr ds2" "inside_op n b tid [] ds2 (V(a := None))" by blast
      from end_op_outside(1) [OF d2(2)] obtain ds3 where d3: "end_op tid ds2 = Inr ds3" "idle n b ds3 (V(a := None))" by blast
      have r: "mg_remove_edge s d tid g = Inr (True, g\<lparr>mg_ds := ds3, vMeta := inc_seq d (inc_seq s T')\<rparr>)"
        using sd l v d1(1) d2(1) d3(1) T'(1) x by (auto simp: mg_remove_edge_def Let_def rassert_def edge_addr_def)
      have s: "graph_sim n N b (g\<lparr>mg_ds := ds3, vMeta := inc_seq d (inc_seq s T')\<rparr>) VA (EE((s, d) := None)) (sq(s := Suc (sq s), d := Suc (sq d)))"
        using N d3(2) table_inc2 [OF T'(2) sd] graph_vals_del_edge [OF V(2) x]
        unfolding graph_sim_def by (intro conjI exI [of _ "V(a := None)"]) simp_all
      have "fst (graph_spec (RemoveEdge s d tid) (abs_graph VA EE)) = True"
        "snd (graph_spec (RemoveEdge s d tid) (abs_graph VA EE)) = abs_graph VA (EE((s, d) := None))"
        using x by (auto simp: abs_graph_upd)
      then show ?thesis by (intro step_okI [OF _ s]) (simp_all only: r moved_edge [OF sd])
    qed
  qed
qed

lemma mg_tick_ok:
  assumes g: "graph_sim n N (Suc b) g VA EE sq"
  shows "\<exists>g'. mg_tick tid g = Inr g' \<and> graph_sim n N b g' VA EE sq"
proof -
  obtain V where V: "idle n (Suc b) (mg_ds g) V" "graph_vals V VA EE" using g by (auto simp: graph_sim_def)
  from next_epoch_idle [OF V(1), of tid] obtain ds where "next_epoch tid (mg_ds g) = Inr ds" "idle n b ds V" by auto
  then show ?thesis using graph_sim_ds [OF g _ V(2)] by (auto simp: mg_tick_def)
qed

end
