(* ===== verification/Graph_Vertices.thy ===== *)
theory Graph_Vertices
  imports Montage_Graph
begin

text \<open>
  The operations of \<^verbatim>\<open>src/rideables/MontageGraph.hpp\<close> on vertices: \<^verbatim>\<open>add_vertex\<close> with the edges it draws, and
  \<^verbatim>\<open>remove_vertex\<close>, whose sequence number tells it whether the neighbours it collected are still those of the vertex.
\<close>

section \<open>Vertices\<close>

lemma sample_vector_set: "set (sample_vector vid us) = insert vid (drawn us)"
proof -
  have "u \<in> snd ` {x \<in> set (zip [0..int (length us) - 1] us). case x of (i, u) \<Rightarrow> u \<noteq> i} \<longleftrightarrow> u \<in> drawn us" for u
    by (force simp: set_zip drawn_def image_iff)
  then show ?thesis by (auto simp: sample_vector_def)
qed

lemma distinct_remdups_sorted: "sorted xs \<Longrightarrow> distinct (remdups_adj xs)"
  by (induction xs rule: remdups_adj.induct) auto

lemma sample_vector_distinct: "distinct (sample_vector vid us)"
  unfolding sample_vector_def by (rule distinct_remdups_sorted) simp

lemma drawn_subset: "drawn us \<subseteq> set us"
  by (auto simp: drawn_def)

text \<open>Drawing the edges of a new vertex.\<close>

lemma add_neighbours_ok:
  assumes "inside_op n (2 * length us + b) tid ps ds V" "graph_vals V VA EE" "table_ok N T VA EE sq" "VA vid \<noteq> None" "distinct us"
    "\<forall>u \<in> set us. EE (vid, u) = None"
  shows "\<exists>ds' T' V' EE'. rfold (add_neighbour tid vid) us (ds, T) = Inr (ds', T') \<and> inside_op n b tid ps ds' V' \<and> graph_vals V' VA EE'
    \<and> table_ok N T' VA EE' sq
    \<and> (\<forall>u \<in> set us. u \<noteq> vid \<longrightarrow> VA u \<noteq> None \<longrightarrow> map_option snd (EE' (vid, u)) = Some (-1))
    \<and> (\<forall>i j. i \<noteq> vid \<or> j \<notin> set us \<or> j = vid \<or> VA j = None \<longrightarrow> EE' (i, j) = EE (i, j))"
  using assms
proof (induction us arbitrary: ds T V EE)
  case Nil
  then show ?case by (intro exI [of _ ds] exI [of _ T] exI [of _ V] exI [of _ EE]) simp
next
  case (Cons u us)
  have V: "inside_op n (Suc (Suc (2 * length us + b))) tid ps ds V" using Cons.prems(1) by simp
  show ?case
  proof (cases "VA u = None \<or> u = vid")
    case True
    have "inside_op n (2 * length us + b) tid ps ds V" by (rule inside_mono [OF V]) simp
    from Cons.IH [OF this Cons.prems(2-4)] Cons.prems(5,6) obtain ds' T' V' EE' where
      I: "rfold (add_neighbour tid vid) us (ds, T) = Inr (ds', T')" "inside_op n b tid ps ds' V'" "graph_vals V' VA EE'" "table_ok N T' VA EE' sq"
        "\<forall>u \<in> set us. u \<noteq> vid \<longrightarrow> VA u \<noteq> None \<longrightarrow> map_option snd (EE' (vid, u)) = Some (-1)"
        "\<forall>i j. i \<noteq> vid \<or> j \<notin> set us \<or> j = vid \<or> VA j = None \<longrightarrow> EE' (i, j) = EE (i, j)" by auto
    have "add_neighbour tid vid u (ds, T) = Inr (ds, T)" using True table_vertex [OF Cons.prems(3), of u] by (auto simp: add_neighbour_def)
    then show ?thesis using True I by (intro exI [of _ ds'] exI [of _ T'] exI [of _ V'] exI [of _ EE']) auto
  next
    case False
    have E: "EE (vid, u) = None" using Cons.prems(6) by simp
    from pnew_inside [OF V, of "Relation (-1) vid u"] obtain r ds1 where
      p: "pnew tid (Relation (-1) vid u) ds = Inr (r, ds1)" "V r = None" "inside_op n (2 * length us + b) tid ps ds1 (V(r \<mapsto> Relation (-1) vid u))"
      by blast
    obtain T1 where T1: "emplace_both (vid, u) r T = Inr (EE (vid, u) = None, EE (vid, u) = None, T1)"
        "EE (vid, u) = None \<Longrightarrow> table_ok N T1 VA (EE((vid, u) \<mapsto> (r, -1))) sq"
      using table_emplace [OF Cons.prems(3), of vid u r "-1"] False Cons.prems(4) by metis
    note v = graph_vals_new_edge [OF Cons.prems(2) p(2) E, of "-1"]
    have "\<forall>x \<in> set us. (EE((vid, u) \<mapsto> (r, -1))) (vid, x) = None" using Cons.prems(5,6) by auto
    from Cons.IH [OF p(3) v T1(2) [OF E] Cons.prems(4) _ this] Cons.prems(5) obtain ds' T' V' EE' where
      I: "rfold (add_neighbour tid vid) us (ds1, T1) = Inr (ds', T')" "inside_op n b tid ps ds' V'" "graph_vals V' VA EE'" "table_ok N T' VA EE' sq"
        "\<forall>x \<in> set us. x \<noteq> vid \<longrightarrow> VA x \<noteq> None \<longrightarrow> map_option snd (EE' (vid, x)) = Some (-1)"
        "\<forall>i j. i \<noteq> vid \<or> j \<notin> set us \<or> j = vid \<or> VA j = None \<longrightarrow> EE' (i, j) = (EE((vid, u) \<mapsto> (r, -1))) (i, j)" by auto
    have "add_neighbour tid vid u (ds, T) = Inr (ds1, T1)"
      using False table_vertex [OF Cons.prems(3), of u] p(1) T1(1) by (auto simp: add_neighbour_def)
    moreover have "EE' (vid, u) = Some (r, -1)" using I(6) Cons.prems(5) by simp
    ultimately show ?thesis using I False by (intro exI [of _ ds'] exI [of _ T'] exI [of _ V'] exI [of _ EE']) auto
  qed
qed

lemma bump_seqs_ok:
  assumes "table_ok N T VA EE sq" "distinct us"
  shows "table_ok N (bump_seqs vid us T) VA EE (\<lambda>i. if i \<in> set us \<and> VA vid \<noteq> None \<and> VA i \<noteq> None then Suc (sq i) else sq i)"
  using assms
proof (induction us arbitrary: T sq)
  case (Cons u us)
  let ?c = "VA vid \<noteq> None \<and> VA u \<noteq> None"
  have "table_ok N (if ?c then inc_seq u T else T) VA EE (if ?c then sq(u := Suc (sq u)) else sq)"
    using Cons.prems(1) table_inc by simp
  from Cons.IH [OF this] Cons.prems(2) have
    t: "table_ok N (bump_seqs vid us (if ?c then inc_seq u T else T)) VA EE
      (\<lambda>i. if i \<in> set us \<and> VA vid \<noteq> None \<and> VA i \<noteq> None then Suc ((if ?c then sq(u := Suc (sq u)) else sq) i) else (if ?c then sq(u := Suc (sq u)) else sq) i)"
    by simp
  have "bump_seqs vid (u # us) T = bump_seqs vid us (if ?c then inc_seq u T else T)"
    by (simp only: bump_seqs_def fold.simps o_apply table_vertex [OF Cons.prems(1)])
  moreover have "(\<lambda>i. if i \<in> set us \<and> VA vid \<noteq> None \<and> VA i \<noteq> None then Suc ((if ?c then sq(u := Suc (sq u)) else sq) i) else (if ?c then sq(u := Suc (sq u)) else sq) i)
      = (\<lambda>i. if i \<in> set (u # us) \<and> VA vid \<noteq> None \<and> VA i \<noteq> None then Suc (sq i) else sq i)" using Cons.prems(2) by (auto simp: fun_eq_iff)
  ultimately show ?case using t by simp
qed (simp add: bump_seqs_def)

lemma outside_nonnull: "outside_op n b tid ps r V \<Longrightarrow> V a = Some v \<Longrightarrow> a \<noteq> 0"
  by (auto simp: outside_op_def core_def payloads_ok_def)

lemma table_new_vertex:
  assumes t: "table_ok N T VA EE sq" and v: "VA vid = None" "0 \<le> vid" "vid < N"
  shows "table_ok N (set_vertex vid (Some \<lparr>tv_payload = a, tv_id = vid, adjacency_list = [], dest_list = []\<rparr>) T) (VA(vid \<mapsto> a)) EE sq"
proof -
  let ?v = "\<lparr>tv_payload = a, tv_id = vid, adjacency_list = [], dest_list = []\<rparr>"
  have sh: "graph_shape N VA EE" and l: "lists_ok T VA (\<lambda>_. edge_addr EE)" using t by (simp_all add: table_ok_def)
  have n: "EE (vid, j) = None" "EE (j, vid) = None" for j using graph_shapeD [OF sh, of vid j] graph_shapeD [OF sh, of j vid] v(1) by blast+
  have "vert_ok (edge_addr EE) vid ?v" unfolding vert_ok_def using n by (auto intro!: edges_in_nil simp: edge_addr_def)
  then have "lists_ok (set_vertex vid (Some ?v) T) (VA(vid \<mapsto> a)) (\<lambda>_. edge_addr EE)" using l by (auto simp: lists_ok_def fun_eq_iff)
  moreover have "graph_shape N (VA(vid \<mapsto> a)) EE" using sh v(2,3) by (auto simp: graph_shape_def)
  ultimately show ?thesis using t by (simp add: table_ok_def)
qed

lemma sample_vector_length:
  assumes "0 \<le> vid" "vid < N" "set us \<subseteq> {0..<N}"
  shows "set (sample_vector vid us) \<subseteq> {0..<N}" "length (sample_vector vid us) \<le> nat N"
proof -
  show s: "set (sample_vector vid us) \<subseteq> {0..<N}" using assms drawn_subset [of us] by (auto simp: sample_vector_set)
  have "length (sample_vector vid us) = card (set (sample_vector vid us))" using distinct_card [OF sample_vector_distinct] by simp
  also have "\<dots> \<le> card {0..<N}" by (rule card_mono [OF _ s]) simp
  finally show "length (sample_vector vid us) \<le> nat N" by simp
qed

lemma mg_add_vertex_ok:
  assumes g: "graph_sim n N (Suc (Suc (Suc (2 * nat N + b)))) g VA EE sq" and t: "tid < n" and e: "0 \<le> vid" "vid < N" "set us \<subseteq> {0..<N}"
  shows "step_ok n N b VA EE sq (AddVertex vid us tid) (mg_add_vertex vid us tid g)"
proof -
  let ?vec = "sample_vector vid us"
  obtain V where V: "idle n (Suc (Suc (Suc (2 * nat N + b)))) (mg_ds g) V" "graph_vals V VA EE" and N: "numVertices g = N" and T: "table_ok N (vMeta g) VA EE sq"
    using g by (auto simp: graph_sim_def)
  have "outside_op n (Suc (Suc (Suc (2 * nat N + b)))) tid [] (mg_ds g) V" using V(1) idle_outside [of n _ "mg_ds g" V tid] by simp
  from pnew_outside [OF this t, of "Vertex vid vid"] obtain a ds where
    nw: "pnew tid (Vertex vid vid) (mg_ds g) = Inr (a, ds)" "V a = None" "outside_op n (Suc (Suc (2 * nat N + b))) tid [a] ds (V(a \<mapsto> Vertex vid vid))" by auto
  have a0: "a \<noteq> 0" using outside_nonnull [OF nw(3), of a] by simp
  let ?v = "\<lparr>tv_payload = a, tv_id = vid, adjacency_list = [], dest_list = []\<rparr>"
  have nv: "new_vertex tid vid vid (mg_ds g) = Inr (?v, ds)" using nw(1) by (simp add: new_vertex_def)
  note vec = sample_vector_length [OF e] sample_vector_distinct [of vid us] sample_vector_set [of vid us]
  have l: "lock_all ?vec g = Inr ()" by (rule lock_all_ok) (use vec(1) N in auto)
  show ?thesis
  proof (cases "VA vid")
    case (Some x)
    obtain ds1 where d1: "pdelete tid a ds = Inr ds1" "outside_op n (Suc (Suc (2 * nat N + b))) tid [] ds1 V"
      using pdelete_outside [OF nw(3) _ t, of a "Vertex vid vid"] by (auto simp: fun_upd_idem [of V a, OF nw(2)])
    have i: "idle n b ds1 V" using outside_mono [OF d1(2), of b] idle_outside [of n b ds1 V tid] by simp
    let ?T = "bump_seqs vid (rev ?vec) (vMeta g)" and ?sq = "\<lambda>i. if i \<in> set (rev ?vec) \<and> VA vid \<noteq> None \<and> VA i \<noteq> None then Suc (sq i) else sq i"
    have r: "mg_add_vertex vid us tid g = Inr (False, g\<lparr>mg_ds := ds1, vMeta := ?T\<rparr>)"
      using nv l d1(1) a0 Some table_vertex [OF T, of vid] by (auto simp: mg_add_vertex_def Let_def delete_vertex_def)
    have s: "graph_sim n N b (g\<lparr>mg_ds := ds1, vMeta := ?T\<rparr>) VA EE ?sq"
      using N i V(2) bump_seqs_ok [OF T, of "rev ?vec" vid] vec(3) unfolding graph_sim_def by auto
    have m: "moved 1 VA EE sq VA EE ?sq" by (auto simp: moved_def)
    show ?thesis by (rule step_okI [OF _ s m]) (use r Some in auto)
  next
    case None
    let ?VA = "VA(vid \<mapsto> a)"
    have "outside_op n (Suc (length [a] + (2 * nat N + b))) tid [a] ds (V(a \<mapsto> Vertex vid vid))" using nw(3) by simp
    from begin_op_inside [OF this t] obtain ds1 where
      d1: "begin_op tid ds = Inr ds1" "inside_op n (2 * nat N + b) tid [a] ds1 (V(a \<mapsto> Vertex vid vid))" by blast
    have i1: "inside_op n (2 * length ?vec + b) tid [a] ds1 (V(a \<mapsto> Vertex vid vid))" by (rule inside_mono [OF d1(2)]) (use vec(2) in simp)
    note T1 = table_new_vertex [OF T None e(1,2), of a]
    have "graph_shape N VA EE" using T by (simp add: table_ok_def)
    then have n: "EE (vid, j) = None" for j using graph_shapeD [of N VA EE vid j] None by blast
    have nn: "?VA vid \<noteq> None" "\<forall>u \<in> set ?vec. EE (vid, u) = None" using n by simp_all
    from add_neighbours_ok [OF i1 graph_vals_new_vertex [OF V(2) nw(2) None] T1 nn(1) vec(3) nn(2)] obtain ds2 T2 V2 EE2 where
      d2: "rfold (add_neighbour tid vid) ?vec (ds1, set_vertex vid (Some ?v) (vMeta g)) = Inr (ds2, T2)" "inside_op n b tid [a] ds2 V2"
        "graph_vals V2 ?VA EE2" "table_ok N T2 ?VA EE2 sq"
        "\<forall>u \<in> set ?vec. u \<noteq> vid \<longrightarrow> ?VA u \<noteq> None \<longrightarrow> map_option snd (EE2 (vid, u)) = Some (-1)"
        "\<forall>i j. i \<noteq> vid \<or> j \<notin> set ?vec \<or> j = vid \<or> ?VA j = None \<longrightarrow> EE2 (i, j) = EE (i, j)" by blast
    from end_op_outside(1) [OF d2(2)] obtain ds3 where d3: "end_op tid ds2 = Inr ds3" "idle n b ds3 V2" by blast
    let ?T = "bump_seqs vid (rev ?vec) T2" and ?sq = "\<lambda>i. if i \<in> set (rev ?vec) \<and> ?VA vid \<noteq> None \<and> ?VA i \<noteq> None then Suc (sq i) else sq i"
    have r: "mg_add_vertex vid us tid g = Inr (True, g\<lparr>mg_ds := ds3, vMeta := ?T\<rparr>)"
      using nv l d1(1) d2(1) d3(1) None table_vertex [OF T, of vid] by (auto simp: mg_add_vertex_def Let_def)
    have s: "graph_sim n N b (g\<lparr>mg_ds := ds3, vMeta := ?T\<rparr>) ?VA EE2 ?sq"
      using N d3(2) d2(3) bump_seqs_ok [OF d2(4), of "rev ?vec" vid] vec(3) unfolding graph_sim_def by auto
    have k: "?VA i = VA i \<and> (\<forall>j. EE2 (i, j) = EE (i, j) \<and> EE2 (j, i) = EE (j, i))" if "?sq i = sq i" for i
    proof -
      have i: "i \<noteq> vid" "i \<notin> set ?vec \<or> ?VA i = None" using that vec(4) by (auto split: if_splits)
      then have "EE2 (i, j) = EE (i, j)" "EE2 (j, i) = EE (j, i)" for j using d2(6) by blast+
      then show ?thesis using i(1) by simp
    qed
    have m: "moved 1 VA EE sq ?VA EE2 ?sq" unfolding moved_def by (intro allI conjI impI k) simp_all
    have "ag_edges (abs_graph ?VA EE2) (i, j) = ag_edges (join_vertex vid (drawn us) (abs_graph VA EE)) (i, j)" for i j
    proof (cases "i = vid \<and> j \<in> drawn us \<and> VA j \<noteq> None")
      case True
      then have "j \<in> set ?vec" "j \<noteq> vid" "?VA j \<noteq> None" using None vec(4) by auto
      then have "map_option snd (EE2 (vid, j)) = Some (-1)" using d2(5) by blast
      then show ?thesis using True by (auto simp: join_vertex_def)
    next
      case False
      then have "i \<noteq> vid \<or> j \<notin> set ?vec \<or> j = vid \<or> ?VA j = None" using vec(4) by (cases "j = vid") auto
      then have "EE2 (i, j) = EE (i, j)" using d2(6) by blast
      then show ?thesis using False by (auto simp: join_vertex_def)
    qed
    then have "abs_graph ?VA EE2 = join_vertex vid (drawn us) (abs_graph VA EE)"
      by (intro agraph.equality) (auto simp: fun_eq_iff join_vertex_def)
    then show ?thesis by (intro step_okI [OF _ s m]) (use r None in auto)
  qed
qed

section \<open>Removing a vertex\<close>

lemma read_all_map: "\<forall>x \<in> set xs. f x = Inr (h x) \<Longrightarrow> read_all f xs = Inr (map h xs)"
  by (induction xs) simp_all

definition neighbours :: "(edge \<rightharpoonup> addr \<times> int) \<Rightarrow> int \<Rightarrow> int set" where
  "neighbours EE v = insert v {j. EE (v, j) \<noteq> None \<or> EE (j, v) \<noteq> None}"

lemma edges_in_set:
  assumes "edges_in m P E"
  shows "(p, a) \<in> set m \<longleftrightarrow> P p \<and> E p = Some a"
proof -
  have "(p, a) \<in> set m \<longleftrightarrow> map_of m p = Some a" using assms map_of_eq_Some_iff [of m p a] by (simp add: edges_in_def)
  moreover have "map_of m p = (if P p then E p else None)" using assms unfolding edges_in_def by blast
  ultimately show ?thesis by simp
qed

lemma edge_addr_Some: "edge_addr EE p = Some a \<longleftrightarrow> (\<exists>w. EE p = Some (a, w))"
  by (auto simp: edge_addr_def)

lemma collect_neighbours_ok:
  assumes i: "idle n b ds V" "graph_vals V VA EE" and v: "vert_ok (edge_addr EE) vid v"
  obtains us where "collect_neighbours vid v ds = Inr us" "distinct us" "set us = neighbours EE vid"
proof -
  have c: "core n b {} V (es_global_epoch (r_esys ds)) (r_esys ds)" using i(1) by (simp add: idle_def outside_op_def)
  have rd: "read_val a ds = Inr (Relation w s d)" if "EE (s, d) = Some (a, w)" for a w s d
    using core_val [OF c graph_valsD(2) [OF i(2) that]] by (simp add: read_val_def)
  have l: "edges_in (adjacency_list v) (\<lambda>p. fst p = vid) (edge_addr EE)" "edges_in (dest_list v) (\<lambda>p. snd p = vid) (edge_addr EE)"
    using v by (simp_all add: vert_ok_def)
  have k: "\<exists>w. EE p = Some (a, w)" if "(p, a) \<in> set (adjacency_list v) \<or> (p, a) \<in> set (dest_list v)" for p a
    using that unfolding edges_in_set [OF l(1)] edges_in_set [OF l(2)] edge_addr_Some by blast
  have rr: "relation_dest (snd r) ds = Inr (snd (fst r)) \<and> relation_src (snd r) ds = Inr (fst (fst r))"
    if t: "r \<in> set (adjacency_list v) \<or> r \<in> set (dest_list v)" for r
  proof -
    obtain s d a where r: "r = ((s, d), a)" by (metis prod.exhaust)
    then obtain w where "EE (s, d) = Some (a, w)" using k [of "(s, d)" a] t by blast
    then show ?thesis using rd r by (simp add: relation_dest_def relation_src_def)
  qed
  have a: "read_all (\<lambda>r. relation_dest (snd r) ds) (adjacency_list v) = Inr (map (\<lambda>r. snd (fst r)) (adjacency_list v))"
    by (rule read_all_map) (use rr in blast)
  have b: "read_all (\<lambda>r. relation_src (snd r) ds) (dest_list v) = Inr (map (\<lambda>r. fst (fst r)) (dest_list v))"
    by (rule read_all_map) (use rr in blast)
  have "j \<in> (\<lambda>r. snd (fst r)) ` set (adjacency_list v) \<longleftrightarrow> EE (vid, j) \<noteq> None" for j
  proof -
    have "j \<in> (\<lambda>r. snd (fst r)) ` set (adjacency_list v) \<longleftrightarrow> (\<exists>i a. ((i, j), a) \<in> set (adjacency_list v))" by force
    then show ?thesis unfolding edges_in_set [OF l(1)] edge_addr_Some by auto
  qed
  moreover have "j \<in> (\<lambda>r. fst (fst r)) ` set (dest_list v) \<longleftrightarrow> EE (j, vid) \<noteq> None" for j
  proof -
    have "j \<in> (\<lambda>r. fst (fst r)) ` set (dest_list v) \<longleftrightarrow> (\<exists>i a. ((j, i), a) \<in> set (dest_list v))" by force
    then show ?thesis unfolding edges_in_set [OF l(2)] edge_addr_Some by auto
  qed
  ultimately have "(\<lambda>r. snd (fst r)) ` set (adjacency_list v) \<union> (\<lambda>r. fst (fst r)) ` set (dest_list v) \<union> {vid} = neighbours EE vid"
    by (simp only: neighbours_def set_eq_iff Un_iff insert_iff mem_Collect_eq) blast
  then show thesis using that a b by (simp add: collect_neighbours_def Un_assoc distinct_remdups_sorted)
qed

text \<open>The edges that are left when the neighbours in a set have been cut off, and those whose payloads are left.\<close>

definition cut_edges :: "int \<Rightarrow> int set \<Rightarrow> (edge \<rightharpoonup> addr \<times> int) \<Rightarrow> edge \<rightharpoonup> addr \<times> int" where
  "cut_edges v D EE = (\<lambda>(i, j). if i = v \<and> j \<in> D \<or> j = v \<and> i \<in> D then None else EE (i, j))"

definition cut_in :: "int \<Rightarrow> int set \<Rightarrow> (edge \<rightharpoonup> addr \<times> int) \<Rightarrow> edge \<rightharpoonup> addr \<times> int" where
  "cut_in v D EE = (\<lambda>(i, j). if j = v \<and> i \<in> D then None else EE (i, j))"

definition cut_all :: "int \<Rightarrow> (edge \<rightharpoonup> addr \<times> int) \<Rightarrow> edge \<rightharpoonup> addr \<times> int" where
  "cut_all v EE = (\<lambda>(i, j). if i = v \<or> j = v then None else EE (i, j))"

lemma cut_insert:
  "cut_in v (insert u D) EE = (cut_in v D EE)((u, v) := None)"
  "cut_edges v (insert u D) EE = (cut_edges v D EE)((u, v) := None, (v, u) := None)"
  by (auto simp: cut_in_def cut_edges_def fun_eq_iff)

lemma cut_in_pdelete:
  assumes d: "inside_op n (b + 4) tid ps ds V" "graph_vals V VA (cut_in v D EE)" and u: "u \<notin> D"
  obtains ds' V' where "(case edge_addr EE (u, v) of None \<Rightarrow> Inr ds | Some r \<Rightarrow> pdelete tid r ds) = Inr ds'" "inside_op n b tid ps ds' V'"
    "graph_vals V' VA (cut_in v (insert u D) EE)"
proof (cases "EE (u, v)")
  case None
  then have "cut_in v (insert u D) EE = cut_in v D EE" by (auto simp: cut_in_def fun_eq_iff)
  then show thesis using that [of ds V] inside_mono [OF d(1), of b] d(2) None by (simp add: edge_addr_def)
next
  case (Some x)
  then obtain a w where x: "cut_in v D EE (u, v) = Some (a, w)" "EE (u, v) = Some (a, w)" using u by (cases x) (auto simp: cut_in_def)
  from pdelete_inside [OF d(1) graph_valsD(2) [OF d(2) x(1)]] obtain ds' where
    "pdelete tid a ds = Inr ds'" "inside_op n b tid ps ds' (V(a := None))" by blast
  then show thesis using that graph_vals_del_edge [OF d(2) x(1)] x(2) by (simp add: edge_addr_def cut_insert)
qed

lemma cut_neighbour_ok:
  assumes d: "inside_op n (b + 4) tid ps ds V" "graph_vals V VA (cut_in v D EE)"
    and l: "lists_ok T VA (\<lambda>i. edge_addr (if i = v then EE else cut_edges v D EE))" and sh: "graph_shape N VA EE"
    and u: "u \<notin> D" "u \<noteq> v \<Longrightarrow> EE (v, u) \<noteq> None \<or> EE (u, v) \<noteq> None"
  shows "\<exists>ds' T' V'. cut_neighbour tid v u (ds, T) = Inr (ds', T') \<and> inside_op n b tid ps ds' V' \<and> graph_vals V' VA (cut_in v (insert u D) EE)
    \<and> lists_ok T' VA (\<lambda>i. edge_addr (if i = v then EE else cut_edges v (insert u D) EE)) \<and> (\<forall>i. get_seq i T' = get_seq i T)"
proof (cases "u = v")
  case True
  have "EE (v, v) = None" using graph_shapeD [OF sh, of v v] by blast
  then have e: "cut_in v (insert v D) EE = cut_in v D EE" "cut_edges v (insert v D) EE = cut_edges v D EE"
    by (auto simp: cut_in_def cut_edges_def fun_eq_iff)
  show ?thesis unfolding True e using d(2) l inside_mono [OF d(1), of b] by (intro exI [of _ ds] exI [of _ T] exI [of _ V]) (simp add: cut_neighbour_def)
next
  case False
  let ?E = "edge_addr (cut_edges v D EE)"
  let ?E1 = "?E((u, v) := None)" and ?E2 = "?E((u, v) := None, (v, u) := None)"
  have "VA u \<noteq> None" using u(2) [OF False] graph_shapeD [OF sh] by blast
  then obtain x where x: "vertex u T = Some x" "vert_ok ?E u x" using lists_okD [OF l, of u] False by auto
  have m: "edges_in (adjacency_list x) (\<lambda>p. fst p = u) ?E" "edges_in (dest_list x) (\<lambda>p. snd p = u) ?E" using x(2) by (simp_all add: vert_ok_def)
  have E: "?E (u, v) = edge_addr EE (u, v)" "?E (v, u) = edge_addr EE (v, u)" using u(1) False by (simp_all add: edge_addr_def cut_edges_def)
  have f: "fst (u, v) = u" "snd (v, u) = u" by simp_all
  obtain sl where r: "remove_relation (u, v) (adjacency_list x) = (edge_addr EE (u, v), sl)" "edges_in sl (\<lambda>p. fst p = u) ?E1"
    using edges_in_remove [OF m(1) f(1)] unfolding E by blast
  obtain dl where q: "remove_relation (v, u) (dest_list x) = (edge_addr EE (v, u), dl)" "edges_in dl (\<lambda>p. snd p = u) (?E((v, u) := None))"
    using edges_in_remove [OF m(2) f(2)] unfolding E by blast
  have q2: "edges_in dl (\<lambda>p. snd p = u) ?E2" by (rule edges_in_cong [OF q(2)]) (use False in auto)
  have "lists_ok (set_source u sl T) VA ((\<lambda>i. edge_addr (if i = v then EE else cut_edges v D EE))(u := ?E1))"
    by (rule set_source_ok [OF l r(2)]) (use False in auto)
  from set_destination_ok [OF this q2] False have
    l2: "lists_ok (set_destination u dl (set_source u sl T)) VA ((\<lambda>i. edge_addr (if i = v then EE else cut_edges v D EE))(u := ?E2))" by auto
  have l3: "lists_ok (set_destination u dl (set_source u sl T)) VA (\<lambda>i. edge_addr (if i = v then EE else cut_edges v (insert u D) EE))"
    by (rule lists_ok_cong [OF l2]) (use False in \<open>auto simp: cut_insert\<close>)
  obtain ds' V' where d': "(case edge_addr EE (u, v) of None \<Rightarrow> Inr ds | Some r \<Rightarrow> pdelete tid r ds) = Inr ds'" "inside_op n b tid ps ds' V'"
      "graph_vals V' VA (cut_in v (insert u D) EE)" using cut_in_pdelete [OF d u(1)] by blast
  have h: "has_relation (adjacency_list x) (u, v) \<or> has_relation (dest_list x) (v, u)" "\<not> has_relation sl (u, v)" "\<not> has_relation dl (v, u)"
    using edges_in_has [OF m(1), of "(u, v)"] edges_in_has [OF m(2), of "(v, u)"] E u(2) [OF False]
      edges_in_has [OF r(2), of "(u, v)"] edges_in_has [OF q(2), of "(v, u)"] by auto
  have "cut_neighbour tid v u (ds, T) = Inr (ds', set_destination u dl (set_source u sl T))"
    using False x(1) r(1) q(1) h d'(1) by (auto simp: cut_neighbour_def source_def destination_def rassert_def)
  then show ?thesis using d'(2,3) l3 by (intro exI [of _ ds'] exI [of _ "set_destination u dl (set_source u sl T)"] exI [of _ V']) simp
qed

lemma cut_neighbours_ok:
  assumes "inside_op n (4 * length us + b) tid ps ds V" "graph_vals V VA (cut_in v D EE)"
    "lists_ok T VA (\<lambda>i. edge_addr (if i = v then EE else cut_edges v D EE))" and sh: "graph_shape N VA EE"
    and "distinct us" "D \<inter> set us = {}" "\<forall>u \<in> set us. u \<noteq> v \<longrightarrow> EE (v, u) \<noteq> None \<or> EE (u, v) \<noteq> None"
  shows "\<exists>ds' T' V'. rfold (cut_neighbour tid v) us (ds, T) = Inr (ds', T') \<and> inside_op n b tid ps ds' V'
    \<and> graph_vals V' VA (cut_in v (D \<union> set us) EE)
    \<and> lists_ok T' VA (\<lambda>i. edge_addr (if i = v then EE else cut_edges v (D \<union> set us) EE)) \<and> (\<forall>i. get_seq i T' = get_seq i T)"
  using assms(1-3,5-)
proof (induction us arbitrary: ds T V D)
  case Nil
  then show ?case by (intro exI [of _ ds] exI [of _ T] exI [of _ V]) (simp cong: if_cong)
next
  case (Cons u us)
  have i: "inside_op n ((4 * length us + b) + 4) tid ps ds V" using Cons.prems(1) by (simp add: algebra_simps)
  have u: "u \<notin> D" "u \<noteq> v \<Longrightarrow> EE (v, u) \<noteq> None \<or> EE (u, v) \<noteq> None" using Cons.prems(5,6) by auto
  from cut_neighbour_ok [OF i Cons.prems(2,3) sh u] obtain ds1 T1 V1 where
    c: "cut_neighbour tid v u (ds, T) = Inr (ds1, T1)" "inside_op n (4 * length us + b) tid ps ds1 V1" "graph_vals V1 VA (cut_in v (insert u D) EE)"
      "lists_ok T1 VA (\<lambda>i. edge_addr (if i = v then EE else cut_edges v (insert u D) EE))" "\<forall>i. get_seq i T1 = get_seq i T" by blast
  have "insert u D \<inter> set us = {}" "distinct us" using Cons.prems(4,5) by auto
  from Cons.IH [OF c(2-4) this(2,1)] Cons.prems(6) obtain ds' T' V' where
    r: "rfold (cut_neighbour tid v) us (ds1, T1) = Inr (ds', T')" "inside_op n b tid ps ds' V'" "graph_vals V' VA (cut_in v (insert u D \<union> set us) EE)"
      "lists_ok T' VA (\<lambda>i. edge_addr (if i = v then EE else cut_edges v (insert u D \<union> set us) EE))" "\<forall>i. get_seq i T' = get_seq i T1" by auto
  then show ?case using c(1,5) by (intro exI [of _ ds'] exI [of _ T'] exI [of _ V']) (simp cong: if_cong)
qed

lemma delete_relations_ok:
  assumes "inside_op n (4 * length m + b) tid ps ds V" "graph_vals V VA EV" "distinct (map fst m)" "\<forall>(p, a) \<in> set m. edge_addr EV p = Some a"
  shows "\<exists>ds' V'. rfold (\<lambda>r. pdelete tid (snd r)) m ds = Inr ds' \<and> inside_op n b tid ps ds' V'
    \<and> graph_vals V' VA (\<lambda>p. if p \<in> fst ` set m then None else EV p)"
  using assms
proof (induction m arbitrary: ds V EV)
  case (Cons r m)
  obtain s d a where r: "r = ((s, d), a)" by (metis prod.exhaust)
  obtain w where w: "EV (s, d) = Some (a, w)" using Cons.prems(4) unfolding r by (auto simp: edge_addr_Some)
  have i: "inside_op n ((4 * length m + b) + 4) tid ps ds V" using Cons.prems(1) by (simp add: algebra_simps)
  from pdelete_inside [OF i graph_valsD(2) [OF Cons.prems(2) w]] obtain ds1 where
    d1: "pdelete tid a ds = Inr ds1" "inside_op n (4 * length m + b) tid ps ds1 (V(a := None))" by blast
  have "\<forall>(p, a) \<in> set m. edge_addr (EV((s, d) := None)) p = Some a" using Cons.prems(3,4) unfolding r by force
  from Cons.IH [OF d1(2) graph_vals_del_edge [OF Cons.prems(2) w] _ this] Cons.prems(3) obtain ds' V' where
    "rfold (\<lambda>r. pdelete tid (snd r)) m ds1 = Inr ds'" "inside_op n b tid ps ds' V'"
    "graph_vals V' VA (\<lambda>p. if p \<in> fst ` set m then None else (EV((s, d) := None)) p)" by auto
  moreover have "(\<lambda>p. if p \<in> fst ` set m then None else (EV((s, d) := None)) p) = (\<lambda>p. if p \<in> fst ` set (r # m) then None else EV p)"
    unfolding r by (auto simp: fun_eq_iff)
  ultimately show ?case using d1(1) unfolding r by (intro exI [of _ ds'] exI [of _ V']) simp
qed auto

lemma fold_inc_seq:
  assumes "distinct us"
  shows "vertex i (fold inc_seq us T) = vertex i T" "get_seq i (fold inc_seq us T) = get_seq i T + (if i \<in> set us then 1 else 0)"
  using assms by (induction us arbitrary: T) auto

lemma inside_nonnull: "inside_op n b tid ps r V \<Longrightarrow> V a = Some v \<Longrightarrow> a \<noteq> 0"
  by (auto simp: inside_op_def Let_def core_def payloads_ok_def)

lemma neighbours_cut: "cut_edges v (neighbours EE v) EE = cut_all v EE"
  by (auto simp: cut_edges_def cut_all_def neighbours_def fun_eq_iff simp del: not_None_eq)

lemma neighbours_in:
  assumes "graph_shape N VA EE" "VA v \<noteq> None"
  shows "neighbours EE v \<subseteq> {0..<N}" "\<forall>u \<in> neighbours EE v. VA u \<noteq> None"
proof -
  show a: "\<forall>u \<in> neighbours EE v. VA u \<noteq> None" using graph_shapeD [OF assms(1)] assms(2) unfolding neighbours_def by blast
  then show "neighbours EE v \<subseteq> {0..<N}" using assms(1) by (auto simp: graph_shape_def)
qed

lemma abs_graph_cut: "abs_graph (VA(v := None)) (cut_all v EE) = cut_out v (abs_graph VA EE)"
  by (auto simp: abs_graph_def cut_out_def cut_all_def fun_eq_iff)

lemma moved_cut: "moved 1 VA EE sq (VA(v := None)) (cut_all v EE) (\<lambda>i. if i \<in> neighbours EE v then Suc (sq i) else sq i)"
  unfolding moved_def by (auto simp: neighbours_def cut_all_def simp del: not_None_eq)

text \<open>The lists of the other vertices after the vertex is gone.\<close>

lemma lists_ok_destroy:
  assumes l: "lists_ok T VA (\<lambda>i. edge_addr (if i = v then EE else EE'))"
  shows "lists_ok (set_vertex v None (set_destination v [] (set_source v [] T))) (VA(v := None)) (\<lambda>_. edge_addr EE')"
  using l by (auto simp: lists_ok_def fun_eq_iff split: if_splits)

lemma edges_in_keys: "edges_in m P E \<Longrightarrow> fst ` set m = {p. P p \<and> E p \<noteq> None}"
  using edges_in_set [of m P E] by (force simp: image_iff)

lemma adjacency_length:
  assumes "edges_in m (\<lambda>p. fst p = v) (edge_addr EE)" "graph_shape N VA EE"
  shows "length m \<le> nat N"
proof -
  have "distinct (map fst m)" using assms(1) by (simp add: edges_in_def)
  then have "length m = card (fst ` set m)" using distinct_card [of "map fst m"] by simp
  also have "\<dots> \<le> card (Pair v ` {0..<N})"
  proof (rule card_mono)
    show "fst ` set m \<subseteq> Pair v ` {0..<N}"
      unfolding edges_in_keys [OF assms(1)] using assms(2) by (force simp: graph_shape_def edge_addr_def image_iff)
  qed simp
  also have "\<dots> \<le> nat N" using card_image_le [of "{0..<N}" "Pair v"] by simp
  finally show ?thesis .
qed

lemma cut_rest:
  assumes m: "edges_in m (\<lambda>p. fst p = v) (edge_addr EE)" and sh: "graph_shape N VA EE"
  shows "\<forall>(p, a) \<in> set m. edge_addr (cut_in v D EE) p = Some a"
    "(\<lambda>p. if p \<in> fst ` set m then None else cut_in v (neighbours EE v) EE p) = cut_all v EE"
proof -
  have n: "EE (v, v) = None" using graph_shapeD [OF sh, of v v] by blast
  show "\<forall>(p, a) \<in> set m. edge_addr (cut_in v D EE) p = Some a"
    using n by (auto simp: edges_in_set [OF m] edge_addr_def cut_in_def)
  show "(\<lambda>p. if p \<in> fst ` set m then None else cut_in v (neighbours EE v) EE p) = cut_all v EE"
    unfolding edges_in_keys [OF m] by (auto simp: cut_in_def cut_all_def neighbours_def fun_eq_iff simp del: not_None_eq)
qed

lemma destroy_vertex_ok:
  assumes i: "inside_op n (b + 4) tid ps ds V" "graph_vals V VA EE'" and l: "lists_ok T VA (\<lambda>i. edge_addr (if i = v then EE else EE'))"
    and v: "VA v \<noteq> None"
  shows "\<exists>ds' T' V'. destroy_vertex tid v (ds, set_destination v [] (set_source v [] T)) = Inr (ds', T') \<and> inside_op n b tid ps ds' V'
    \<and> graph_vals V' (VA(v := None)) EE' \<and> lists_ok T' (VA(v := None)) (\<lambda>_. edge_addr EE') \<and> (\<forall>i. get_seq i T' = get_seq i T)"
proof -
  let ?T = "set_destination v [] (set_source v [] T)"
  obtain x where x: "vertex v T = Some x" "VA v = Some (tv_payload x)" using lists_okD [OF l v] by blast
  have V: "V (tv_payload x) = Some (Vertex v v)" using graph_valsD(1) [OF i(2) x(2)] .
  from pdelete_inside [OF i(1) V] obtain ds' where d: "pdelete tid (tv_payload x) ds = Inr ds'" "inside_op n b tid ps ds' (V(tv_payload x := None))" by blast
  have "destroy_vertex tid v (ds, ?T) = Inr (ds', set_vertex v None ?T)"
    using x(1) d(1) inside_nonnull [OF i(1) V] by (simp add: destroy_vertex_def delete_vertex_def)
  then show ?thesis using d(2) graph_vals_del_vertex [OF i(2) x(2)] lists_ok_destroy [OF l]
    by (intro exI [of _ ds'] exI [of _ "set_vertex v None ?T"] exI [of _ "V(tv_payload x := None)"]) simp
qed

lemma cut_vertex_ok:
  assumes g: "graph_sim n N (Suc (8 * nat N + (b + 4))) g VA EE sq" and t: "tid < n" and v: "VA v \<noteq> None"
    and us: "distinct us" "set us = neighbours EE v"
  shows "\<exists>g'. cut_vertex tid v us g = Inr g'
    \<and> graph_sim n N b g' (VA(v := None)) (cut_all v EE) (\<lambda>i. if i \<in> neighbours EE v then Suc (sq i) else sq i)"
proof -
  obtain V where V: "idle n (Suc (8 * nat N + (b + 4))) (mg_ds g) V" "graph_vals V VA EE" and N: "numVertices g = N" and T: "table_ok N (vMeta g) VA EE sq"
    using g by (auto simp: graph_sim_def)
  have sh: "graph_shape N VA EE" and l: "lists_ok (vMeta g) VA (\<lambda>_. edge_addr EE)" and q: "\<forall>i. get_seq i (vMeta g) = of_nat (sq i)"
    using T by (simp_all add: table_ok_def)
  have "length us \<le> nat N"
    using card_mono [OF _ neighbours_in(1) [OF sh v]] distinct_card [OF us(1)] us(2) by simp
  then have le: "4 * length us + (4 * nat N + (b + 4)) \<le> 8 * nat N + (b + 4)" by simp
  have "outside_op n (Suc (length ([] :: addr list) + (8 * nat N + (b + 4)))) tid [] (mg_ds g) V" using V(1) idle_outside [of n _ "mg_ds g" V tid] by simp
  from begin_op_inside [OF this t] obtain ds1 where d1: "begin_op tid (mg_ds g) = Inr ds1" "inside_op n (8 * nat N + (b + 4)) tid [] ds1 V" by blast
  have c0: "cut_in v {} EE = EE" "cut_edges v {} EE = EE" by (auto simp: cut_in_def cut_edges_def fun_eq_iff)
  have "\<forall>u \<in> set us. u \<noteq> v \<longrightarrow> EE (v, u) \<noteq> None \<or> EE (u, v) \<noteq> None" unfolding us(2) neighbours_def by blast
  from cut_neighbours_ok [OF inside_mono [OF d1(2) le], of VA v "{}" EE "vMeta g", unfolded c0, OF V(2) _ sh us(1) _ this] l obtain ds2 T2 V2 where
    d2: "rfold (cut_neighbour tid v) us (ds1, vMeta g) = Inr (ds2, T2)" "inside_op n (4 * nat N + (b + 4)) tid [] ds2 V2"
      "graph_vals V2 VA (cut_in v (neighbours EE v) EE)" "lists_ok T2 VA (\<lambda>i. edge_addr (if i = v then EE else cut_all v EE))"
      "\<forall>i. get_seq i T2 = get_seq i (vMeta g)" by (auto simp: us(2) neighbours_cut cong: if_cong)
  obtain x where x: "vertex v T2 = Some x" "vert_ok (edge_addr EE) v x" using lists_okD [OF d2(4) v] by auto
  then have m: "edges_in (adjacency_list x) (\<lambda>p. fst p = v) (edge_addr EE)" by (simp add: vert_ok_def)
  have i2: "inside_op n (4 * length (adjacency_list x) + (b + 4)) tid [] ds2 V2"
    by (rule inside_mono [OF d2(2)]) (use adjacency_length [OF m sh] in simp)
  have "distinct (map fst (adjacency_list x))" using m by (simp add: edges_in_def)
  from delete_relations_ok [OF i2 d2(3) this cut_rest(1) [OF m sh]] obtain ds3 V3 where
    d3: "rfold (\<lambda>r. pdelete tid (snd r)) (adjacency_list x) ds2 = Inr ds3" "inside_op n (b + 4) tid [] ds3 V3" "graph_vals V3 VA (cut_all v EE)"
    unfolding cut_rest(2) [OF m sh] by blast
  from destroy_vertex_ok [OF d3(2,3) d2(4) v] obtain ds4 T4 V4 where
    d4: "destroy_vertex tid v (ds3, set_destination v [] (set_source v [] T2)) = Inr (ds4, T4)" "inside_op n b tid [] ds4 V4"
      "graph_vals V4 (VA(v := None)) (cut_all v EE)" "lists_ok T4 (VA(v := None)) (\<lambda>_. edge_addr (cut_all v EE))"
      "\<forall>i. get_seq i T4 = get_seq i T2" by blast
  from end_op_outside(1) [OF d4(2)] obtain ds5 where d5: "end_op tid ds4 = Inr ds5" "idle n b ds5 V4" by blast
  let ?T = "fold inc_seq (rev us) T4" and ?sq = "\<lambda>i. if i \<in> neighbours EE v then Suc (sq i) else sq i"
  have rd: "distinct (rev us)" using us(1) by simp
  have "graph_shape N (VA(v := None)) (cut_all v EE)" using sh by (auto simp: graph_shape_def cut_all_def)
  moreover have "lists_ok ?T (VA(v := None)) (\<lambda>_. edge_addr (cut_all v EE))" using d4(4) by (simp add: lists_ok_def fold_inc_seq [OF rd])
  moreover have "\<forall>i. get_seq i ?T = of_nat (?sq i)" using d4(5) d2(5) q us(2) by (simp add: fold_inc_seq [OF rd])
  ultimately have "table_ok N ?T (VA(v := None)) (cut_all v EE) ?sq" by (simp add: table_ok_def)
  then have "graph_sim n N b (g\<lparr>mg_ds := ds5, vMeta := ?T\<rparr>) (VA(v := None)) (cut_all v EE) ?sq"
    using N d5(2) d4(3) by (auto simp: graph_sim_def)
  moreover have "cut_vertex tid v us g = Inr (g\<lparr>mg_ds := ds5, vMeta := ?T\<rparr>)"
    using d1(1) d2(1) x(1) d3(1) d4(1) d5(1) by (simp add: cut_vertex_def source_def)
  ultimately show ?thesis by blast
qed

text \<open>One turn of \<^verbatim>\<open>remove_vertex\<close>.\<close>

lemma of_nat_seq_eq:
  assumes "m \<le> m'" "m' \<le> m + k" "k < 2 ^ 32"
  shows "(of_nat m' :: 32 word) = of_nat m \<longleftrightarrow> m' = m"
proof
  assume "(of_nat m' :: 32 word) = of_nat m"
  then have "(of_nat (m' - m) :: 32 word) = 0" using assms(1) by (simp add: of_nat_diff)
  then have "2 ^ 32 dvd m' - m" unfolding word_of_nat_eq_0_iff by simp
  moreover have "m' - m < 2 ^ 32" using assms(2,3) by linarith
  ultimately have "m' - m = 0" using nat_dvd_not_less [of "m' - m" "2 ^ 32"] by blast
  then show "m' = m" using assms(1) by simp
qed simp

lemma remove_vertex_turn:
  assumes g: "graph_sim n N b g VA EE sq" and v: "VA v \<noteq> None"
  obtains us where "distinct us" "set us = neighbours EE v"
    "mg_remove_vertex v others tid g = rbind (lock_neighbours v (of_nat (sq v)) us others g) (\<lambda>g1.
       if get_seq v (vMeta g1) \<noteq> of_nat (sq v) then (if us = [] \<or> others = [] then Inl Diverges else mg_remove_vertex v (drop (length us) others) tid g1)
       else rbind (cut_vertex tid v us g1) (\<lambda>g2. Inr (True, g2)))"
proof -
  obtain V where V: "idle n b (mg_ds g) V" "graph_vals V VA EE" and N: "numVertices g = N" and T: "table_ok N (vMeta g) VA EE sq"
    using g by (auto simp: graph_sim_def)
  have sh: "graph_shape N VA EE" and l: "lists_ok (vMeta g) VA (\<lambda>_. edge_addr EE)" and q: "get_seq v (vMeta g) = of_nat (sq v)"
    using T by (simp_all add: table_ok_def)
  obtain x where x: "vertex v (vMeta g) = Some x" "vert_ok (edge_addr EE) v x" using lists_okD [OF l v] by auto
  obtain us where us: "collect_neighbours v x (mg_ds g) = Inr us" "distinct us" "set us = neighbours EE v"
    using collect_neighbours_ok [OF V x(2)] by blast
  have l0: "lock_vertex v g = Inr ()" using neighbours_in(1) [OF sh v] N by (intro lock_ok) (auto simp: neighbours_def)
  show thesis by (rule that [OF us(2,3)], subst mg_remove_vertex.simps) (simp add: l0 x(1) us(1) q Let_def)
qed

text \<open>A turn that finds the sequence number of the vertex as it was.\<close>

lemma moved_unchanged:
  assumes "moved k VA EE sq VA1 EE1 sq1" "sq1 v = sq v"
  shows "VA1 v = VA v" "neighbours EE1 v = neighbours EE v"
  using assms by (simp_all add: moved_def neighbours_def)

lemma remove_vertex_finish:
  assumes g: "graph_sim n N (Suc (8 * nat N + (b + 4))) g VA EE sq" and t: "tid < n" and v: "VA v \<noteq> None" and us: "distinct us" "set us = neighbours EE v"
  shows "step_ok n N b VA EE sq (RemoveVertex v tid) (rbind (cut_vertex tid v us g) (\<lambda>g2. Inr (True, g2)))"
proof -
  from cut_vertex_ok [OF g t v us] obtain g2 where
    c: "cut_vertex tid v us g = Inr g2" "graph_sim n N b g2 (VA(v := None)) (cut_all v EE) (\<lambda>i. if i \<in> neighbours EE v then Suc (sq i) else sq i)" by blast
  show ?thesis by (rule step_okI [OF _ c(2) moved_cut]) (use c(1) v in \<open>simp_all add: abs_graph_cut domIff\<close>)
qed

lemma lock_neighbours_quiet:
  assumes "\<forall>u \<in> set us. 0 \<le> u \<and> u < numVertices g \<and> vertex u (vMeta g) \<noteq> None"
  shows "lock_neighbours v seq us [] g = Inr g"
  using assms by (induction us) (auto simp: lock_ok)

lemma remove_absent:
  assumes g: "graph_sim n N b g VA EE sq" and v: "VA v = None" "0 \<le> v" "v < N"
  shows "step_ok n N b VA EE sq (RemoveVertex v tid) (mg_remove_vertex v others tid g)"
proof -
  have T: "table_ok N (vMeta g) VA EE sq" "numVertices g = N" using g by (auto simp: graph_sim_def)
  have "mg_remove_vertex v others tid g = Inr (False, g)"
    using table_vertex [OF T(1), of v] v T(2) by (subst mg_remove_vertex.simps) (simp add: lock_ok)
  then show ?thesis by (intro step_okI [OF _ g]) (use v(1) in \<open>auto simp: domIff\<close>)
qed

lemma mg_remove_vertex_ok:
  assumes g: "graph_sim n N (Suc (8 * nat N + (b + 4))) g VA EE sq" and t: "tid < n" and v: "0 \<le> v" "v < N"
  shows "step_ok n N b VA EE sq (RemoveVertex v tid) (mg_remove_vertex v [] tid g)"
proof (cases "VA v = None")
  case True
  obtain V where V: "idle n (Suc (8 * nat N + (b + 4))) (mg_ds g) V" "graph_vals V VA EE" using g by (auto simp: graph_sim_def)
  have "graph_sim n N b g VA EE sq" using graph_sim_ds [OF g idle_mono [OF V(1)] V(2), of b] by simp
  then show ?thesis using remove_absent True v by blast
next
  case False
  have T: "numVertices g = N" "table_ok N (vMeta g) VA EE sq" using g by (auto simp: graph_sim_def)
  then have sh: "graph_shape N VA EE" by (simp add: table_ok_def)
  obtain us where us: "distinct us" "set us = neighbours EE v"
    "mg_remove_vertex v [] tid g = rbind (lock_neighbours v (of_nat (sq v)) us [] g) (\<lambda>g1.
       if get_seq v (vMeta g1) \<noteq> of_nat (sq v) then (if us = [] \<or> [] = ([] :: (graph \<Rightarrow> graph res) list) then Inl Diverges else mg_remove_vertex v (drop (length us) []) tid g1)
       else rbind (cut_vertex tid v us g1) (\<lambda>g2. Inr (True, g2)))"
    using remove_vertex_turn [OF g False, of "[]" tid] by blast
  have "lock_neighbours v (of_nat (sq v)) us [] g = Inr g"
    by (rule lock_neighbours_quiet) (use neighbours_in [OF sh False] us(2) T table_vertex [OF T(2)] in auto)
  moreover have "get_seq v (vMeta g) = of_nat (sq v)" using T(2) by (simp add: table_ok_def)
  ultimately have "mg_remove_vertex v [] tid g = rbind (cut_vertex tid v us g) (\<lambda>g2. Inr (True, g2))" using us(3) by simp
  then show ?thesis using remove_vertex_finish [OF g t False us(1,2)] by simp
qed

end
