(* ===== verification/Graph_Life.thy ===== *)
theory Graph_Life
  imports Graph_Vertices
begin

text \<open>
  The graph from its construction on: every operation does what the same operation does on an abstract graph, and
  removing a vertex takes effect at one moment among the operations that run while it is under way.
\<close>

section \<open>The graph is a graph\<close>

abbreviation mg_step :: "graph_op \<Rightarrow> graph \<Rightarrow> (bool \<times> graph) res" where
  "mg_step \<equiv> graph_step mg_add_edge mg_has_edge mg_remove_edge mg_add_vertex (\<lambda>v t. mg_remove_vertex v [] t) mg_tick"

text \<open>What an operation on \<^term>\<open>N\<close> vertices may take of the store's budget.\<close>

definition graph_cost :: "int \<Rightarrow> nat" where
  "graph_cost N = 8 * nat N + 5"

lemma graph_sim_mono:
  assumes "graph_sim n N b g VA EE sq" "b' \<le> b"
  shows "graph_sim n N b' g VA EE sq"
  using assms idle_mono unfolding graph_sim_def by blast

lemma mg_step_ok:
  assumes g: "graph_sim n N (graph_cost N + b) g VA EE sq" and x: "graph_legal {..<n} {0..<N} x"
  shows "step_ok n N b VA EE sq x (mg_step x g)"
proof (cases x)
  case (AddEdge s d w t)
  have "graph_sim n N (Suc (Suc (Suc b))) g VA EE sq" by (rule graph_sim_mono [OF g]) (simp add: graph_cost_def)
  then show ?thesis using x AddEdge mg_add_edge_ok by simp
next
  case (HasEdge s d t)
  have "graph_sim n N (Suc b) g VA EE sq" by (rule graph_sim_mono [OF g]) (simp add: graph_cost_def)
  then show ?thesis using x HasEdge mg_has_edge_ok by simp
next
  case (RemoveEdge s d t)
  have "graph_sim n N (Suc (b + 4)) g VA EE sq" by (rule graph_sim_mono [OF g]) (simp add: graph_cost_def)
  then show ?thesis using x RemoveEdge mg_remove_edge_ok by simp
next
  case (AddVertex v us t)
  have "graph_sim n N (Suc (Suc (Suc (2 * nat N + b)))) g VA EE sq" by (rule graph_sim_mono [OF g]) (simp add: graph_cost_def)
  then show ?thesis using x AddVertex mg_add_vertex_ok by simp
next
  case (RemoveVertex v t)
  have "graph_sim n N (Suc (8 * nat N + (b + 4))) g VA EE sq" by (rule graph_sim_mono [OF g]) (simp add: graph_cost_def)
  then show ?thesis using x RemoveVertex mg_remove_vertex_ok by simp
next
  case (GraphTick t)
  have "graph_sim n N (Suc b) g VA EE sq" by (rule graph_sim_mono [OF g]) (simp add: graph_cost_def)
  from mg_tick_ok [OF this, of t] obtain g' where "mg_tick t g = Inr g'" "graph_sim n N b g' VA EE sq" by blast
  then show ?thesis using GraphTick by (intro step_okI [of _ _ _ _ g' _ _ _ VA EE sq]) simp_all
qed

definition mg_rep :: "nat \<Rightarrow> int \<Rightarrow> nat \<Rightarrow> graph \<Rightarrow> agraph \<Rightarrow> bool" where
  "mg_rep n N b g G \<longleftrightarrow> (\<exists>VA EE sq. graph_sim n N (graph_cost N * b) g VA EE sq \<and> G = abs_graph VA EE)"

lemma mg_step_rep:
  assumes "mg_rep n N (Suc b) g G" "graph_legal {..<n} {0..<N} x"
  shows "\<exists>g'. mg_step x g = Inr (fst (graph_spec x G), g') \<and> mg_rep n N b g' (snd (graph_spec x G))"
proof -
  obtain VA EE sq where g: "graph_sim n N (graph_cost N * Suc b) g VA EE sq" and G: "G = abs_graph VA EE" using assms(1) by (auto simp: mg_rep_def)
  have "step_ok n N (graph_cost N * b) VA EE sq x (mg_step x g)" by (rule mg_step_ok [OF _ assms(2)]) (use g in simp)
  then show ?thesis unfolding step_ok_def mg_rep_def G by metis
qed

interpretation mgr: rgraph mg_add_edge mg_has_edge mg_remove_edge mg_add_vertex "\<lambda>v t. mg_remove_vertex v [] t" mg_tick "mg_rep n N" "{..<n}" "{0..<N}" for n N
proof (unfold_locales, goal_cases)
  case (1 b g G t s d w)
  then show ?case using mg_step_rep [OF 1(1), of "AddEdge s d w t"] by auto
next
  case (2 b g G t s d w)
  then show ?case using mg_step_rep [OF 2(1), of "AddEdge s d w t"] by simp
next
  case (3 b g G t s d)
  then show ?case using mg_step_rep [OF 3(1), of "HasEdge s d t"] by simp
next
  case (4 b g G t s d)
  then show ?case using mg_step_rep [OF 4(1), of "RemoveEdge s d t"] by simp
next
  case (5 b g G t v us)
  then show ?case using mg_step_rep [OF 5(1), of "AddVertex v us t"] by (auto split: if_splits)
next
  case (6 b g G t v)
  then show ?case using mg_step_rep [OF 6(1), of "RemoveVertex v t"] by (auto split: if_splits)
next
  case (7 b g G t)
  then show ?case using mg_step_rep [OF 7(1), of "GraphTick t"] by (auto simp: rbind_eq_Inr_iff)
qed

section \<open>Operations while a vertex is being removed\<close>

definition mg_others :: "graph_op list \<Rightarrow> graph \<Rightarrow> graph res" where
  "mg_others xs g = rbind (obj_run mg_step xs g) (\<lambda>(_, g'). Inr g')"

lemma mg_run_moved:
  assumes "graph_sim n N (graph_cost N * length xs + b) g VA EE sq" "list_all (graph_legal {..<n} {0..<N}) xs"
  shows "\<exists>g' VA' EE' sq'. mg_others xs g = Inr g' \<and> graph_sim n N b g' VA' EE' sq' \<and> moved (length xs) VA EE sq VA' EE' sq'
    \<and> abs_graph VA' EE' = snd (spec_run graph_spec xs (abs_graph VA EE))"
  using assms
proof (induction xs arbitrary: g VA EE sq)
  case Nil
  then show ?case by (intro exI [of _ g] exI [of _ VA] exI [of _ EE] exI [of _ sq]) (simp add: mg_others_def)
next
  case (Cons x xs)
  have "graph_sim n N (graph_cost N + (graph_cost N * length xs + b)) g VA EE sq" using Cons.prems(1) by (simp add: algebra_simps)
  from mg_step_ok [OF this, of x] Cons.prems(2) have "step_ok n N (graph_cost N * length xs + b) VA EE sq x (mg_step x g)" by simp
  then obtain g1 VA1 EE1 sq1 where
    s: "mg_step x g = Inr (fst (graph_spec x (abs_graph VA EE)), g1)" "graph_sim n N (graph_cost N * length xs + b) g1 VA1 EE1 sq1"
      "moved 1 VA EE sq VA1 EE1 sq1" "abs_graph VA1 EE1 = snd (graph_spec x (abs_graph VA EE))" unfolding step_ok_def by blast
  from Cons.IH [OF s(2)] Cons.prems(2) obtain g' VA' EE' sq' where
    r: "mg_others xs g1 = Inr g'" "graph_sim n N b g' VA' EE' sq'" "moved (length xs) VA1 EE1 sq1 VA' EE' sq'"
      "abs_graph VA' EE' = snd (spec_run graph_spec xs (abs_graph VA1 EE1))" by auto
  have "mg_others (x # xs) g = Inr g'" using s(1) r(1) by (auto simp: mg_others_def rbind_eq_Inr_iff)
  moreover have "moved (length (x # xs)) VA EE sq VA' EE' sq'" using moved_trans [OF s(3) r(3)] by simp
  ultimately show ?case using r(2,4) s(4)
    by (intro exI [of _ g'] exI [of _ VA'] exI [of _ EE'] exI [of _ sq']) (simp add: case_prod_beta)
qed

lemma lock_neighbours_others:
  assumes "graph_sim n N (graph_cost N * length (concat hs) + b) g VA EE sq" "list_all (list_all (graph_legal {..<n} {0..<N})) hs"
    "moved k VA0 EE0 sq0 VA EE sq" "k + length (concat hs) < 2 ^ 32" "set us \<subseteq> neighbours EE0 v"
    and v: "VA0 v \<noteq> None" "graph_shape N VA0 EE0"
  shows "\<exists>g' VA' EE' sq'. lock_neighbours v (of_nat (sq0 v)) us (map mg_others hs) g = Inr g'
    \<and> graph_sim n N (graph_cost N * length (concat (drop (length us) hs)) + b) g' VA' EE' sq'
    \<and> moved (k + length (concat (take (length us) hs))) VA0 EE0 sq0 VA' EE' sq'
    \<and> abs_graph VA' EE' = snd (spec_run graph_spec (concat (take (length us) hs)) (abs_graph VA EE))"
  using assms(1-5)
proof (induction us arbitrary: hs g VA EE sq k)
  case Nil
  then show ?case by (intro exI [of _ g] exI [of _ VA] exI [of _ EE] exI [of _ sq]) simp
next
  case (Cons u us)
  define h where "h = (case hs of [] \<Rightarrow> [] | h # _ \<Rightarrow> h)"
  have h: "concat hs = h @ concat (tl hs)" "concat (take (Suc m) hs) = h @ concat (take m (tl hs))" "drop (Suc m) hs = drop m (tl hs)" for m
    by (cases hs; simp add: h_def)+
  have lg: "list_all (graph_legal {..<n} {0..<N}) h" "list_all (list_all (graph_legal {..<n} {0..<N})) (tl hs)"
    using Cons.prems(2) by (cases hs; simp add: h_def)+
  have "graph_sim n N (graph_cost N * length h + (graph_cost N * length (concat (tl hs)) + b)) g VA EE sq"
    using Cons.prems(1) unfolding h(1) by (simp add: algebra_simps)
  from mg_run_moved [OF this lg(1)] obtain g1 VA1 EE1 sq1 where
    r: "mg_others h g = Inr g1" "graph_sim n N (graph_cost N * length (concat (tl hs)) + b) g1 VA1 EE1 sq1" "moved (length h) VA EE sq VA1 EE1 sq1"
      "abs_graph VA1 EE1 = snd (spec_run graph_spec h (abs_graph VA EE))" by blast
  have f: "(case map mg_others hs of [] \<Rightarrow> Inr g | f # _ \<Rightarrow> f g) = Inr g1" using r(1) by (cases hs) (simp_all add: h_def mg_others_def)
  note mv = moved_trans [OF Cons.prems(3) r(3)]
  have T: "table_ok N (vMeta g1) VA1 EE1 sq1" "numVertices g1 = N" using r(2) by (auto simp: graph_sim_def)
  have q: "get_seq v (vMeta g1) = of_nat (sq0 v) \<longleftrightarrow> sq1 v = sq0 v"
    using T(1) mv of_nat_seq_eq [of "sq0 v" "sq1 v" "k + length h"] Cons.prems(4) unfolding h(1) by (simp add: table_ok_def moved_def)
  have "vertex u (vMeta g1) \<noteq> None" if "sq1 v = sq0 v"
  proof -
    have "graph_shape N VA1 EE1" using T(1) by (simp add: table_ok_def)
    then show ?thesis using neighbours_in(2) [of N VA1 EE1 v] moved_unchanged [OF mv that] v(1) Cons.prems(5) table_vertex [OF T(1), of u] by auto
  qed
  moreover have "lock_vertex u g1 = Inr ()" using neighbours_in(1) [OF v(2,1)] Cons.prems(5) T(2) by (intro lock_ok) auto
  ultimately have l: "lock_neighbours v (of_nat (sq0 v)) (u # us) (map mg_others hs) g = lock_neighbours v (of_nat (sq0 v)) us (map mg_others (tl hs)) g1"
    using q by (auto simp: f map_tl)
  have "k + length h + length (concat (tl hs)) < 2 ^ 32" "set us \<subseteq> neighbours EE0 v" using Cons.prems(4,5) unfolding h(1) by simp_all
  from Cons.IH [OF r(2) lg(2) mv this] obtain g' VA' EE' sq' where
    i: "lock_neighbours v (of_nat (sq0 v)) us (map mg_others (tl hs)) g1 = Inr g'"
      "graph_sim n N (graph_cost N * length (concat (drop (length us) (tl hs))) + b) g' VA' EE' sq'"
      "moved (k + length h + length (concat (take (length us) (tl hs)))) VA0 EE0 sq0 VA' EE' sq'"
      "abs_graph VA' EE' = snd (spec_run graph_spec (concat (take (length us) (tl hs))) (abs_graph VA1 EE1))" by blast
  then show ?case unfolding l list.size(4) add_Suc_right add_0_right h(2,3)
    by (intro exI [of _ g'] exI [of _ VA'] exI [of _ EE'] exI [of _ sq']) (simp add: spec_run_append r(4) add.assoc)
qed

lemma remove_vertex_among_others:
  assumes "graph_sim n N (graph_cost N * Suc (length (concat hs)) + b) g VA EE sq" "list_all (list_all (graph_legal {..<n} {0..<N})) hs"
    "length (concat hs) < 2 ^ 32" "tid < n" "0 \<le> v" "v < N"
  shows "\<exists>k \<le> length hs. \<exists>VA1 EE1 sq1. abs_graph VA1 EE1 = snd (spec_run graph_spec (concat (take k hs)) (abs_graph VA EE))
    \<and> step_ok n N b VA1 EE1 sq1 (RemoveVertex v tid) (mg_remove_vertex v (map mg_others hs) tid g)"
  using assms
proof (induction "length hs" arbitrary: hs g VA EE sq rule: less_induct)
  case less
  show ?case
  proof (cases "VA v = None")
    case True
    have "graph_sim n N b g VA EE sq" by (rule graph_sim_mono [OF less.prems(1)]) simp
    from remove_absent [OF this True less.prems(5,6)] show ?thesis
      by (intro exI [of _ 0] conjI exI [of _ VA] exI [of _ EE] exI [of _ sq]) simp_all
  next
    case False
    have sh: "graph_shape N VA EE" using less.prems(1) by (simp add: graph_sim_def table_ok_def)
    obtain us where us: "distinct us" "set us = neighbours EE v"
      "mg_remove_vertex v (map mg_others hs) tid g = rbind (lock_neighbours v (of_nat (sq v)) us (map mg_others hs) g) (\<lambda>g1.
         if get_seq v (vMeta g1) \<noteq> of_nat (sq v) then (if us = [] \<or> map mg_others hs = [] then Inl Diverges else mg_remove_vertex v (drop (length us) (map mg_others hs)) tid g1)
         else rbind (cut_vertex tid v us g1) (\<lambda>g2. Inr (True, g2)))"
      using remove_vertex_turn [OF less.prems(1) False] by blast
    let ?c = "graph_cost N"
    have "graph_sim n N (?c * length (concat hs) + (?c + b)) g VA EE sq" using less.prems(1) by (simp add: algebra_simps)
    from lock_neighbours_others [OF this less.prems(2) moved_refl [of 0], of us v] us(2) False sh less.prems(3) obtain g1 VA1 EE1 sq1 where
      r: "lock_neighbours v (of_nat (sq v)) us (map mg_others hs) g = Inr g1" "graph_sim n N (?c * length (concat (drop (length us) hs)) + (?c + b)) g1 VA1 EE1 sq1"
        "moved (length (concat (take (length us) hs))) VA EE sq VA1 EE1 sq1"
        "abs_graph VA1 EE1 = snd (spec_run graph_spec (concat (take (length us) hs)) (abs_graph VA EE))" by auto
    have sp: "concat hs = concat (take (length us) hs) @ concat (drop (length us) hs)" by (metis append_take_drop_id concat_append)
    have lt: "length (concat (take (length us) hs)) < 2 ^ 32" "length (concat (drop (length us) hs)) < 2 ^ 32" using less.prems(3) unfolding sp by simp_all
    have q: "get_seq v (vMeta g1) = of_nat (sq v) \<longleftrightarrow> sq1 v = sq v"
      using r(2,3) of_nat_seq_eq [OF _ _ lt(1), of "sq v" "sq1 v"] by (simp add: graph_sim_def table_ok_def moved_def)
    show ?thesis
    proof (cases "sq1 v = sq v")
      case True
      have g1: "graph_sim n N (Suc (8 * nat N + (b + 4))) g1 VA1 EE1 sq1" by (rule graph_sim_mono [OF r(2)]) (simp add: graph_cost_def)
      have "step_ok n N b VA1 EE1 sq1 (RemoveVertex v tid) (rbind (cut_vertex tid v us g1) (\<lambda>g2. Inr (True, g2)))"
        by (rule remove_vertex_finish [OF g1 less.prems(4) _ us(1)]) (use moved_unchanged [OF r(3) True] False us(2) in simp_all)
      then have "step_ok n N b VA1 EE1 sq1 (RemoveVertex v tid) (mg_remove_vertex v (map mg_others hs) tid g)" using us(3) r(1) q True by simp
      then show ?thesis using r(4) by (intro exI [of _ "min (length us) (length hs)"] conjI exI [of _ VA1] exI [of _ EE1] exI [of _ sq1])
          (simp_all add: min_def)
    next
      case changed: False
      have ne: "us \<noteq> []" using us(2) by (auto simp: neighbours_def)
      have "hs \<noteq> []" using r(3) changed by (auto simp: moved_def le_antisym)
      then have m: "mg_remove_vertex v (map mg_others hs) tid g = mg_remove_vertex v (map mg_others (drop (length us) hs)) tid g1"
        using us(3) r(1) q changed ne by (simp add: drop_map)
      have "length (drop (length us) hs) < length hs" using ne \<open>hs \<noteq> []\<close> by simp
      moreover have "graph_sim n N (?c * Suc (length (concat (drop (length us) hs))) + b) g1 VA1 EE1 sq1" using r(2) by (simp add: algebra_simps)
      moreover have "list_all (list_all (graph_legal {..<n} {0..<N})) (drop (length us) hs)" using less.prems(2) by (auto simp: list_all_iff dest: in_set_dropD)
      ultimately obtain k VA2 EE2 sq2 where
        i: "k \<le> length (drop (length us) hs)" "abs_graph VA2 EE2 = snd (spec_run graph_spec (concat (take k (drop (length us) hs))) (abs_graph VA1 EE1))"
          "step_ok n N b VA2 EE2 sq2 (RemoveVertex v tid) (mg_remove_vertex v (map mg_others (drop (length us) hs)) tid g1)"
        using less.hyps [OF _ _ _ lt(2) less.prems(4-)] by blast
      have "concat (take (length us + k) hs) = concat (take (length us) hs) @ concat (take k (drop (length us) hs))" by (simp add: take_add)
      then show ?thesis using i r(4) unfolding m
        by (intro exI [of _ "min (length us + k) (length hs)"] conjI exI [of _ VA2] exI [of _ EE2] exI [of _ sq2]) (auto simp: min_def spec_run_append)
    qed
  qed
qed

section \<open>Construction\<close>

text \<open>The graph the random numbers describe.\<close>

definition new_graph :: "int \<Rightarrow> (int \<Rightarrow> bool) \<Rightarrow> (int \<Rightarrow> int list) \<Rightarrow> agraph" where
  "new_graph N coin picks = (let vs = {i. 0 \<le> i \<and> i < N \<and> coin i} in
     \<lparr>ag_verts = vs, ag_edges = (\<lambda>(i, k). if i \<in> vs \<and> k \<in> vs \<and> k \<noteq> i \<and> k \<in> set (picks i) then Some (-1) else None)\<rparr>)"

definition new_cost :: "int \<Rightarrow> (int \<Rightarrow> int list) \<Rightarrow> nat" where
  "new_cost N picks = nat N + length (concat (map picks [0..N - 1]))"

text \<open>All edges of the new graph have the weight -1.\<close>

definition unweighted :: "(edge \<rightharpoonup> addr \<times> int) \<Rightarrow> bool" where
  "unweighted EE \<longleftrightarrow> (\<forall>p a w. EE p = Some (a, w) \<longrightarrow> w = -1)"

lemma fill_vertices_ok:
  assumes "outside_op n (length is + b) tid ps ds V" "graph_vals V VA EE" "table_ok N T VA EE (\<lambda>_. 0)" "distinct is"
    "\<forall>i \<in> set is. VA i = None \<and> 0 \<le> i \<and> i < N" "tid < n"
  shows "\<exists>ds' T' V' VA' ps'. rfold (fill_vertex tid coin) is (ds, T) = Inr (ds', T') \<and> outside_op n b tid ps' ds' V' \<and> graph_vals V' VA' EE
    \<and> table_ok N T' VA' EE (\<lambda>_. 0) \<and> length ps' \<le> length ps + length is \<and> dom VA' = dom VA \<union> {i \<in> set is. coin i}"
  using assms
proof (induction "is" arbitrary: ds T V VA ps)
  case Nil
  then show ?case by (intro exI [of _ ds] exI [of _ T] exI [of _ V] exI [of _ VA] exI [of _ ps]) simp
next
  case (Cons i js)
  have o: "outside_op n (Suc (length js + b)) tid ps ds V" using Cons.prems(1) by simp
  have s0: "vertexSeqs (T i) = 0" using Cons.prems(3) by (simp add: table_ok_def get_seq_def)
  have dj: "distinct js" using Cons.prems(4) by simp
  have i: "VA i = None" "0 \<le> i" "i < N" using Cons.prems(5) by simp_all
  show ?case
  proof (cases "coin i")
    case True
    from pnew_outside [OF o Cons.prems(6), of "Vertex i i"] obtain a ds1 where
      p: "pnew tid (Vertex i i) ds = Inr (a, ds1)" "V a = None" "outside_op n (length js + b) tid (ps @ [a]) ds1 (V(a \<mapsto> Vertex i i))" by blast
    let ?v = "\<lparr>tv_payload = a, tv_id = i, adjacency_list = [], dest_list = []\<rparr>"
    have "T(i := \<lparr>idxToVertex = Some ?v, vertexSeqs = 0\<rparr>) = set_vertex i (Some ?v) T" using s0 by (cases "T i") (auto simp: set_vertex_def fun_eq_iff)
    then have f: "fill_vertex tid coin i (ds, T) = Inr (ds1, set_vertex i (Some ?v) T)" using True p(1) by (simp add: fill_vertex_def new_vertex_def)
    have "\<forall>j \<in> set js. (VA(i \<mapsto> a)) j = None \<and> 0 \<le> j \<and> j < N" using Cons.prems(4,5) by auto
    from Cons.IH [OF p(3) graph_vals_new_vertex [OF Cons.prems(2) p(2) i(1)] table_new_vertex [OF Cons.prems(3) i] dj this Cons.prems(6)]
    obtain ds' T' V' VA' ps' where
      r: "rfold (fill_vertex tid coin) js (ds1, set_vertex i (Some ?v) T) = Inr (ds', T')" "outside_op n b tid ps' ds' V'" "graph_vals V' VA' EE"
        "table_ok N T' VA' EE (\<lambda>_. 0)" "length ps' \<le> length (ps @ [a]) + length js" "dom VA' = dom (VA(i \<mapsto> a)) \<union> {j \<in> set js. coin j}"
      by blast
    have "dom VA' = dom VA \<union> {j \<in> set (i # js). coin j}" using r(6) True by auto
    then show ?thesis using f r(1-5) by (intro exI [of _ ds'] exI [of _ T'] exI [of _ V'] exI [of _ VA'] exI [of _ ps']) simp
  next
    case False
    have "idxToVertex (T i) = None" using table_vertex [OF Cons.prems(3), of i] i(1) by (simp add: vertex_def)
    then have "T(i := \<lparr>idxToVertex = None, vertexSeqs = 0\<rparr>) = T" using s0 by (cases "T i") (auto simp: fun_eq_iff)
    then have f: "fill_vertex tid coin i (ds, T) = Inr (ds, T)" using False by (simp add: fill_vertex_def)
    have "outside_op n (length js + b) tid ps ds V" by (rule outside_mono [OF o]) simp
    from Cons.IH [OF this Cons.prems(2,3) _ _ Cons.prems(6)] Cons.prems(4,5) obtain ds' T' V' VA' ps' where
      r: "rfold (fill_vertex tid coin) js (ds, T) = Inr (ds', T')" "outside_op n b tid ps' ds' V'" "graph_vals V' VA' EE"
        "table_ok N T' VA' EE (\<lambda>_. 0)" "length ps' \<le> length ps + length js" "dom VA' = dom VA \<union> {j \<in> set js. coin j}" by auto
    have "dom VA' = dom VA \<union> {j \<in> set (i # js). coin j}" using r(6) False by auto
    then show ?thesis using f r(1-5) by (intro exI [of _ ds'] exI [of _ T'] exI [of _ V'] exI [of _ VA'] exI [of _ ps']) simp
  qed
qed

lemma fill_edge_list_ok:
  assumes "outside_op n (length ks + b) tid ps ds V" "graph_vals V VA EE" "table_ok N T VA EE sq" "VA i \<noteq> None" "tid < n" "unweighted EE"
  shows "\<exists>ds' T' V' EE' ps'. rfold (fill_edge tid i) ks (ds, T) = Inr (ds', T') \<and> outside_op n b tid ps' ds' V' \<and> graph_vals V' VA EE'
    \<and> table_ok N T' VA EE' sq \<and> unweighted EE' \<and> length ps' \<le> length ps + length ks
    \<and> dom EE' = dom EE \<union> Pair i ` {k \<in> set ks. k \<noteq> i \<and> VA k \<noteq> None}"
  using assms
proof (induction ks arbitrary: ds T V EE ps)
  case Nil
  then show ?case by (intro exI [of _ ds] exI [of _ T] exI [of _ V] exI [of _ EE] exI [of _ ps]) simp
next
  case (Cons k ks)
  have o: "outside_op n (Suc (length ks + b)) tid ps ds V" using Cons.prems(1) by simp
  show ?case
  proof (cases "k = i \<or> VA k = None")
    case True
    have f: "fill_edge tid i k (ds, T) = Inr (ds, T)" using True table_vertex [OF Cons.prems(3), of k] by (auto simp: fill_edge_def)
    have "outside_op n (length ks + b) tid ps ds V" by (rule outside_mono [OF o]) simp
    from Cons.IH [OF this Cons.prems(2-)] obtain ds' T' V' EE' ps' where
      r: "rfold (fill_edge tid i) ks (ds, T) = Inr (ds', T')" "outside_op n b tid ps' ds' V'" "graph_vals V' VA EE'" "table_ok N T' VA EE' sq"
        "unweighted EE'" "length ps' \<le> length ps + length ks" "dom EE' = dom EE \<union> Pair i ` {k \<in> set ks. k \<noteq> i \<and> VA k \<noteq> None}" by (elim exE conjE) (rule that)
    have "dom EE' = dom EE \<union> Pair i ` {j \<in> set (k # ks). j \<noteq> i \<and> VA j \<noteq> None}" using r(7) True by auto
    then show ?thesis using f r(1-6) by (intro exI [of _ ds'] exI [of _ T'] exI [of _ V'] exI [of _ EE'] exI [of _ ps']) simp
  next
    case False
    from pnew_outside [OF o Cons.prems(5), of "Relation (-1) i k"] obtain a ds1 where
      p: "pnew tid (Relation (-1) i k) ds = Inr (a, ds1)" "V a = None" "outside_op n (length ks + b) tid (ps @ [a]) ds1 (V(a \<mapsto> Relation (-1) i k))" by blast
    have ik: "i \<noteq> k" "VA k \<noteq> None" using False by auto
    obtain T1 where T1: "emplace_both (i, k) a T = Inr (EE (i, k) = None, EE (i, k) = None, T1)"
        "EE (i, k) = None \<Longrightarrow> table_ok N T1 VA (EE((i, k) \<mapsto> (a, -1))) sq" "EE (i, k) \<noteq> None \<Longrightarrow> table_ok N T1 VA EE sq"
      by (rule table_emplace [OF Cons.prems(3) ik(1) Cons.prems(4) ik(2), of a "-1"]) (rule that)
    have v: "vertex k T \<noteq> None" using ik(2) table_vertex [OF Cons.prems(3), of k] by simp
    show ?thesis
    proof (cases "EE (i, k) = None")
      case None: True
      have f: "fill_edge tid i k (ds, T) = Inr (ds1, T1)" using False v p(1) T1(1) None by (auto simp: fill_edge_def rassert_def)
      have "unweighted (EE((i, k) \<mapsto> (a, -1)))" using Cons.prems(6) by (auto simp: unweighted_def)
      from Cons.IH [OF p(3) graph_vals_new_edge [OF Cons.prems(2) p(2) None] T1(2) [OF None] Cons.prems(4,5) this] obtain ds' T' V' EE' ps' where
        r: "rfold (fill_edge tid i) ks (ds1, T1) = Inr (ds', T')" "outside_op n b tid ps' ds' V'" "graph_vals V' VA EE'" "table_ok N T' VA EE' sq"
          "unweighted EE'" "length ps' \<le> length (ps @ [a]) + length ks"
          "dom EE' = dom (EE((i, k) \<mapsto> (a, -1))) \<union> Pair i ` {k \<in> set ks. k \<noteq> i \<and> VA k \<noteq> None}" by (elim exE conjE) (rule that)
      have "dom EE' = dom EE \<union> Pair i ` {j \<in> set (k # ks). j \<noteq> i \<and> VA j \<noteq> None}" using r(7) False by auto
      then show ?thesis using f r(1-6) by (intro exI [of _ ds'] exI [of _ T'] exI [of _ V'] exI [of _ EE'] exI [of _ ps']) simp
    next
      case Some: False
      from pdelete_outside [OF p(3) _ Cons.prems(5), of a "Relation (-1) i k"] obtain ds2 where
        d2: "pdelete tid a ds1 = Inr ds2" "outside_op n (length ks + b) tid (remove1 a (ps @ [a])) ds2 V" by (auto simp: fun_upd_idem [of V a, OF p(2)])
      have f: "fill_edge tid i k (ds, T) = Inr (ds2, T1)" using False v p(1) T1(1) d2(1) Some by (auto simp: fill_edge_def rassert_def)
      from Cons.IH [OF d2(2) Cons.prems(2) T1(3) [OF Some] Cons.prems(4-)] obtain ds' T' V' EE' ps' where
        r: "rfold (fill_edge tid i) ks (ds2, T1) = Inr (ds', T')" "outside_op n b tid ps' ds' V'" "graph_vals V' VA EE'" "table_ok N T' VA EE' sq"
          "unweighted EE'" "length ps' \<le> length (remove1 a (ps @ [a])) + length ks"
          "dom EE' = dom EE \<union> Pair i ` {k \<in> set ks. k \<noteq> i \<and> VA k \<noteq> None}" by (elim exE conjE) (rule that)
      have "dom EE' = dom EE \<union> Pair i ` {j \<in> set (k # ks). j \<noteq> i \<and> VA j \<noteq> None}" using r(7) Some by auto
      moreover have "length (remove1 a (ps @ [a])) = length ps" by (simp add: length_remove1)
      ultimately show ?thesis using f r(1-6) by (intro exI [of _ ds'] exI [of _ T'] exI [of _ V'] exI [of _ EE'] exI [of _ ps']) simp
    qed
  qed
qed

lemma fill_edges_ok:
  assumes "outside_op n (length (concat (map picks is)) + b) tid ps ds V" "graph_vals V VA EE" "table_ok N T VA EE sq" "tid < n" "unweighted EE"
  shows "\<exists>ds' T' V' EE' ps'. rfold (fill_edges tid picks) is (ds, T) = Inr (ds', T') \<and> outside_op n b tid ps' ds' V' \<and> graph_vals V' VA EE'
    \<and> table_ok N T' VA EE' sq \<and> unweighted EE' \<and> length ps' \<le> length ps + length (concat (map picks is))
    \<and> dom EE' = dom EE \<union> {(i, k). i \<in> set is \<and> VA i \<noteq> None \<and> k \<in> set (picks i) \<and> k \<noteq> i \<and> VA k \<noteq> None}"
  using assms
proof (induction "is" arbitrary: ds T V EE ps)
  case Nil
  then show ?case by (intro exI [of _ ds] exI [of _ T] exI [of _ V] exI [of _ EE] exI [of _ ps]) simp
next
  case (Cons i js)
  let ?c = "length (concat (map picks js))"
  have o: "outside_op n (length (picks i) + (?c + b)) tid ps ds V" using Cons.prems(1) by (simp add: add.assoc)
  have "\<exists>ds1 T1 V1 EE1 ps1. fill_edges tid picks i (ds, T) = Inr (ds1, T1) \<and> outside_op n (?c + b) tid ps1 ds1 V1 \<and> graph_vals V1 VA EE1
    \<and> table_ok N T1 VA EE1 sq \<and> unweighted EE1 \<and> length ps1 \<le> length ps + length (picks i)
    \<and> dom EE1 = dom EE \<union> {(i', k). i' = i \<and> VA i \<noteq> None \<and> k \<in> set (picks i) \<and> k \<noteq> i \<and> VA k \<noteq> None}"
  proof (cases "VA i = None")
    case True
    have "outside_op n (?c + b) tid ps ds V" by (rule outside_mono [OF o]) simp
    then show ?thesis using Cons.prems(2-5) True table_vertex [OF Cons.prems(3), of i]
      by (intro exI [of _ ds] exI [of _ T] exI [of _ V] exI [of _ EE] exI [of _ ps]) (simp add: fill_edges_def)
  next
    case False
    from fill_edge_list_ok [OF o Cons.prems(2,3) False Cons.prems(4,5)] obtain ds1 T1 V1 EE1 ps1 where
      r: "rfold (fill_edge tid i) (picks i) (ds, T) = Inr (ds1, T1)" "outside_op n (?c + b) tid ps1 ds1 V1" "graph_vals V1 VA EE1"
        "table_ok N T1 VA EE1 sq" "unweighted EE1" "length ps1 \<le> length ps + length (picks i)"
        "dom EE1 = dom EE \<union> Pair i ` {k \<in> set (picks i). k \<noteq> i \<and> VA k \<noteq> None}" by (elim exE conjE) (rule that)
    have "vertex i T \<noteq> None" using False table_vertex [OF Cons.prems(3), of i] by simp
    then have f: "fill_edges tid picks i (ds, T) = Inr (ds1, T1)" using r(1) by (auto simp: fill_edges_def)
    have "Pair i ` {k \<in> set (picks i). k \<noteq> i \<and> VA k \<noteq> None} = {(i', k). i' = i \<and> VA i \<noteq> None \<and> k \<in> set (picks i) \<and> k \<noteq> i \<and> VA k \<noteq> None}"
      using False by (auto simp: image_iff)
    then show ?thesis using f r by (intro exI [of _ ds1] exI [of _ T1] exI [of _ V1] exI [of _ EE1] exI [of _ ps1] conjI) (simp_all only:)
  qed
  then obtain ds1 T1 V1 EE1 ps1 where
    a: "fill_edges tid picks i (ds, T) = Inr (ds1, T1)" "outside_op n (?c + b) tid ps1 ds1 V1" "graph_vals V1 VA EE1"
      "table_ok N T1 VA EE1 sq" "unweighted EE1" "length ps1 \<le> length ps + length (picks i)"
      "dom EE1 = dom EE \<union> {(i', k). i' = i \<and> VA i \<noteq> None \<and> k \<in> set (picks i) \<and> k \<noteq> i \<and> VA k \<noteq> None}" by (elim exE conjE) (rule that)
  from Cons.IH [OF a(2-4) Cons.prems(4) a(5)] obtain ds' T' V' EE' ps' where
    r: "rfold (fill_edges tid picks) js (ds1, T1) = Inr (ds', T')" "outside_op n b tid ps' ds' V'" "graph_vals V' VA EE'"
      "table_ok N T' VA EE' sq" "unweighted EE'" "length ps' \<le> length ps1 + ?c"
      "dom EE' = dom EE1 \<union> {(i, k). i \<in> set js \<and> VA i \<noteq> None \<and> k \<in> set (picks i) \<and> k \<noteq> i \<and> VA k \<noteq> None}" by (elim exE conjE) (rule that)
  have "dom EE' = dom EE \<union> {(j, k). j \<in> set (i # js) \<and> VA j \<noteq> None \<and> k \<in> set (picks j) \<and> k \<noteq> j \<and> VA k \<noteq> None}"
    unfolding r(7) a(7) by auto
  moreover have "rfold (fill_edges tid picks) (i # js) (ds, T) = Inr (ds', T')" using a(1) r(1) by simp
  moreover have "length ps' \<le> length ps + length (concat (map picks (i # js)))" using r(6) a(6) by simp
  ultimately show ?case using r(2-5) by blast
qed

lemma mg_new_ok:
  assumes d: "idle n (2 * new_cost N picks + Suc b) ds Map.empty" and t: "tid < n"
  shows "\<exists>g VA EE. mg_new tid N coin picks ds = Inr g \<and> graph_sim n N b g VA EE (\<lambda>_. 0) \<and> abs_graph VA EE = new_graph N coin picks"
proof -
  let ?is = "[0..N - 1]" and ?c = "length (concat (map picks [0..N - 1]))"
  let ?b = "Suc (new_cost N picks + b)"
  have "outside_op n (length ?is + (?c + ?b)) tid [] ds Map.empty"
    by (rule outside_mono [of n "2 * new_cost N picks + Suc b"]) (use d idle_outside [of n _ ds Map.empty tid] in \<open>simp_all add: new_cost_def\<close>)
  moreover have "graph_vals Map.empty Map.empty Map.empty" by (simp add: graph_vals_def)
  moreover have "table_ok N empty_meta Map.empty Map.empty (\<lambda>_. 0)"
    by (simp add: table_ok_def lists_ok_def graph_shape_def vertex_def get_seq_def empty_meta_def)
  ultimately obtain ds1 T1 V1 VA ps1 where
    v: "rfold (fill_vertex tid coin) ?is (ds, empty_meta) = Inr (ds1, T1)" "outside_op n (?c + ?b) tid ps1 ds1 V1" "graph_vals V1 VA Map.empty"
      "table_ok N T1 VA Map.empty (\<lambda>_. 0)" "length ps1 \<le> length ?is" "dom VA = {i \<in> set ?is. coin i}"
    using fill_vertices_ok [of n ?is "?c + ?b" tid "[]" ds Map.empty Map.empty Map.empty N empty_meta coin] t by auto
  have "unweighted Map.empty" by (simp add: unweighted_def)
  from fill_edges_ok [OF v(2-4) t this] obtain ds2 T2 V2 EE ps2 where
    e: "rfold (fill_edges tid picks) ?is (ds1, T1) = Inr (ds2, T2)" "outside_op n ?b tid ps2 ds2 V2" "graph_vals V2 VA EE"
      "table_ok N T2 VA EE (\<lambda>_. 0)" "unweighted EE" "length ps2 \<le> length ps1 + ?c"
      "dom EE = dom (Map.empty :: edge \<rightharpoonup> addr \<times> int) \<union> {(i, k). i \<in> set ?is \<and> VA i \<noteq> None \<and> k \<in> set (picks i) \<and> k \<noteq> i \<and> VA k \<noteq> None}" by (elim exE conjE) (rule that)
  have "outside_op n (Suc (length ps2 + b)) tid ps2 ds2 V2"
    by (rule outside_mono [OF e(2)]) (use e(6) v(5) in \<open>simp add: new_cost_def\<close>)
  from begin_op_inside [OF this t] obtain ds3 where d3: "begin_op tid ds2 = Inr ds3" "inside_op n b tid ps2 ds3 V2" by blast
  from end_op_outside(1) [OF d3(2)] obtain ds4 where d4: "end_op tid ds3 = Inr ds4" "idle n b ds4 V2" by blast
  let ?g = "\<lparr>mg_ds = ds4, numVertices = N, vMeta = T2\<rparr>"
  have "mg_new tid N coin picks ds = Inr ?g" using v(1) e(1) d3(1) d4(1) by (simp add: mg_new_def)
  moreover have "graph_sim n N b ?g VA EE (\<lambda>_. 0)" using e(3,4) d4(2) by (auto simp: graph_sim_def)
  moreover have "abs_graph VA EE = new_graph N coin picks"
  proof (rule agraph.equality)
    show v: "ag_verts (abs_graph VA EE) = ag_verts (new_graph N coin picks)" using v(6) by (auto simp: new_graph_def)
    have "map_option snd (EE p) = (if p \<in> dom EE then Some (-1) else None)" for p
      using e(5) by (cases "EE p"; cases p) (auto simp: unweighted_def)
    moreover have "(i, k) \<in> dom EE \<longleftrightarrow> ag_edges (new_graph N coin picks) (i, k) = Some (-1)" for i k
    proof -
      have "VA j \<noteq> None \<longleftrightarrow> 0 \<le> j \<and> j < N \<and> coin j" for j using \<open>dom VA = {i \<in> set ?is. coin i}\<close> by (simp only: domIff [symmetric]) simp
      then show ?thesis unfolding e(7) by (simp add: new_graph_def Let_def) blast
    qed
    ultimately show "ag_edges (abs_graph VA EE) = ag_edges (new_graph N coin picks)"
      by (auto simp: fun_eq_iff new_graph_def Let_def split: if_splits)
  qed simp
  ultimately show ?thesis by blast
qed

section \<open>What the operations leave behind\<close>

lemma lock_all_bad: "i \<in> set is \<Longrightarrow> i < 0 \<or> numVertices g \<le> i \<Longrightarrow> lock_all is g = Inl BadAccess"
  unfolding lock_all_def by (induction "is") (auto simp: lock_vertex_def)

text \<open>
  The numbers \<^verbatim>\<open>add_vertex\<close> draws go up to and including \<^verbatim>\<open>numVertices\<close>; drawing that one, it takes a lock outside the array.
\<close>

theorem add_vertex_out_of_range:
  assumes "graph_sim n N (Suc b) g VA EE sq" "tid < n" "N \<in> drawn us"
  shows "mg_add_vertex v us tid g = Inl BadAccess"
proof -
  obtain V where V: "idle n (Suc b) (mg_ds g) V" "numVertices g = N" using assms(1) by (auto simp: graph_sim_def)
  have "outside_op n (Suc b) tid [] (mg_ds g) V" using V(1) idle_outside [of n _ "mg_ds g" V tid] by simp
  from pnew_outside [OF this assms(2), of "Vertex v v"] obtain a ds where "pnew tid (Vertex v v) (mg_ds g) = Inr (a, ds)" by blast
  moreover have "lock_all (sample_vector v us) g = Inl BadAccess"
    by (rule lock_all_bad [of N]) (use assms(3) V(2) in \<open>simp_all add: sample_vector_set\<close>)
  ultimately show ?thesis by (simp add: mg_add_vertex_def Let_def new_vertex_def)
qed

text \<open>
  \<^verbatim>\<open>add_edge\<close> refuses a loop only after it has allocated the payload, and does not delete it: the payload waits for the thread's next
  operation to be made persistent.
\<close>

theorem add_edge_loop_leaks:
  assumes "graph_sim n N (Suc b) g VA EE sq" "tid < n"
  shows "\<exists>a ds V. mg_add_edge s s w tid g = Inr (False, g\<lparr>mg_ds := ds\<rparr>) \<and> V a = Some (Relation w s s) \<and> outside_op n b tid [a] ds V"
proof -
  obtain V where V: "idle n (Suc b) (mg_ds g) V" using assms(1) by (auto simp: graph_sim_def)
  have "outside_op n (Suc b) tid [] (mg_ds g) V" using V idle_outside [of n _ "mg_ds g" V tid] by simp
  from pnew_outside [OF this assms(2), of "Relation w s s"] obtain a ds where
    p: "pnew tid (Relation w s s) (mg_ds g) = Inr (a, ds)" "outside_op n b tid [a] ds (V(a \<mapsto> Relation w s s))" by auto
  then show ?thesis by (intro exI [of _ a] exI [of _ ds] exI [of _ "V(a \<mapsto> Relation w s s)"]) (simp add: mg_add_edge_def)
qed

section \<open>Claims\<close>

text \<open>The payloads of a graph: one for each vertex and each edge, and no others.\<close>

definition holds_graph :: "int \<Rightarrow> (addr \<rightharpoonup> graph_payload) \<Rightarrow> agraph \<Rightarrow> bool" where
  "holds_graph N V G \<longleftrightarrow> (\<exists>VA EE. graph_vals V VA EE \<and> graph_shape N VA EE \<and> abs_graph VA EE = G)"

lemma graph_sim_holds: "graph_sim n N b g VA EE sq \<Longrightarrow> \<exists>V. idle n b (mg_ds g) V \<and> holds_graph N V (abs_graph VA EE)"
  by (auto simp: graph_sim_def table_ok_def holds_graph_def)

lemma holds_graph_payloads:
  assumes "holds_graph N V G"
  shows "i \<in> ag_verts G \<longleftrightarrow> (\<exists>a. V a = Some (Vertex i i))" "ag_edges G (i, j) = Some w \<longleftrightarrow> (\<exists>a. V a = Some (Relation w i j))"
proof -
  obtain VA EE where v: "graph_vals V VA EE" "abs_graph VA EE = G" using assms by (auto simp: holds_graph_def)
  show "i \<in> ag_verts G \<longleftrightarrow> (\<exists>a. V a = Some (Vertex i i))" using graph_vals_iff [OF v(1)] v(2) [symmetric] by auto
  show "ag_edges G (i, j) = Some w \<longleftrightarrow> (\<exists>a. V a = Some (Relation w i j))" using graph_vals_iff [OF v(1)] v(2) [symmetric] by auto
qed

text \<open>The start of a graph's life: the store, then the constructor.\<close>

lemma mg_start:
  assumes "usable g (2 * new_cost N picks + Suc (graph_cost N * k))" "finite (allocated m)"
    "alloc_room ral (card (allocated m) + Suc (2 * new_cost N picks + Suc (graph_cost N * k)))" "tid < cf_task_num g"
  obtains ds g0 where "Recoverable_new None g ral None descs m = Inr ds" "mg_new tid N coin picks ds = Inr g0"
    "mg_rep (cf_task_num g) N k g0 (new_graph N coin picks)"
proof -
  obtain ds where ds: "Recoverable_new None g ral None descs m = Inr ds" "idle (cf_task_num g) (2 * new_cost N picks + Suc (graph_cost N * k)) ds Map.empty"
    using usable_new [OF assms(1-3)] by blast
  from mg_new_ok [OF ds(2) assms(4)] obtain g0 VA EE where
    "mg_new tid N coin picks ds = Inr g0" "graph_sim (cf_task_num g) N (graph_cost N * k) g0 VA EE (\<lambda>_. 0)" "abs_graph VA EE = new_graph N coin picks" by blast
  then show thesis using that [OF ds(1)] unfolding mg_rep_def by metis
qed


definition ex_picks :: "int \<Rightarrow> int list" where
  "ex_picks i = (if i = 0 then [1, 0, 1] else [])"

definition ex_graph_history :: "graph_op list" where
  "ex_graph_history = [HasEdge 0 1 0, AddEdge 1 0 7 1, AddVertex 2 [1, 0] 0, GraphTick 2, RemoveEdge 0 1 1, RemoveVertex 1 0, AddEdge 0 1 5 1,
     HasEdge 2 1 0, HasEdge 2 0 1]"

lemma ex_graph_spec:
  "fst (spec_run graph_spec ex_graph_history (new_graph 3 (\<lambda>i. i \<noteq> 2) ex_picks)) = [True, True, True, True, True, True, False, False, True]"
  "ag_edges (snd (spec_run graph_spec ex_graph_history (new_graph 3 (\<lambda>i. i \<noteq> 2) ex_picks))) (2, 0) = Some (-1)"
proof -
  have d: "drawn [1, 0] = {0, 1}" by (auto simp: drawn_def less_Suc_eq nth_Cons')
  show "fst (spec_run graph_spec ex_graph_history (new_graph 3 (\<lambda>i. i \<noteq> 2) ex_picks)) = [True, True, True, True, True, True, False, False, True]"
    "ag_edges (snd (spec_run graph_spec ex_graph_history (new_graph 3 (\<lambda>i. i \<noteq> 2) ex_picks))) (2, 0) = Some (-1)"
    by (simp_all add: ex_graph_history_def new_graph_def ex_picks_def join_vertex_def cut_out_def d)
qed

lemma ex_graph_cost: "new_cost 3 ex_picks = 6" "graph_cost 3 = 29"
  by (simp_all add: new_cost_def graph_cost_def ex_picks_def upto_rec1)

lemma ex_graph_room:
  assumes "k \<le> 20"
  shows "usable ex_config (2 * new_cost 3 ex_picks + Suc (graph_cost 3 * k))"
    "alloc_room first_fit (card (allocated (ex_memory :: graph_payload pmem)) + Suc (2 * new_cost 3 ex_picks + Suc (graph_cost 3 * k)))"
proof -
  show "usable ex_config (2 * new_cost 3 ex_picks + Suc (graph_cost 3 * k))"
    by (rule usable_mono [OF ex_config_usable(1)]) (use assms in \<open>simp add: ex_graph_cost\<close>)
  show "alloc_room first_fit (card (allocated (ex_memory :: graph_payload pmem)) + Suc (2 * new_cost 3 ex_picks + Suc (graph_cost 3 * k)))"
    by (rule first_fit_room) (use assms in \<open>simp add: ex_graph_cost ex_memory_def\<close>)
qed




end
