(* ===== verification/Graph_Recovery.thy ===== *)
theory Graph_Recovery
  imports Graph_Life
begin

text \<open>
  \<^verbatim>\<open>recover\<close> of \<^verbatim>\<open>src/rideables/MontageGraph.hpp\<close>: \<^verbatim>\<open>rec_thd\<close> threads rebuild the vertices from their payloads, deal the
  relations to each other through a square of buffers and emplace them in the lists of the vertices they own.
  Nothing keeps a thread from reading a buffer that its writer is still filling; how much a reader finds is an argument here.
\<close>

section \<open>Recovery\<close>

text \<open>The recovered payloads, sorted by their tag.\<close>

definition rec_gather :: "graph_rec \<Rightarrow> (u64 \<times> addr) list \<Rightarrow> (addr list \<times> addr list) res" where
  "rec_gather ds recovered = rfold (\<lambda>x (vertexVector, relationVector). rbind (read_val (snd x) ds) (\<lambda>b.
     case b of Vertex _ _ \<Rightarrow> Inr (vertexVector @ [snd x], relationVector)
     | Relation _ _ _ \<Rightarrow> Inr (vertexVector, relationVector @ [snd x]))) recovered ([], [])"

definition vertex_id :: "addr \<Rightarrow> graph_rec \<Rightarrow> int res" where
  "vertex_id a ds = rbind (read_val a ds) (\<lambda>p. case p of Vertex i l \<Rightarrow> Inr i | Relation _ _ _ \<Rightarrow> Inl BadAccess)"

text \<open>A second payload of a vertex is reported and left.\<close>

definition rec_vertex :: "int \<Rightarrow> graph_rec \<Rightarrow> addr \<Rightarrow> vertices \<Rightarrow> vertices res" where
  "rec_vertex N ds a T = rbind (vertex_id a ds) (\<lambda>i.
     if i < 0 \<or> N \<le> i then Inl BadAccess
     else if vertex i T \<noteq> None then Inr T
     else Inr (set_vertex i (Some \<lparr>tv_payload = a, tv_id = i, adjacency_list = [], dest_list = []\<rparr>) T))"

text \<open>
  \<^verbatim>\<open>RelationWrapper\<close>, and the buffers a thread writes, by the thread that is to read them: the owner of the source and, if
  it is another, the owner of the destination.
\<close>

type_synonym wrapper = "int \<times> int \<times> addr"

type_synonym buffers = "nat \<Rightarrow> wrapper list"

definition push_back :: "nat \<Rightarrow> wrapper \<Rightarrow> buffers \<Rightarrow> buffers" where
  "push_back t item row = row(t := row t @ [item])"

definition rec_relation :: "nat \<Rightarrow> int \<Rightarrow> graph_rec \<Rightarrow> vertices \<Rightarrow> addr \<Rightarrow> buffers \<Rightarrow> buffers res" where
  "rec_relation rec_thd N ds T e row =
     rbind (relation_src e ds) (\<lambda>id1. rbind (relation_dest e ds) (\<lambda>id2.
       if id1 < 0 \<or> N \<le> id1 \<or> id2 < 0 \<or> N \<le> id2 then Inr row
       else if vertex id1 T = None \<or> vertex id2 T = None then Inr row
       else let row1 = push_back (nat id1 mod rec_thd) (id1, id2, e) row in
         Inr (if nat id2 mod rec_thd \<noteq> nat id1 mod rec_thd then push_back (nat id2 mod rec_thd) (id1, id2, e) row1 else row1)))"

definition rec_row :: "nat \<Rightarrow> int \<Rightarrow> graph_rec \<Rightarrow> vertices \<Rightarrow> addr list \<Rightarrow> nat \<Rightarrow> buffers res" where
  "rec_row rec_thd N ds T relationVector rec_tid =
     rfold (\<lambda>i row. rbind (rnth relationVector i) (\<lambda>e. rec_relation rec_thd N ds T e row))
       (dealt rec_thd (length relationVector) rec_tid) (\<lambda>_. [])"

text \<open>
  What a thread takes from the buffers written for it.  It asks each for its size to make room in \<^verbatim>\<open>tpls\<close>, copies what there is and asks
  for the size again to move on; the three numbers may differ while the buffer grows.
\<close>

record glance =
  gl_size :: nat
  gl_copied :: nat
  gl_offset :: nat

fun copy_buffers :: "(wrapper list \<times> glance) list \<Rightarrow> nat \<Rightarrow> wrapper list \<Rightarrow> wrapper list res" where
  "copy_buffers [] off tpls = Inr tpls"
| "copy_buffers ((buf, s) # bs) off tpls =
     (let xs = take (gl_copied s) buf in
      if xs = [] then copy_buffers bs (off + gl_offset s) tpls
      else if off + length xs \<le> length tpls then copy_buffers bs (off + gl_offset s) (take off tpls @ xs @ drop (off + length xs) tpls)
      else Inl BadAccess)"

definition rec_tpls :: "nat \<Rightarrow> buffers list \<Rightarrow> (nat \<Rightarrow> nat \<Rightarrow> glance) \<Rightarrow> nat \<Rightarrow> wrapper list res" where
  "rec_tpls rec_thd rows seen rec_tid =
     copy_buffers (map (\<lambda>u. ((rows ! u) rec_tid, seen rec_tid u)) [0..<rec_thd]) 0
       (replicate (sum_list (map (\<lambda>u. gl_size (seen rec_tid u)) [0..<rec_thd])) (0, 0, 0))"

text \<open>
  What a thread then does, in this order: both the sources and the destinations of the relations whose source it owns.  The order of equal
  keys is that of a stable sort.
\<close>

datatype rec_act = Src wrapper | Dst wrapper

definition rec_acts :: "nat \<Rightarrow> nat \<Rightarrow> wrapper list \<Rightarrow> rec_act list" where
  "rec_acts rec_thd rec_tid tpls =
     map Src (filter (\<lambda>r. nat (fst r) mod rec_thd = rec_tid) (sort_key fst tpls)) @
     map Dst (filter (\<lambda>r. nat (fst r) mod rec_thd = rec_tid) (sort_key (\<lambda>r. fst (snd r)) tpls))"

fun rec_do :: "rec_act \<Rightarrow> vertices \<Rightarrow> vertices res" where
  "rec_do (Src (v1, v2, e)) T = rbind (source v1 T) (\<lambda>m. Inr (set_source v1 (snd (emplace (v1, v2) e m)) T))"
| "rec_do (Dst (v1, v2, e)) T = rbind (destination v2 T) (\<lambda>m. Inr (set_destination v2 (snd (emplace (v1, v2) e m)) T))"

text \<open>The threads in the order a schedule gives them turns.\<close>

fun rec_sched :: "nat list \<Rightarrow> rec_act list list \<Rightarrow> vertices \<Rightarrow> (rec_act list list \<times> vertices) res" where
  "rec_sched [] acts T = Inr (acts, T)"
| "rec_sched (t # ts) acts T = rbind (rnth acts t) (\<lambda>todo.
     case todo of [] \<Rightarrow> rec_sched ts acts T
     | a # rest \<Rightarrow> rbind (rec_do a T) (rec_sched ts (acts[t := rest])))"

text \<open>
  The whole.  \<^term>\<open>seqs\<close> is what is in the memory of the sequence numbers, which nothing initialises; \<^term>\<open>order\<close> the order in which the threads
  take up the vertices.
\<close>

definition mg_recover :: "nat \<Rightarrow> nat \<Rightarrow> int \<Rightarrow> (int \<Rightarrow> 32 word) \<Rightarrow> (u64 \<times> addr) list \<Rightarrow> nat list \<Rightarrow> (nat \<Rightarrow> nat \<Rightarrow> glance) \<Rightarrow> nat list \<Rightarrow>
    graph_rec \<Rightarrow> (nat \<times> graph) res" where
  "mg_recover tid rec_thd N seqs recovered order seen sched ds =
     rbind (begin_op tid ds) (\<lambda>ds1.
     rbind (rec_gather ds1 recovered) (\<lambda>(vertexVector, relationVector).
     rbind (end_op tid ds1) (\<lambda>ds2.
     rbind (rfold (\<lambda>i T. rbind (rnth vertexVector i) (\<lambda>a. rec_vertex N ds2 a T)) order (\<lambda>i. \<lparr>idxToVertex = None, vertexSeqs = seqs i\<rparr>)) (\<lambda>T1.
     rbind (read_all (rec_row rec_thd N ds2 T1 relationVector) [0..<rec_thd]) (\<lambda>rows.
     rbind (read_all (rec_tpls rec_thd rows seen) [0..<rec_thd]) (\<lambda>tpls.
     rbind (rec_sched sched (map (\<lambda>t. rec_acts rec_thd t (tpls ! t)) [0..<rec_thd]) T1) (\<lambda>(acts, T2).
       if list_all (\<lambda>as. as = []) acts then Inr (length recovered, \<lparr>mg_ds = ds2, numVertices = N, vMeta = T2\<rparr>) else Inl Diverges)))))))"

section \<open>Vertices and relations found\<close>

definition readable :: "graph_rec \<Rightarrow> (addr \<rightharpoonup> graph_payload) \<Rightarrow> bool" where
  "readable ds V \<longleftrightarrow> (\<forall>a p. V a = Some p \<longrightarrow> read_val a ds = Inr p)"

lemma readable_store: "idle n b ds V \<Longrightarrow> readable ds V" "inside_op n b tid ps ds V \<Longrightarrow> readable ds V"
  by (auto simp: readable_def idle_def outside_op_def inside_op_def Let_def read_val_def dest: core_val)

definition is_vertex :: "(addr \<rightharpoonup> graph_payload) \<Rightarrow> addr \<Rightarrow> bool" where
  "is_vertex V a \<longleftrightarrow> (case V a of Some (Vertex _ _) \<Rightarrow> True | _ \<Rightarrow> False)"

lemma rec_gather_ok:
  assumes "readable ds V" "snd ` set recovered \<subseteq> dom V"
  shows "rec_gather ds recovered = Inr (filter (is_vertex V) (map snd recovered), filter (\<lambda>a. \<not> is_vertex V a) (map snd recovered))"
proof -
  have "rfold (\<lambda>x (vs, rs). rbind (read_val (snd x) ds) (\<lambda>b. case b of Vertex _ _ \<Rightarrow> Inr (vs @ [snd x], rs) | Relation _ _ _ \<Rightarrow> Inr (vs, rs @ [snd x])))
      recovered (vs, rs) = Inr (vs @ filter (is_vertex V) (map snd recovered), rs @ filter (\<lambda>a. \<not> is_vertex V a) (map snd recovered))" for vs rs
    using assms(2)
  proof (induction recovered arbitrary: vs rs)
    case (Cons x xs)
    obtain p where p: "V (snd x) = Some p" "read_val (snd x) ds = Inr p" using Cons.prems assms(1) by (auto simp: readable_def)
    show ?case using p Cons.IH Cons.prems by (cases p) (simp_all add: is_vertex_def)
  qed simp
  from this [of "[]" "[]"] show ?thesis by (simp add: rec_gather_def)
qed

text \<open>The table when the vertices of some payloads are in it.\<close>

definition vertices_in :: "(int \<rightharpoonup> addr) \<Rightarrow> addr set \<Rightarrow> (int \<Rightarrow> 32 word) \<Rightarrow> vertices" where
  "vertices_in VA D seqs = (\<lambda>i. \<lparr>idxToVertex = (case VA i of None \<Rightarrow> None | Some a \<Rightarrow>
     if a \<in> D then Some \<lparr>tv_payload = a, tv_id = i, adjacency_list = [], dest_list = []\<rparr> else None), vertexSeqs = seqs i\<rparr>)"

lemma rec_vertices_ok:
  assumes r: "readable ds V" "graph_vals V VA EE" "dom VA \<subseteq> {0..<N}" and q: "\<forall>a \<in> set qs. \<exists>i. VA i = Some a"
  shows "rfold (rec_vertex N ds) qs (vertices_in VA D seqs) = Inr (vertices_in VA (D \<union> set qs) seqs)"
  using q
proof (induction qs arbitrary: D)
  case (Cons a qs)
  obtain i where i: "VA i = Some a" using Cons.prems by auto
  have u: "k = i" if "VA k = Some a" for k
    using trans [OF graph_valsD(1) [OF r(2) that, symmetric] graph_valsD(1) [OF r(2) i]] by simp
  have "read_val a ds = Inr (Vertex i i)" using graph_valsD(1) [OF r(2) i] r(1) by (simp add: readable_def)
  then have "vertex_id a ds = Inr i" by (simp add: vertex_id_def)
  moreover have "0 \<le> i \<and> i < N" using r(3) i by (auto simp: dom_def)
  moreover have "vertex i (vertices_in VA D seqs) = (if a \<in> D then Some \<lparr>tv_payload = a, tv_id = i, adjacency_list = [], dest_list = []\<rparr> else None)"
    using i by (simp add: vertex_def vertices_in_def)
  moreover have "set_vertex i (Some \<lparr>tv_payload = a, tv_id = i, adjacency_list = [], dest_list = []\<rparr>) (vertices_in VA D seqs) = vertices_in VA (insert a D) seqs"
  proof (rule ext)
    fix k
    show "set_vertex i (Some \<lparr>tv_payload = a, tv_id = i, adjacency_list = [], dest_list = []\<rparr>) (vertices_in VA D seqs) k = vertices_in VA (insert a D) seqs k"
    proof (cases "k = i")
      case False
      then have "VA k \<noteq> Some a" using u by blast
      then show ?thesis using False by (cases "VA k") (simp_all add: set_vertex_def vertices_in_def)
    qed (simp add: set_vertex_def vertices_in_def i)
  qed
  moreover have "a \<in> D \<Longrightarrow> insert a D = D" by (rule insert_absorb)
  ultimately have "rec_vertex N ds a (vertices_in VA D seqs) = Inr (vertices_in VA (insert a D) seqs)" by (auto simp: rec_vertex_def)
  then show ?case using Cons.IH [of "insert a D"] Cons.prems by simp
qed simp

text \<open>What the relations of some payloads put into the buffers.\<close>

definition item :: "(addr \<rightharpoonup> graph_payload) \<Rightarrow> addr \<Rightarrow> wrapper" where
  "item V e = (case V e of Some (Relation w i j) \<Rightarrow> (i, j, e) | _ \<Rightarrow> (0, 0, e))"

definition owned :: "nat \<Rightarrow> nat \<Rightarrow> wrapper \<Rightarrow> bool" where
  "owned rec_thd t r \<longleftrightarrow> t = nat (fst r) mod rec_thd \<or> t = nat (fst (snd r)) mod rec_thd"

definition relations_of :: "(edge \<rightharpoonup> addr \<times> int) \<Rightarrow> addr set" where
  "relations_of EE = {e. \<exists>p w. EE p = Some (e, w)}"

lemma item_relation:
  assumes "graph_vals V VA EE" "e \<in> relations_of EE"
  obtains i j w where "EE (i, j) = Some (e, w)" "V e = Some (Relation w i j)" "item V e = (i, j, e)"
proof -
  obtain i j w where p: "EE (i, j) = Some (e, w)" using assms(2) by (auto simp: relations_of_def)
  have "V e = Some (Relation w i j)" using graph_valsD(2) [OF assms(1) p] .
  then show thesis using that [OF p] by (simp add: item_def)
qed

lemma rec_relations_ok:
  assumes r: "readable ds V" "graph_vals V VA EE" "graph_shape N VA EE" and T: "\<And>i. vertex i T = None \<longleftrightarrow> VA i = None"
    and e: "set es \<subseteq> relations_of EE"
  shows "rfold (rec_relation k N ds T) es row = Inr (\<lambda>t. row t @ filter (owned k t) (map (item V) es))"
  using e
proof (induction es arbitrary: row)
  case (Cons e es)
  obtain i j w where p: "EE (i, j) = Some (e, w)" "V e = Some (Relation w i j)" "item V e = (i, j, e)"
    using item_relation [OF r(2), of e] Cons.prems by auto
  have rd: "read_val e ds = Inr (Relation w i j)" using r(1) p(2) by (simp add: readable_def)
  have s: "VA i \<noteq> None" "VA j \<noteq> None" using graph_shapeD [OF r(3), of i j] p(1) by auto
  have b: "0 \<le> i" "i < N" "0 \<le> j" "j < N" using r(3) s by (auto simp: graph_shape_def dom_def)
  have "rec_relation k N ds T e row = Inr (\<lambda>t. row t @ filter (owned k t) [item V e])"
    using rd s b T by (auto simp: rec_relation_def relation_src_def relation_dest_def p(3) owned_def push_back_def Let_def fun_eq_iff)
  then show ?case using Cons.IH Cons.prems by (auto simp: fun_eq_iff)
qed simp

section \<open>Buffers\<close>

definition dealt_items :: "nat \<Rightarrow> (addr \<rightharpoonup> graph_payload) \<Rightarrow> addr list \<Rightarrow> nat \<Rightarrow> wrapper list" where
  "dealt_items k V rs u = map (\<lambda>i. item V (rs ! i)) (dealt k (length rs) u)"

lemma rec_row_ok:
  assumes "readable ds V" "graph_vals V VA EE" "graph_shape N VA EE" "\<And>i. vertex i T = None \<longleftrightarrow> VA i = None" "set rs \<subseteq> relations_of EE"
  shows "rec_row k N ds T rs u = Inr (\<lambda>t. filter (owned k t) (dealt_items k V rs u))"
proof -
  have s: "set (dealt k (length rs) u) \<subseteq> {..<length rs}" by (auto simp: dealt_def)
  then have "set (map ((!) rs) (dealt k (length rs) u)) \<subseteq> relations_of EE" using assms(5) nth_mem [of _ rs] by (force simp: dealt_def)
  from rec_relations_ok [OF assms(1-4) this] show ?thesis
    by (simp add: rec_row_def rfold_positions [OF s] dealt_items_def comp_def)
qed

text \<open>A reader that comes after the writer is done finds everything there.\<close>

definition full_glance :: "wrapper list \<Rightarrow> glance" where
  "full_glance buf = \<lparr>gl_size = length buf, gl_copied = length buf, gl_offset = length buf\<rparr>"

definition all_seen :: "nat \<Rightarrow> (addr \<rightharpoonup> graph_payload) \<Rightarrow> addr list \<Rightarrow> nat \<Rightarrow> nat \<Rightarrow> glance" where
  "all_seen k V rs t u = full_glance (filter (owned k t) (dealt_items k V rs u))"

lemma copy_buffers_full:
  "copy_buffers (map (\<lambda>b. (b, full_glance b)) bs) (length pre) (pre @ replicate (sum_list (map length bs)) x) = Inr (pre @ concat bs)"
proof (induction bs arbitrary: pre)
  case (Cons b bs)
  show ?case
  proof (cases "b = []")
    case False
    have "take (length pre) (pre @ replicate (length b + sum_list (map length bs)) x) @ b
        @ drop (length pre + length b) (pre @ replicate (length b + sum_list (map length bs)) x) = (pre @ b) @ replicate (sum_list (map length bs)) x"
      by simp
    then show ?thesis using Cons.IH [of "pre @ b"] False by (simp add: full_glance_def Let_def)
  qed (use Cons.IH [of pre] in \<open>simp add: full_glance_def\<close>)
qed simp

lemma rec_tpls_ok:
  assumes "t < k" "rows = map (\<lambda>u t. filter (owned k t) (dealt_items k V rs u)) [0..<k]" "\<forall>u < k. seen t u = all_seen k V rs t u"
  shows "rec_tpls k rows seen t = Inr (concat (map (\<lambda>u. filter (owned k t) (dealt_items k V rs u)) [0..<k]))"
proof -
  let ?b = "\<lambda>u. filter (owned k t) (dealt_items k V rs u)"
  have m: "map (\<lambda>u. ((rows ! u) t, seen t u)) [0..<k] = map (\<lambda>b. (b, full_glance b)) (map ?b [0..<k])"
    using assms by (simp add: all_seen_def)
  have "map (\<lambda>u. gl_size (seen t u)) [0..<k] = map (\<lambda>u. length (?b u)) [0..<k]" using assms(3) by (simp add: all_seen_def full_glance_def)
  then have "sum_list (map (\<lambda>u. gl_size (seen t u)) [0..<k]) = sum_list (map length (map ?b [0..<k]))" unfolding map_map comp_def by (simp only:)
  then show ?thesis using copy_buffers_full [of "map ?b [0..<k]" "[]" "(0, 0, 0)"] unfolding rec_tpls_def m by simp
qed

lemma dealt_items_set: "0 < k \<Longrightarrow> (\<Union>u<k. set (dealt_items k V rs u)) = item V ` set rs"
proof -
  assume k: "0 < k"
  have "x \<in> (\<Union>u<k. set (dealt k (length rs) u)) \<longleftrightarrow> x < length rs" for x using k by (auto simp: dealt_def)
  then have "(\<Union>u<k. set (dealt k (length rs) u)) = {..<length rs}" by blast
  moreover have "(\<Union>u<k. set (dealt_items k V rs u)) = (\<lambda>i. item V (rs ! i)) ` (\<Union>u<k. set (dealt k (length rs) u))" by (auto simp: dealt_items_def)
  moreover have "item V ` set rs = (\<lambda>i. item V (rs ! i)) ` {..<length rs}" by (auto simp: set_conv_nth)
  ultimately show ?thesis by simp
qed

lemma rec_acts_set:
  assumes "0 < k"
  shows "set (concat (map (\<lambda>t. rec_acts k t (concat (map (\<lambda>u. filter (owned k t) (dealt_items k V rs u)) [0..<k]))) [0..<k])) =
    Src ` item V ` set rs \<union> Dst ` item V ` set rs"
proof -
  let ?tpls = "\<lambda>t. concat (map (\<lambda>u. filter (owned k t) (dealt_items k V rs u)) [0..<k])"
  have t: "set (filter (\<lambda>r. nat (fst r) mod k = t) (sort_key f (?tpls t))) = {r \<in> item V ` set rs. nat (fst r) mod k = t}" for t and f :: "wrapper \<Rightarrow> int"
    unfolding dealt_items_set [OF assms, symmetric] by (auto simp: owned_def)
  have a: "set (rec_acts k t (?tpls t)) = Src ` {r \<in> item V ` set rs. nat (fst r) mod k = t} \<union> Dst ` {r \<in> item V ` set rs. nat (fst r) mod k = t}" for t
    unfolding rec_acts_def set_append set_map t by (rule refl)
  have "nat (fst r) mod k < k" for r :: wrapper using assms by simp
  then show ?thesis unfolding set_concat set_map set_upt image_image a by (auto simp: image_iff)
qed

section \<open>Emplacing\<close>

definition half_ok :: "vertices \<Rightarrow> (int \<rightharpoonup> addr) \<Rightarrow> (edge \<rightharpoonup> addr) \<Rightarrow> (edge \<rightharpoonup> addr) \<Rightarrow> bool" where
  "half_ok T VA ES ED \<longleftrightarrow> VA = (\<lambda>i. map_option tv_payload (vertex i T)) \<and> (\<forall>i v. vertex i T = Some v \<longrightarrow>
     tv_id v = i \<and> edges_in (adjacency_list v) (\<lambda>p. fst p = i) ES \<and> edges_in (dest_list v) (\<lambda>p. snd p = i) ED)"

lemma half_ok_lists: "half_ok T VA E E \<longleftrightarrow> lists_ok T VA (\<lambda>_. E)"
  by (simp add: half_ok_def lists_ok_def vert_ok_def)

lemma half_ok_None: "half_ok T VA ES ED \<Longrightarrow> vertex i T = None \<longleftrightarrow> VA i = None"
  by (simp add: half_ok_def)

lemma emplace_restrict:
  assumes "edges_in m P (E |` S)" "P p" "E p = Some e"
  shows "edges_in (snd (emplace p e m)) P (E |` insert p S)"
proof -
  have "(if (E |` S) p = None then (E |` S)(p \<mapsto> e) else E |` S) = E |` insert p S"
    using assms(3) by (auto simp: restrict_map_def fun_eq_iff)
  then show ?thesis using edges_in_emplace(2) [OF assms(1,2), of e] by simp
qed

lemma edges_in_restrict:
  assumes "edges_in m P (E |` S)" "\<not> P p"
  shows "edges_in m P (E |` insert p S)"
  by (rule edges_in_cong [OF assms(1)]) (use assms(2) in \<open>auto simp: restrict_map_def\<close>)

lemma rec_do_ok:
  assumes h: "half_ok T VA (E |` S) (E |` D)" and e: "E (i, j) = Some e" "VA i \<noteq> None" "VA j \<noteq> None"
  shows "\<exists>T'. rec_do (Src (i, j, e)) T = Inr T' \<and> half_ok T' VA (E |` insert (i, j) S) (E |` D) \<and> (\<forall>k. get_seq k T' = get_seq k T)"
    and "\<exists>T'. rec_do (Dst (i, j, e)) T = Inr T' \<and> half_ok T' VA (E |` S) (E |` insert (i, j) D) \<and> (\<forall>k. get_seq k T' = get_seq k T)"
proof -
  obtain v where v: "vertex i T = Some v" "edges_in (adjacency_list v) (\<lambda>p. fst p = i) (E |` S)" using h e(2) by (auto simp: half_ok_def)
  have m: "edges_in (snd (emplace (i, j) e (adjacency_list v))) (\<lambda>p. fst p = i) (E |` insert (i, j) S)"
    by (rule emplace_restrict [OF v(2) _ e(1)]) simp
  have "half_ok (set_source i (snd (emplace (i, j) e (adjacency_list v))) T) VA (E |` insert (i, j) S) (E |` D)"
    unfolding half_ok_def
  proof (intro conjI allI impI)
    show "VA = (\<lambda>k. map_option tv_payload (vertex k (set_source i (snd (emplace (i, j) e (adjacency_list v))) T)))"
      using h v(1) by (auto simp: half_ok_def fun_eq_iff)
  qed (use h v m edges_in_restrict [of _ _ E S "(i, j)"] in \<open>auto simp: half_ok_def split: if_splits\<close>)
  then show "\<exists>T'. rec_do (Src (i, j, e)) T = Inr T' \<and> half_ok T' VA (E |` insert (i, j) S) (E |` D) \<and> (\<forall>k. get_seq k T' = get_seq k T)"
    using v(1) by (simp add: source_def)
  obtain x where x: "vertex j T = Some x" "edges_in (dest_list x) (\<lambda>p. snd p = j) (E |` D)" using h e(3) by (auto simp: half_ok_def)
  have d: "edges_in (snd (emplace (i, j) e (dest_list x))) (\<lambda>p. snd p = j) (E |` insert (i, j) D)"
    by (rule emplace_restrict [OF x(2) _ e(1)]) simp
  have "half_ok (set_destination j (snd (emplace (i, j) e (dest_list x))) T) VA (E |` S) (E |` insert (i, j) D)"
    unfolding half_ok_def
  proof (intro conjI allI impI)
    show "VA = (\<lambda>k. map_option tv_payload (vertex k (set_destination j (snd (emplace (i, j) e (dest_list x))) T)))"
      using h x(1) by (auto simp: half_ok_def fun_eq_iff)
  qed (use h x d edges_in_restrict [of _ _ E D "(i, j)"] in \<open>auto simp: half_ok_def split: if_splits\<close>)
  then show "\<exists>T'. rec_do (Dst (i, j, e)) T = Inr T' \<and> half_ok T' VA (E |` S) (E |` insert (i, j) D) \<and> (\<forall>k. get_seq k T' = get_seq k T)"
    using x(1) by (simp add: destination_def)
qed

lemma concat_pop:
  assumes "t < length acts" "acts ! t = a # rest"
  shows "set (concat acts) = insert a (set (concat (acts[t := rest])))"
  using assms
proof (induction acts arbitrary: t)
  case (Cons x xs)
  then show ?case by (cases t) auto
qed simp

definition act_edge :: "rec_act \<Rightarrow> edge \<times> addr" where
  "act_edge a = (case a of Src (i, j, e) \<Rightarrow> ((i, j), e) | Dst (i, j, e) \<Rightarrow> ((i, j), e))"

definition src_edges :: "rec_act set \<Rightarrow> edge set" where
  "src_edges A = {(i, j). \<exists>e. Src (i, j, e) \<in> A}"

definition dst_edges :: "rec_act set \<Rightarrow> edge set" where
  "dst_edges A = {(i, j). \<exists>e. Dst (i, j, e) \<in> A}"

lemma act_edges_insert:
  "src_edges (insert (Src (i, j, e)) A) = insert (i, j) (src_edges A)" "dst_edges (insert (Src (i, j, e)) A) = dst_edges A"
  "src_edges (insert (Dst (i, j, e)) A) = src_edges A" "dst_edges (insert (Dst (i, j, e)) A) = insert (i, j) (dst_edges A)"
  by (auto simp: src_edges_def dst_edges_def)

lemma rec_sched_ok:
  assumes "half_ok T VA (E |` S) (E |` D)" "\<forall>a \<in> set (concat acts). E (fst (act_edge a)) = Some (snd (act_edge a))"
    and VA: "\<forall>i j. E (i, j) \<noteq> None \<longrightarrow> VA i \<noteq> None \<and> VA j \<noteq> None" and "set sched \<subseteq> {..<length acts}"
  shows "\<exists>acts' T' S' D'. rec_sched sched acts T = Inr (acts', T') \<and> half_ok T' VA (E |` S') (E |` D')
    \<and> S' \<union> src_edges (set (concat acts')) = S \<union> src_edges (set (concat acts)) \<and> D' \<union> dst_edges (set (concat acts')) = D \<union> dst_edges (set (concat acts))
    \<and> length acts' = length acts \<and> (\<forall>t < length acts. length (acts' ! t) = length (acts ! t) - count_list sched t)
    \<and> (\<forall>k. get_seq k T' = get_seq k T)"
  using assms(1,2,4)
proof (induction sched arbitrary: acts T S D)
  case Nil
  then show ?case by (intro exI [of _ acts] exI [of _ T] exI [of _ S] exI [of _ D]) simp
next
  case (Cons t ts)
  have t: "t < length acts" "set ts \<subseteq> {..<length acts}" using Cons.prems(3) by auto
  show ?case
  proof (cases "acts ! t")
    case Nil
    from Cons.IH [OF Cons.prems(1,2) t(2)] obtain acts' T' S' D' where
      r: "rec_sched ts acts T = Inr (acts', T')" "half_ok T' VA (E |` S') (E |` D')"
        "S' \<union> src_edges (set (concat acts')) = S \<union> src_edges (set (concat acts))" "D' \<union> dst_edges (set (concat acts')) = D \<union> dst_edges (set (concat acts))"
        "length acts' = length acts" "\<forall>t < length acts. length (acts' ! t) = length (acts ! t) - count_list ts t" "\<forall>k. get_seq k T' = get_seq k T"
      by (elim exE conjE) (rule that)
    have "rec_sched (t # ts) acts T = Inr (acts', T')" using t(1) Nil r(1) by (simp add: rnth_def)
    moreover have "\<forall>u < length acts. length (acts' ! u) = length (acts ! u) - count_list (t # ts) u" using r(6) Nil by auto
    ultimately show ?thesis using r(2-5,7) by (intro exI [of _ acts'] exI [of _ T'] exI [of _ S'] exI [of _ D'] conjI) assumption+
  next
    case a: (Cons a rest)
    note pop = concat_pop [OF t(1) a]
    obtain i j e where ij: "act_edge a = ((i, j), e)" by (metis prod.exhaust)
    have E: "E (i, j) = Some e" using Cons.prems(2) ij unfolding pop by auto
    then have v: "VA i \<noteq> None" "VA j \<noteq> None" using VA by auto
    have "\<exists>T1 S1 D1. rec_do a T = Inr T1 \<and> half_ok T1 VA (E |` S1) (E |` D1) \<and> (\<forall>k. get_seq k T1 = get_seq k T)
      \<and> S1 \<union> src_edges (set (concat (acts[t := rest]))) = S \<union> src_edges (set (concat acts))
      \<and> D1 \<union> dst_edges (set (concat (acts[t := rest]))) = D \<union> dst_edges (set (concat acts))"
    proof (cases a)
      case (Src r)
      then have r: "a = Src (i, j, e)" using ij by (cases r) (auto simp: act_edge_def)
      from rec_do_ok(1) [OF Cons.prems(1) E v] show ?thesis unfolding pop r act_edges_insert by blast
    next
      case (Dst r)
      then have r: "a = Dst (i, j, e)" using ij by (cases r) (auto simp: act_edge_def)
      from rec_do_ok(2) [OF Cons.prems(1) E v] show ?thesis unfolding pop r act_edges_insert by blast
    qed
    then obtain T1 S1 D1 where
      d: "rec_do a T = Inr T1" "half_ok T1 VA (E |` S1) (E |` D1)" "\<forall>k. get_seq k T1 = get_seq k T"
        "S1 \<union> src_edges (set (concat (acts[t := rest]))) = S \<union> src_edges (set (concat acts))"
        "D1 \<union> dst_edges (set (concat (acts[t := rest]))) = D \<union> dst_edges (set (concat acts))" by (elim exE conjE) (rule that)
    have "\<forall>a \<in> set (concat (acts[t := rest])). E (fst (act_edge a)) = Some (snd (act_edge a))" "set ts \<subseteq> {..<length (acts[t := rest])}"
      using Cons.prems(2) t(2) unfolding pop by simp_all
    from Cons.IH [OF d(2) this] obtain acts' T' S' D' where
      r: "rec_sched ts (acts[t := rest]) T1 = Inr (acts', T')" "half_ok T' VA (E |` S') (E |` D')"
        "S' \<union> src_edges (set (concat acts')) = S1 \<union> src_edges (set (concat (acts[t := rest])))"
        "D' \<union> dst_edges (set (concat acts')) = D1 \<union> dst_edges (set (concat (acts[t := rest])))"
        "length acts' = length (acts[t := rest])" "\<forall>u < length (acts[t := rest]). length (acts' ! u) = length (acts[t := rest] ! u) - count_list ts u"
        "\<forall>k. get_seq k T' = get_seq k T1" by (elim exE conjE) (rule that)
    have "rec_sched (t # ts) acts T = Inr (acts', T')" using t(1) a d(1) r(1) by (simp add: rnth_def)
    moreover have "\<forall>u < length acts. length (acts' ! u) = length (acts ! u) - count_list (t # ts) u"
      using r(6) a t(1) by (auto simp: nth_list_update)
    moreover have "\<forall>k. get_seq k T' = get_seq k T" "length acts' = length acts" using r(7,5) d(3) by simp_all
    ultimately show ?thesis using r(2,3,4) unfolding d(4,5)
      by (intro exI [of _ acts'] exI [of _ T'] exI [of _ S'] exI [of _ D'] conjI) assumption+
  qed
qed

section \<open>The recovered graph\<close>

lemma vertex_payloads:
  assumes "graph_vals V VA EE" "V a = Some p"
  shows "is_vertex V a \<longleftrightarrow> (\<exists>i. VA i = Some a)" "\<not> is_vertex V a \<longleftrightarrow> a \<in> relations_of EE"
proof -
  have e: "(\<exists>i. VA i = Some a \<and> p = Vertex i i) \<or> (\<exists>i j w. EE (i, j) = Some (a, w) \<and> p = Relation w i j)"
    using graph_vals_iff [OF assms(1), of a p] assms(2) by blast
  have r: "\<exists>w i j. p = Relation w i j" if "a \<in> relations_of EE" using item_relation [OF assms(1) that] assms(2) by (metis option.inject)
  have v: "\<exists>i. p = Vertex i i" if "VA i = Some a" for i using graph_valsD(1) [OF assms(1) that] assms(2) by simp
  show "is_vertex V a \<longleftrightarrow> (\<exists>i. VA i = Some a)" using e v assms(2) by (auto simp: is_vertex_def)
  show "\<not> is_vertex V a \<longleftrightarrow> a \<in> relations_of EE"
    using e r assms(2) by (auto simp: is_vertex_def relations_of_def split: graph_payload.splits)
qed

lemma sum_dealt_length:
  assumes "0 < k"
  shows "length (concat (map (\<lambda>u. dealt k sz u) [0..<k])) = sz"
proof -
  have "mset (concat (map (\<lambda>u. dealt k sz u) [0..<k])) = (\<Sum>i<k. mset (dealt k sz i))"
    by (simp add: mset_concat comp_def interv_sum_list_conv_sum_set_nat atLeast0LessThan)
  also have "\<dots> = mset [0..<sz]" by (rule dealt_all [OF assms])
  finally have "size (mset (concat (map (\<lambda>u. dealt k sz u) [0..<k]))) = size (mset [0..<sz])" by (rule arg_cong)
  then show ?thesis by simp
qed

lemma rec_acts_length:
  assumes "0 < k"
  shows "length (rec_acts k t (concat (map (\<lambda>u. filter (owned k t) (dealt_items k V rs u)) [0..<k]))) \<le> 2 * length rs"
proof -
  let ?tpls = "concat (map (\<lambda>u. filter (owned k t) (dealt_items k V rs u)) [0..<k])"
  have "length ?tpls \<le> length (concat (map (\<lambda>u. dealt k (length rs) u) [0..<k]))"
    unfolding length_concat map_map comp_def by (rule sum_list_mono) (simp add: dealt_items_def length_filter_le [THEN order_trans])
  then have l: "length ?tpls \<le> length rs" by (simp only: sum_dealt_length [OF assms])
  have "length (filter Q (sort_key f ?tpls)) \<le> length rs" for Q and f :: "wrapper \<Rightarrow> int"
    using length_filter_le [of Q "sort_key f ?tpls"] l by simp
  then show ?thesis unfolding rec_acts_def length_append length_map mult_2 by (intro add_mono)
qed

lemma edges_of_items:
  assumes "graph_vals V VA EE" "set rs = relations_of EE"
  shows "src_edges (Src ` item V ` set rs \<union> Dst ` item V ` set rs) = dom EE" "dst_edges (Src ` item V ` set rs \<union> Dst ` item V ` set rs) = dom EE"
    "\<forall>a \<in> Src ` item V ` set rs \<union> Dst ` item V ` set rs. edge_addr EE (fst (act_edge a)) = Some (snd (act_edge a))"
proof -
  have k: "(\<exists>e. (i, j, e) \<in> item V ` set rs) \<longleftrightarrow> (i, j) \<in> dom EE" for i j
  proof
    assume "\<exists>e. (i, j, e) \<in> item V ` set rs"
    then obtain e x where x: "x \<in> relations_of EE" "item V x = (i, j, e)" unfolding assms(2) by (auto simp: image_iff eq_commute)
    obtain i' j' w where "EE (i', j') = Some (x, w)" "item V x = (i', j', x)" using item_relation [OF assms(1) x(1)] by blast
    then show "(i, j) \<in> dom EE" using x(2) by auto
  next
    assume "(i, j) \<in> dom EE"
    then obtain e w where e: "EE (i, j) = Some (e, w)" by auto
    then have "item V e = (i, j, e)" using graph_valsD(2) [OF assms(1)] by (simp add: item_def)
    moreover have "e \<in> set rs" using e assms(2) by (auto simp: relations_of_def)
    ultimately show "\<exists>e. (i, j, e) \<in> item V ` set rs" using image_eqI [of "(i, j, e)" "item V" e] by auto
  qed
  have m: "Src x \<in> Src ` A \<union> Dst ` A \<longleftrightarrow> x \<in> A" "Dst x \<in> Src ` A \<union> Dst ` A \<longleftrightarrow> x \<in> A" for x A by auto
  have c: "{(i, j). (i, j) \<in> dom EE} = dom EE" by simp
  show "src_edges (Src ` item V ` set rs \<union> Dst ` item V ` set rs) = dom EE" "dst_edges (Src ` item V ` set rs \<union> Dst ` item V ` set rs) = dom EE"
    unfolding src_edges_def dst_edges_def m k c by (rule refl)+
  have "edge_addr EE (fst (act_edge (Src (item V e)))) = Some (snd (act_edge (Src (item V e))))
      \<and> edge_addr EE (fst (act_edge (Dst (item V e)))) = Some (snd (act_edge (Dst (item V e))))" if e: "e \<in> relations_of EE" for e
  proof -
    obtain i j w where "EE (i, j) = Some (e, w)" "item V e = (i, j, e)" using item_relation [OF assms(1) e] by blast
    then show ?thesis by (simp add: act_edge_def edge_addr_def)
  qed
  then show "\<forall>a \<in> Src ` item V ` set rs \<union> Dst ` item V ` set rs. edge_addr EE (fst (act_edge a)) = Some (snd (act_edge a))"
    unfolding assms(2) by auto
qed

lemma vertices_in_half_ok:
  assumes "ran VA \<subseteq> D"
  shows "half_ok (vertices_in VA D seqs) VA (E |` {}) (E |` {})"
proof -
  have v: "vertex i (vertices_in VA D seqs) = map_option (\<lambda>a. \<lparr>tv_payload = a, tv_id = i, adjacency_list = [], dest_list = []\<rparr>) (VA i)" for i
    using assms ranI [of VA i] by (cases "VA i") (auto simp: vertex_def vertices_in_def)
  show ?thesis unfolding half_ok_def v by (auto simp: fun_eq_iff option.map_comp comp_def option.map_ident intro!: edges_in_nil)
qed

lemma mg_recover_ok:
  assumes i: "idle n (Suc b) ds V" "graph_vals V VA EE" "graph_shape N VA EE" and t: "tid < n"
    and r: "dom V = set (map snd recovered)" "vs = filter (is_vertex V) (map snd recovered)" "rs = filter (\<lambda>a. \<not> is_vertex V a) (map snd recovered)"
    and k: "0 < k" "mset order = (\<Sum>i<k. mset (dealt k (length vs) i))" "\<forall>t < k. \<forall>u < k. seen t u = all_seen k V rs t u"
    and s: "set sched \<subseteq> {..<k}" "\<forall>t < k. 2 * length rs \<le> count_list sched t"
  shows "\<exists>g. mg_recover tid k N seqs recovered order seen sched ds = Inr (length recovered, g) \<and> graph_sim n N b g VA EE (\<lambda>i. unat (seqs i))"
proof -
  have "outside_op n (Suc (length ([] :: addr list) + b)) tid [] ds V" using i(1) idle_outside [of n _ ds V tid] by simp
  from begin_op_inside [OF this t] obtain ds1 where d1: "begin_op tid ds = Inr ds1" "inside_op n b tid [] ds1 V" by blast
  from end_op_outside(1) [OF d1(2)] obtain ds2 where d2: "end_op tid ds1 = Inr ds2" "idle n b ds2 V" by blast
  have g: "rec_gather ds1 recovered = Inr (vs, rs)" using rec_gather_ok [OF readable_store(2) [OF d1(2)]] r by simp
  have vs: "set vs = ran VA" and rs: "set rs = relations_of EE"
  proof -
    have "a \<in> set vs \<longleftrightarrow> a \<in> ran VA" for a
      using vertex_payloads(1) [OF i(2), of a] graph_valsD(1) [OF i(2), of _ a] unfolding r(2) set_filter r(1) [symmetric] by (fastforce simp: ran_def)
    then show "set vs = ran VA" by blast
    have "a \<in> set rs \<longleftrightarrow> a \<in> relations_of EE" for a
      using vertex_payloads(2) [OF i(2), of a] item_relation [OF i(2), of a] unfolding r(3) set_filter r(1) [symmetric] by blast
    then show "set rs = relations_of EE" by blast
  qed
  let ?T0 = "vertices_in VA {} seqs" and ?T1 = "vertices_in VA (ran VA) seqs"
  have m: "mset order = mset [0..<length vs]" using k(2) unfolding dealt_all [OF k(1)] .
  have o: "set order = {..<length vs}" using mset_eq_setD [OF m] by (simp add: atLeast0LessThan)
  have so: "set (map ((!) vs) order) = ran VA" unfolding set_map o vs [symmetric] by (auto simp: set_conv_nth)
  have "rfold (rec_vertex N ds2) (map ((!) vs) order) ?T0 = Inr (vertices_in VA ({} \<union> set (map ((!) vs) order)) seqs)"
    by (rule rec_vertices_ok [OF readable_store(1) [OF d2(2)] i(2)]) (use i(3) so in \<open>auto simp: graph_shape_def ran_def\<close>)
  moreover have "?T0 = (\<lambda>i. \<lparr>idxToVertex = None, vertexSeqs = seqs i\<rparr>)" by (auto simp: vertices_in_def fun_eq_iff split: option.splits)
  ultimately have v: "rfold (\<lambda>i T. rbind (rnth vs i) (\<lambda>a. rec_vertex N ds2 a T)) order (\<lambda>i. \<lparr>idxToVertex = None, vertexSeqs = seqs i\<rparr>) = Inr ?T1"
    unfolding so using rfold_positions [of order vs "rec_vertex N ds2"] o by simp
  have h: "half_ok ?T1 VA (edge_addr EE |` {}) (edge_addr EE |` {})" by (rule vertices_in_half_ok) simp
  have tv: "vertex i ?T1 = None \<longleftrightarrow> VA i = None" for i by (rule half_ok_None [OF h])
  let ?rows = "map (\<lambda>u t. filter (owned k t) (dealt_items k V rs u)) [0..<k]" and ?tp = "\<lambda>t. concat (map (\<lambda>u. filter (owned k t) (dealt_items k V rs u)) [0..<k])"
  have rw: "read_all (rec_row k N ds2 ?T1 rs) [0..<k] = Inr ?rows"
    using rec_row_ok [OF readable_store(1) [OF d2(2)] i(2,3) tv] rs by (intro read_all_map) simp
  have tp: "read_all (rec_tpls k ?rows seen) [0..<k] = Inr (map ?tp [0..<k])" using rec_tpls_ok [OF _ refl] k(3) by (intro read_all_map) simp
  let ?acts = "map (\<lambda>t. rec_acts k t (?tp t)) [0..<k]"
  have ac: "map (\<lambda>t. rec_acts k t (map ?tp [0..<k] ! t)) [0..<k] = ?acts" by simp
  note as = rec_acts_set [OF k(1), of V rs] and ed = edges_of_items [OF i(2) rs]
  have A: "\<forall>a \<in> set (concat ?acts). edge_addr EE (fst (act_edge a)) = Some (snd (act_edge a))" unfolding as by (rule ed(3))
  have B: "\<forall>i j. edge_addr EE (i, j) \<noteq> None \<longrightarrow> VA i \<noteq> None \<and> VA j \<noteq> None" using i(3) by (simp add: graph_shape_def)
  have C: "set sched \<subseteq> {..<length ?acts}" using s(1) by simp
  from rec_sched_ok [OF h A B C] obtain acts' T2 S' D' where
    x: "rec_sched sched ?acts ?T1 = Inr (acts', T2)" "half_ok T2 VA (edge_addr EE |` S') (edge_addr EE |` D')"
      "S' \<union> src_edges (set (concat acts')) = {} \<union> src_edges (set (concat ?acts))" "D' \<union> dst_edges (set (concat acts')) = {} \<union> dst_edges (set (concat ?acts))"
      "length acts' = length ?acts" "\<forall>t < length ?acts. length (acts' ! t) = length (?acts ! t) - count_list sched t" "\<forall>k. get_seq k T2 = get_seq k ?T1"
    by (elim exE conjE) (rule that)
  have z: "acts' ! t = []" if "t < k" for t
  proof -
    have "length (?acts ! t) \<le> count_list sched t" using order_trans [OF rec_acts_length [OF k(1), of t V rs]] s(2) that by simp
    moreover have "length (acts' ! t) = length (?acts ! t) - count_list sched t" using x(6) that by simp
    ultimately show ?thesis by simp
  qed
  then have e: "list_all (\<lambda>as. as = []) acts'" "set (concat acts') = {}" using x(5) by (auto simp: list_all_length in_set_conv_nth)
  have "src_edges {} = {}" "dst_edges {} = {}" by (simp_all add: src_edges_def dst_edges_def)
  then have SD: "S' = dom EE" "D' = dom EE" using x(3,4) unfolding e(2) as ed by simp_all
  have re: "edge_addr EE |` dom EE = edge_addr EE" by (rule ext) (auto simp: restrict_map_def edge_addr_def domIff simp del: not_None_eq)
  have "lists_ok T2 VA (\<lambda>_. edge_addr EE)" using x(2) unfolding SD re half_ok_lists .
  moreover have "get_seq i T2 = of_nat (unat (seqs i))" for i using x(7) by (simp add: get_seq_def vertices_in_def)
  ultimately have "table_ok N T2 VA EE (\<lambda>i. unat (seqs i))" using i(3) by (simp add: table_ok_def)
  then have "graph_sim n N b \<lparr>mg_ds = ds2, numVertices = N, vMeta = T2\<rparr> VA EE (\<lambda>i. unat (seqs i))" using d2(2) i(2) by (auto simp: graph_sim_def)
  moreover have "mg_recover tid k N seqs recovered order seen sched ds = Inr (length recovered, \<lparr>mg_ds = ds2, numVertices = N, vMeta = T2\<rparr>)"
    unfolding mg_recover_def d1(1) rbind_Inr g prod.case d2(1) v rw tp ac x(1) using e(1) by simp
  ultimately show ?thesis by blast
qed

section \<open>Claims\<close>

definition relation_payloads :: "(addr \<rightharpoonup> graph_payload) \<Rightarrow> (u64 \<times> addr) list \<Rightarrow> addr list" where
  "relation_payloads V recovered = filter (\<lambda>a. \<not> is_vertex V a) (map snd recovered)"

definition vertex_payloads_of :: "(addr \<rightharpoonup> graph_payload) \<Rightarrow> (u64 \<times> addr) list \<Rightarrow> addr list" where
  "vertex_payloads_of V recovered = filter (is_vertex V) (map snd recovered)"


definition ex_graph_payloads :: "addr \<rightharpoonup> graph_payload" where
  "ex_graph_payloads = [64 \<mapsto> Vertex 0 0, 128 \<mapsto> Relation 9 1 0, 192 \<mapsto> Vertex 1 1]"

definition ex_graph_survivors :: "graph_payload pmem" where
  "ex_graph_survivors = ex_memory\<lparr>m_hdr := (\<lambda>a. if a \<in> {64, 128, 192} then Some (PBlk_new\<lparr>pb_epoch := 4, pb_blktype := ALLOC\<rparr>) else None),
     m_val := ex_graph_payloads, allocated := {64, 128, 192}\<rparr>"

definition ex_graph_recovered :: "(u64 \<times> addr) list" where
  "ex_graph_recovered = [(2, 128), (3, 64), (1, 192)]"

definition ex_agraph :: agraph where
  "ex_agraph = \<lparr>ag_verts = {0, 1}, ag_edges = [(1, 0) \<mapsto> 9]\<rparr>"

lemma ex_graph_vals:
  "graph_vals ex_graph_payloads [0 \<mapsto> 64, 1 \<mapsto> 192] [(1, 0) \<mapsto> (128, 9)]" "graph_shape 3 [0 \<mapsto> 64, 1 \<mapsto> 192] [(1, 0) \<mapsto> (128, 9)]"
proof -
  show "graph_vals ex_graph_payloads [0 \<mapsto> 64, 1 \<mapsto> 192] [(1, 0) \<mapsto> (128, 9)]"
    by (auto simp: graph_vals_def ex_graph_payloads_def split: if_splits) (rule exI [of _ 1], simp)
qed (auto simp: graph_shape_def split: if_splits)

lemma ex_holds_graph: "holds_graph 3 ex_graph_payloads ex_agraph"
proof -
  have "abs_graph [0 \<mapsto> 64, 1 \<mapsto> 192] [(1, 0) \<mapsto> (128, 9)] = ex_agraph" by (auto simp: abs_graph_def ex_agraph_def fun_eq_iff)
  then show ?thesis using ex_graph_vals unfolding holds_graph_def by blast
qed

lemma ex_graph_stored: "stored ex_graph_payloads 7 ex_graph_survivors"
  by (auto simp: stored_def ex_graph_payloads_def ex_graph_survivors_def payload_hdr_def is_raw_def PBlk_new_def split: if_splits)

definition ex_graph_later :: "graph_op list" where
  "ex_graph_later = [HasEdge 1 0 0, AddEdge 0 1 4 1, RemoveVertex 0 0, HasEdge 1 0 1]"


definition glance_none :: glance where
  "glance_none = \<lparr>gl_size = 0, gl_copied = 0, gl_offset = 0\<rparr>"

text \<open>
  C38.  Without that, edges are lost: if the thread that owns the source of an edge looks into the buffers before the thread that found the edge has
  written it, recovery ends as if all were well and the graph does not have the edge, while its payload stays in the store.
\<close>

theorem recover_loses_edge:
  "\<exists>ds g0 g1. Recoverable_new None ex_config first_fit (Some 7) [] ex_graph_survivors = Inr ds
    \<and> mg_recover 0 2 3 (\<lambda>i. 0) ex_graph_recovered [0, 1] (\<lambda>t u. if t = 1 \<and> u = 0 then glance_none else all_seen 2 ex_graph_payloads [128] t u)
        [0, 1, 0, 1] ds = Inr (3, g0)
    \<and> mg_has_edge 1 0 0 g0 = Inr (False, g1) \<and> m_val (es_mem (r_esys (mg_ds g1))) 128 = Some (Relation 9 1 0)"
proof -
  let ?V = ex_graph_payloads and ?VA = "[0 \<mapsto> 64, 1 \<mapsto> 192] :: int \<rightharpoonup> addr" and ?EE = "[(1, 0) \<mapsto> (128, 9)] :: edge \<rightharpoonup> addr \<times> int"
  let ?seen = "\<lambda>t u. if t = 1 \<and> u = 0 then glance_none else all_seen 2 ?V [128] t u"
  have "usable ex_config 2" "finite (allocated ex_graph_survivors)" "alloc_room first_fit (card (allocated ex_graph_survivors) + 2)" "INIT_EPOCH \<le> 7"
      "unat (7 :: u64) + 2 < 2 ^ 64 - 1" using usable_mono [OF ex_config_usable(1), of 2] by (simp_all add: ex_graph_survivors_def first_fit_room)
  from usable_restart [OF this ex_graph_stored, of "[]"] obtain ds where
    ds: "Recoverable_new None ex_config first_fit (Some 7) [] ex_graph_survivors = Inr ds" "idle 2 2 ds ?V" unfolding ex_config_usable by blast
  have "outside_op 2 (Suc (length ([] :: addr list) + 1)) 0 [] ds ?V" using ds(2) idle_outside [of 2 _ ds ?V 0] by (simp add: numeral_2_eq_2)
  from begin_op_inside [OF this] obtain ds1 where d1: "begin_op 0 ds = Inr ds1" "inside_op 2 1 0 [] ds1 ?V" by auto
  from end_op_outside(1) [OF d1(2)] obtain ds2 where d2: "end_op 0 ds1 = Inr ds2" "idle 2 1 ds2 ?V" by blast
  have "outside_op 2 (Suc (length ([] :: addr list) + 0)) 0 [] ds2 ?V" using d2(2) idle_outside [of 2 _ ds2 ?V 0] by simp
  from begin_op_inside [OF this] obtain ds3 where d3: "begin_op 0 ds2 = Inr ds3" "inside_op 2 0 0 [] ds3 ?V" by auto
  from end_op_outside(1) [OF d3(2)] obtain ds4 where d4: "end_op 0 ds3 = Inr ds4" "idle 2 0 ds4 ?V" by blast
  note rd = readable_store(1) [OF d2(2)] and gv = ex_graph_vals
  have g: "rec_gather ds1 ex_graph_recovered = Inr ([64, 192], [128])"
    using rec_gather_ok [OF readable_store(2) [OF d1(2)], of ex_graph_recovered]
    by (simp add: is_vertex_def ex_graph_payloads_def ex_graph_recovered_def)
  let ?T = "vertices_in ?VA {64, 192} (\<lambda>_. 0)"
  have "rfold (rec_vertex 3 ds2) [64, 192] (vertices_in ?VA {} (\<lambda>_. 0)) = Inr (vertices_in ?VA ({} \<union> set [64, 192]) (\<lambda>_. 0))"
    by (rule rec_vertices_ok [OF rd gv(1)]) (auto intro: exI [of _ 0] exI [of _ 1])
  moreover have "vertices_in ?VA {} (\<lambda>_. 0) = (\<lambda>i. \<lparr>idxToVertex = None, vertexSeqs = 0\<rparr>)" by (auto simp: vertices_in_def fun_eq_iff)
  ultimately have v: "rfold (\<lambda>i T. rbind (rnth [64, 192] i) (\<lambda>a. rec_vertex 3 ds2 a T)) [0, 1] (\<lambda>i. \<lparr>idxToVertex = None, vertexSeqs = 0\<rparr>) = Inr ?T"
    using rfold_positions [of "[0, 1]" "[64, 192]" "rec_vertex 3 ds2"] by simp
  have tv: "vertex i ?T = None \<longleftrightarrow> ?VA i = None" for i by (auto simp: vertex_def vertices_in_def)
  have di: "dealt_items 2 ?V [128] 0 = [(1, 0, 128)]" "dealt_items 2 ?V [128] (Suc 0) = []"
    by (simp_all add: dealt_items_def dealt_def item_def ex_graph_payloads_def)
  have u: "[0..<2] = [0, 1 :: nat]" by (simp add: upt_rec)
  have rel: "set [128] \<subseteq> relations_of ?EE" by (auto simp: relations_of_def)
  have rw: "read_all (rec_row 2 3 ds2 ?T [128]) [0..<2] = Inr [\<lambda>t. filter (owned 2 t) [(1, 0, 128)], \<lambda>t. []]"
    using rec_row_ok [OF rd gv tv rel, of 2] by (simp add: u di)
  have tp: "read_all (rec_tpls 2 [\<lambda>t. filter (owned 2 t) [(1, 0, 128)], \<lambda>t. []] ?seen) [0..<2] = Inr [[(1, 0, 128)], []]"
    by (simp add: u rec_tpls_def all_seen_def full_glance_def glance_none_def di owned_def)
  have sc: "rec_sched [0, 1, 0, 1] (map (\<lambda>t. rec_acts 2 t ([[(1, 0, 128)], []] ! t)) [0..<2]) ?T = Inr ([[], []], ?T)"
    by (simp add: u rec_acts_def rnth_def)
  have r: "mg_recover 0 2 3 (\<lambda>i. 0) ex_graph_recovered [0, 1] ?seen [0, 1, 0, 1] ds = Inr (3, \<lparr>mg_ds = ds2, numVertices = 3, vMeta = ?T\<rparr>)"
    unfolding mg_recover_def d1(1) rbind_Inr g prod.case d2(1) v rw tp sc by (simp add: ex_graph_recovered_def)
  have "mg_has_edge 1 0 0 \<lparr>mg_ds = ds2, numVertices = 3, vMeta = ?T\<rparr> = Inr (False, \<lparr>mg_ds = ds4, numVertices = 3, vMeta = ?T\<rparr>)"
    using d3(1) d4(1) by (simp add: mg_has_edge_def lock_vertex_def vertex_def vertices_in_def has_relation_def)
  moreover have "core 2 0 {} ?V (es_global_epoch (r_esys ds4)) (r_esys ds4)" using d4(2) by (simp add: idle_def outside_op_def)
  then have "m_val (es_mem (r_esys ds4)) 128 = Some (Relation 9 1 0)" by (rule core_val) (simp add: ex_graph_payloads_def)
  ultimately show ?thesis using ds(1) r by (intro exI [of _ ds] exI [of _ "\<lparr>mg_ds = ds2, numVertices = 3, vMeta = ?T\<rparr>"]
      exI [of _ "\<lparr>mg_ds = ds4, numVertices = 3, vMeta = ?T\<rparr>"]) simp
qed

end
