(* ===== verification/Spec2Isabelle.thy ===== *)
theory Spec2Isabelle
  imports PerThread_Containers Epoch_Protocol Epoch_Recovery InPlace_String Montage_HashTable Montage_Queue Graph_Recovery
begin

text \<open>
  Montage is a C++ system for structures that survive a power failure.  A structure keeps its contents in payload blocks
  in persistent memory and everything else in ordinary memory.  Time is divided into epochs; a crash loses the
  work of the last two epochs, and recovery finds a consistent state of the end of the epoch before.  This library models the
  persist layer (\<^verbatim>\<open>src/src/persist\<close>), its programming interface (\<^verbatim>\<open>src/src/persist/api\<close>) and the structures
  that use it (\<^verbatim>\<open>src/src/rideables\<close>), and proves what each promises to the next.

  \<^bold>\<open>Parts and how they interact.\<close>  An operation of a structure is bracketed by \<^verbatim>\<open>begin_op\<close> and \<^verbatim>\<open>end_op\<close> of
  \<^verbatim>\<open>Recoverable\<close>, which call \<^verbatim>\<open>begin_transaction\<close> and \<^verbatim>\<open>end_transaction\<close> of \<^verbatim>\<open>EpochSys\<close>.  The transaction tracker
  records which epochs have running operations.  A block written in an epoch is registered in the to-be-persisted
  container, a retired one in the to-be-freed container; both keep one buffer per thread for each of the last four
  epochs.  The epoch advancer ends an epoch when its operations are over: it asks the persist tracker for threads
  that lag behind, writes their buffers back and moves the epoch on.  After a crash \<^verbatim>\<open>recover\<close> sorts the surviving
  blocks into payloads, cancelled payloads and blocks of unfinished epochs.

  \<^bold>\<open>Conventions.\<close>  Errors are values of \<^typ>\<open>err\<close> and every fallible operation returns \<^typ>\<open>'a res\<close>; a failed
  assertion, an \<^verbatim>\<open>errexit\<close>, an exception, an access out of range and a spin that never ends are all visible.  \<^verbatim>\<open>uint64_t\<close>
  is \<^typ>\<open>u64\<close> and wraps.  The thread identifier \<^verbatim>\<open>EpochSys::tid\<close> is an argument.  Memory (\<^typ>\<open>'v pmem\<close>) has what
  the program sees, what has been written back, the set of allocated addresses and the thread descriptors.  The allocator
  Ralloc, a submodule, is the parameter \<^const>\<open>es_ral\<close>, from the allocated addresses to the next one; what is assumed of it
  (\<^const>\<open>ral_ok\<close>, \<^const>\<open>heap_room\<close>) is that this address is free, not null and aligned.  Where other threads may act inside an operation
  their effect is an argument of the model (lists of state changes in \<^const>\<open>sync_loop\<close>), or the operation is a
  relation on states of all threads (\<^verbatim>\<open>Epoch_Protocol\<close>, \<^verbatim>\<open>DCSS\<close>).

  \<^bold>\<open>Theories.\<close>
  \<^item> \<^verbatim>\<open>Montage_Prelude\<close>: results, words, lists, the four-slot window of epochs.  \<^verbatim>\<open>Container_Specs\<close>: the interfaces as
    locales (queue, per-thread buffer, container of epochs, transaction tracker, persist tracker) and what their
    clients may conclude.
  \<^item> \<^verbatim>\<open>Persist_Utils\<close> and \<^verbatim>\<open>Circ_Buffer\<close> (\<^verbatim>\<open>persist_utils.hpp\<close>): identifier generator, growing and fixed circular buffers, fixed
    hash set, per-thread vectors; distinct identifiers, refinement of a queue, nothing lost.
    \<^verbatim>\<open>PerThread_Containers\<close> (\<^verbatim>\<open>PerThreadContainers.hpp\<close>): four buffers per thread, interpreting the container interface.
  \<^item> \<^verbatim>\<open>Transaction_Trackers\<close>, \<^verbatim>\<open>Persist_Trackers\<close>, \<^verbatim>\<open>Mindicator_Tracker\<close> (files of those names): the trackers, that they report
    exactly the running operations, and that the search for lagging threads ends.
  \<^item> \<^verbatim>\<open>NVM_Model\<close> (\<^verbatim>\<open>PersistFunc.hpp\<close> and the block header of \<^verbatim>\<open>EpochSys.hpp\<close>): memory, write-back, cache lines.
    \<^verbatim>\<open>To_Be_Persisted\<close>, \<^verbatim>\<open>To_Be_Freed\<close> (files of those names): a registered block is held or written back; only blocks retired two
    epochs ago are freed.
  \<^item> \<^verbatim>\<open>Epoch_Sys\<close> (\<^verbatim>\<open>EpochSys.hpp\<close>, \<^verbatim>\<open>EpochSys.cpp\<close>): the state and every operation of the blocking and the nonblocking
    system; \<^verbatim>\<open>Epoch_Protocol\<close>: registering against a moving epoch, as an interleaving of threads; \<^verbatim>\<open>DCSS\<close>: the
    double-compare-single-swap with helping; \<^verbatim>\<open>Epoch_Durability\<close>, \<^verbatim>\<open>Block_Ops\<close>, \<^verbatim>\<open>Transactions\<close>: what the end of an epoch
    makes durable, what operations on blocks leave for recovery, and that operations always complete.
    \<^verbatim>\<open>Epoch_Advancers\<close> (\<^verbatim>\<open>EpochAdvancers.cpp\<close>): turns of the advancer, \<^verbatim>\<open>sync\<close>.  \<^verbatim>\<open>Epoch_Init\<close>: configuration and construction.
    \<^verbatim>\<open>Epoch_Recovery\<close>: both \<^verbatim>\<open>recover\<close> functions, and that they return the newest version of each
    surviving payload, independently of how the blocks are divided among threads.
  \<^item> \<^verbatim>\<open>Recoverable_API\<close> (\<^verbatim>\<open>Recoverable.hpp\<close>, \<^verbatim>\<open>Recoverable.cpp\<close>): the interface for structures and the field accessors;
    \<^verbatim>\<open>InPlace_String\<close> (\<^verbatim>\<open>InPlaceString.hpp\<close>): strings stored inside payloads.
  \<^item> \<^verbatim>\<open>Payload_Store\<close>, \<^verbatim>\<open>Store_Life\<close>: the contract of the programming interface with a structure, from construction
    through operations and epoch changes, and from a restart with recovered payloads.
  \<^item> \<^verbatim>\<open>Rideable_Specs\<close> (\<^verbatim>\<open>RMap.hpp\<close>, \<^verbatim>\<open>RQueue.hpp\<close>, \<^verbatim>\<open>RGraph.hpp\<close>): maps, queues and graphs as objects with an abstract behaviour, and that an object with the
    laws of one answers every history as it does.  \<^verbatim>\<open>Transient_Structures\<close> (\<^verbatim>\<open>HashTable.hpp\<close>, \<^verbatim>\<open>Queue.hpp\<close>): the transient
    table with sorted chains and the transient linked queue, which have those laws.
  \<^item> \<^verbatim>\<open>Montage_HashTable\<close> (\<^verbatim>\<open>MontageHashTable.hpp\<close>), \<^verbatim>\<open>Montage_Queue\<close> (\<^verbatim>\<open>MontageQueue.hpp\<close>): the structures whose payloads are
    persistent.  The table is simulated by the transient one, chain by chain, and is therefore a map; it is rebuilt from the
    recovered payloads in any order; the queue is a queue whose order the serial numbers of its payloads record.
  \<^item> \<^verbatim>\<open>Montage_Graph\<close>, \<^verbatim>\<open>Graph_Vertices\<close>, \<^verbatim>\<open>Graph_Life\<close>, \<^verbatim>\<open>Graph_Recovery\<close> (\<^verbatim>\<open>MontageGraph.hpp\<close>): the directed graph with vertices and
    edges as payloads.  The first has the model and the operations on edges, the second those on vertices, the third the construction: the
    graph is a graph, and removing a vertex is atomic among operations that run between the locks it takes.  The last is the parallel recovery,
    with the order of vertices, the contents each thread finds in the buffers and the schedule of the threads as arguments; it rebuilds the graph if
    the buffers are read after they are filled and may lose edges if not, which nothing in the code prevents.
  \<^item> this theory: a payload written in an epoch that has ended is found by recovery after a crash.

  \<^bold>\<open>Bounds and fuel.\<close>  Loops whose end is not structural have fuel and a lemma that it is enough: \<^const>\<open>persist_lagging\<close> has one
  turn per thread and one more, since each turn takes a thread out of the lagging ones; \<^const>\<open>persist_past\<close> has two more than the
  epoch it stops at, since each turn raises the thread's record; \<^const>\<open>register_alloc_fuel\<close> has one turn,
  since \<^verbatim>\<open>get_data\<close> is always null; \<^const>\<open>sync_loop\<close> is bounded by the list of what other threads do, and one element per
  epoch is enough when they do nothing.  The budgets in the invariants of buffers, serial numbers and heap say how many
  further steps are possible before a 64-bit counter, a 48-bit serial number or memory runs out; an operation of the table or the queue needs at most ten,
  one of a graph on N vertices at most 8 N + 5 (\<^const>\<open>graph_cost\<close>).  \<^const>\<open>mg_remove_vertex\<close> ends because every turn but the last uses up some of what
  others do; \<^const>\<open>rec_sched\<close> has finished when every thread has had twice as many turns as there are relations.

  \<^bold>\<open>Not modelled.\<close>  The weak memory model (every access is sequentially consistent; write-backs take effect at the fence
  the model merges with them), processor transactions behind \<^verbatim>\<open>USE_TSX\<close> and the \<^verbatim>\<open>VISIBLE_READ\<close> variants, sleeping and
  processor binding of the advancer, arrays of payload data that nothing instantiates, Ralloc, hwloc and the standard
  library.  The operations of the lock-based structures are single steps, since each runs under its lock, with the
  exception named above; the lock-free structures, and with them read-copy-update reclamation, are not modelled: they need the interleavings of every load.  The benchmark harness, and the structures of \<^verbatim>\<open>rideables\<close> that do not use this persist layer, which are copies of
  or wrappers around other systems kept for comparison, are outside the library.
\<close>

section \<open>Crash consistency across components\<close>

text \<open>
  A crash image: the blocks that recovery is given include every allocated block that was written
  back, with the header it was written back with.
\<close>

definition crash_image :: "'v pmem \<Rightarrow> rblk list list \<Rightarrow> bool" where
  "crash_image m blks \<longleftrightarrow> (\<forall>a h. n_hdr m a = Some h \<and> a \<in> allocated m \<longrightarrow>
     (\<exists>r \<in> set (concat blks). rb_addr r = a \<and> rb_hdr r = h))"

lemma recovered_version:
  assumes "image_ok (\<lambda>_. False) blks" "r0 \<in> set (concat blks)"
    and "eligible (\<lambda>_. False) (image_epoch (set (concat blks)) - 2)
           (dead (\<lambda>_. False) (image_epoch (set (concat blks)) - 2) (set (concat blks))) r0"
  shows "\<exists>r f. EpochSys_recover False blks = Inr r \<and> map_of (rec_in_use r) (rb_id r0) = Some f \<and> rb_id f = rb_id r0
    \<and> rb_epoch r0 \<le> rb_epoch f \<and> f \<in> set (concat blks)"
proof -
  let ?B = "set (concat blks)"
  let ?E = "{b \<in> ?B. eligible (\<lambda>_. False) (image_epoch ?B - 2) (dead (\<lambda>_. False) (image_epoch ?B - 2) ?B) b}"
  from recover_outcome [OF assms(1)] obtain r where
    r: "EpochSys_recover False blks = Inr r" "best ?E (map_of (rec_in_use r))"
    by (auto simp: recovers_def settled_def Let_def simp del: set_concat)
  have r0: "r0 \<in> ?E" using assms(2,3) by simp
  have "case map_of (rec_in_use r) (rb_id r0) of None \<Rightarrow> \<forall>b \<in> ?E. rb_id b \<noteq> rb_id r0
     | Some b \<Rightarrow> b \<in> ?E \<and> rb_id b = rb_id r0 \<and> (\<forall>b' \<in> ?E. rb_id b' = rb_id r0 \<longrightarrow> rb_epoch b' \<le> rb_epoch b)"
    using r(2) unfolding best_def by (rule spec)
  with r0 r(1) show ?thesis by (simp del: set_concat split: option.splits) blast
qed


definition ex_crash :: "rblk list list" where
  "ex_crash = [[ex_blk 64 ALLOC 3 7], [ex_blk 128 EPOCH 0 0]]"

lemma ex_crash_ok: "image_epoch (set (concat ex_crash)) = 5" "image_ok (\<lambda>_. False) ex_crash"
  "7 \<notin> dead (\<lambda>_. False) (image_epoch (set (concat ex_crash)) - 2) (set (concat ex_crash))"
proof -
  show e: "image_epoch (set (concat ex_crash)) = 5"
    by (simp add: ex_crash_def ex_blk_def PBlk_new_def blk_max_def)
  have d: "dead (\<lambda>_. False) 3 (set (concat ex_crash)) = {}" by (auto simp: dead_def ex_crash_def ex_blk_def PBlk_new_def)
  then show "7 \<notin> dead (\<lambda>_. False) (image_epoch (set (concat ex_crash)) - 2) (set (concat ex_crash))"
    by (simp add: e del: set_concat)
  have "distinct (concat ex_crash)" "\<exists>b \<in> set (concat ex_crash). rb_type b = EPOCH"
      "deletes_agree (\<lambda>_. False) 3 (set (concat ex_crash))"
      "alloc_first {b \<in> set (concat ex_crash). eligible (\<lambda>_. False) 3 {} b}"
    by (auto simp: ex_crash_def ex_blk_def PBlk_new_def deletes_agree_def alloc_first_def eligible_def data_blk_def)
  then show "image_ok (\<lambda>_. False) ex_crash" by (simp add: image_ok_def Let_def e d del: set_concat)
qed


end
